(* ===== verification/Fpga_Prelude.thy ===== *)
theory Fpga_Prelude
  imports Main "HOL-Library.Word" "HOL-Library.Monad_Syntax"
begin

text \<open>
  Shared vocabulary of the development: the machine integers of the C++ code, value
  initialisation, the partiality monad, the collections of rewrite rules the component
  theories fill, and generic facts about fixed-size arrays.

  \<^bold>\<open>Integers.\<close> \<open>std::uintN_t\<close> is an \<open>N word\<close>, whose arithmetic wraps as the code's does.
  \<open>std::int32_t\<close> is a \<open>32 word\<close> read through \<open>sint\<close>; its \<open>+\<close> and \<open>-\<close> are the checked
  operations below, because a signed overflow is undefined in C++. \<open>std::size_t\<close> values that
  index or measure an array held in memory are \<open>nat\<close>; the counters that may wrap are words.

  \<^bold>\<open>Undefined behaviour.\<close> An operation that can overflow a signed integer, read outside an
  array or call a null function pointer returns an \<open>option\<close>: \<open>None\<close> is undefined behaviour,
  and a theorem that the code is well defined says that the result is \<open>Some\<close>.

  \<^bold>\<open>Arrays.\<close> A \<open>std::array<T, N>\<close> is a list of length \<open>N\<close>; \<open>T{}\<close> is \<open>default\<close>.
\<close>

unbundle bit_operations_syntax

subsection \<open>Machine integers\<close>

type_synonym u8 = "8 word"
type_synonym u16 = "16 word"
type_synonym u32 = "32 word"
type_synonym u64 = "64 word"
type_synonym i32 = "32 word"
type_synonym i64 = "64 word"

named_theorems array_simps \<open>lengths and elements of the arrays the operations return\<close>
named_theorems inv_intros \<open>preservation of the component invariants\<close>

definition fits_i32 :: "int \<Rightarrow> bool" where
  "fits_i32 x \<longleftrightarrow> - (2 ^ 31) \<le> x \<and> x < 2 ^ 31"

definition fits_i64 :: "int \<Rightarrow> bool" where
  "fits_i64 x \<longleftrightarrow> - (2 ^ 63) \<le> x \<and> x < 2 ^ 63"

definition i32_add :: "i32 \<Rightarrow> i32 \<Rightarrow> i32 option" where
  "i32_add a b = (if fits_i32 (sint a + sint b) then Some (a + b) else None)"

definition i32_sub :: "i32 \<Rightarrow> i32 \<Rightarrow> i32 option" where
  "i32_sub a b = (if fits_i32 (sint a - sint b) then Some (a - b) else None)"

definition i64_add :: "i64 \<Rightarrow> i64 \<Rightarrow> i64 option" where
  "i64_add a b = (if fits_i64 (sint a + sint b) then Some (a + b) else None)"

lemma fits_i32_sint [simp]: "fits_i32 (sint (a :: i32))"
  using sint_greater_eq [of a] sint_less [of a] by (simp add: fits_i32_def)

lemma sint_of_int_i32: "fits_i32 x \<Longrightarrow> sint (word_of_int x :: i32) = x"
  by (simp add: fits_i32_def sint_sbintrunc' signed_take_bit_int_eq_self)

lemma sint_of_int_i64: "fits_i64 x \<Longrightarrow> sint (word_of_int x :: i64) = x"
  by (simp add: fits_i64_def sint_sbintrunc' signed_take_bit_int_eq_self)

lemma i32_add_Some:
  "i32_add a b = Some c \<longleftrightarrow> fits_i32 (sint a + sint b) \<and> c = a + b"
  by (auto simp: i32_add_def)

lemma i32_sub_Some:
  "i32_sub a b = Some c \<longleftrightarrow> fits_i32 (sint a - sint b) \<and> c = a - b"
  by (auto simp: i32_sub_def)

lemma sint_i32_add: "fits_i32 (sint a + sint b) \<Longrightarrow> sint (a + b :: i32) = sint a + sint b"
  by (simp add: fits_i32_def sint_word_ariths signed_take_bit_int_eq_self)

lemma sint_i32_sub: "fits_i32 (sint a - sint b) \<Longrightarrow> sint (a - b :: i32) = sint a - sint b"
  by (simp add: fits_i32_def sint_word_ariths signed_take_bit_int_eq_self)

lemma i32_add_value: "i32_add a b = Some c \<Longrightarrow> sint c = sint a + sint b"
  by (auto simp: i32_add_Some sint_i32_add)

lemma i32_sub_value: "i32_sub a b = Some c \<Longrightarrow> sint c = sint a - sint b"
  by (auto simp: i32_sub_Some sint_i32_sub)

lemma i32_sub_self [simp]: "i32_sub a a = Some 0"
  by (simp add: i32_sub_def fits_i32_def)

text \<open>A signed value is determined by its integer reading.\<close>

lemma sint_inject_i32: "sint (a :: i32) = sint b \<longleftrightarrow> a = b"
  by (auto intro: signed_word_eqI)

text \<open>Naturals in and out of words of enough bits.\<close>

lemma unat_u64_less: "unat (x :: u64) < 2 ^ 64"
  using unsigned_less [of x] by simp

lemma unat_of_nat_u64: "n < 2 ^ 64 \<Longrightarrow> unat (of_nat n :: u64) = n"
  by (simp add: unat_of_nat)

lemma unat_of_nat_u32: "n < 2 ^ 32 \<Longrightarrow> unat (of_nat n :: u32) = n"
  by (simp add: unat_of_nat)

subsection \<open>Exclusive or\<close>

lemma xor_cancel_right: "(x XOR c = y XOR c) \<longleftrightarrow> x = (y :: 'a::len word)"
proof
  assume "x XOR c = y XOR c"
  then have "(x XOR c) XOR c = (y XOR c) XOR c" by (rule arg_cong)
  then show "x = y" by (simp add: xor.assoc)
qed simp

subsection \<open>Big-endian bytes\<close>

text \<open>The network order of a word's bytes: what every encoder of the code should produce.\<close>

definition be_bytes32 :: "u32 \<Rightarrow> u8 list" where
  "be_bytes32 v = map (\<lambda>i. ucast (drop_bit ((3 - i) * 8) v)) [0..<4]"

definition be_bytes64 :: "u64 \<Rightarrow> u8 list" where
  "be_bytes64 v = map (\<lambda>i. ucast (drop_bit ((7 - i) * 8) v)) [0..<8]"

lemma length_be_bytes [simp]: "length (be_bytes32 v) = 4" "length (be_bytes64 w) = 8"
  by (simp_all add: be_bytes32_def be_bytes64_def)

lemma be_bytes32_eq:
  "be_bytes32 v = [ucast (drop_bit 24 v), ucast (drop_bit 16 v), ucast (drop_bit 8 v), ucast v]"
  by (simp add: be_bytes32_def upt_rec)

lemma be_bytes64_eq:
  "be_bytes64 v = [ucast (drop_bit 56 v), ucast (drop_bit 48 v), ucast (drop_bit 40 v),
     ucast (drop_bit 32 v), ucast (drop_bit 24 v), ucast (drop_bit 16 v), ucast (drop_bit 8 v),
     ucast v]"
  by (simp add: be_bytes64_def upt_rec)

lemma join_bytes32:
  "push_bit 24 (ucast (ucast (drop_bit 24 v) :: u8)) OR push_bit 16 (ucast (ucast (drop_bit 16 v) :: u8))
     OR push_bit 8 (ucast (ucast (drop_bit 8 v) :: u8)) OR ucast (ucast v :: u8) = (v :: u32)"
proof (rule bit_word_eqI)
  fix n assume "n < LENGTH(32)"
  then consider "n < 8" | "8 \<le> n \<and> n < 16" | "16 \<le> n \<and> n < 24" | "24 \<le> n \<and> n < 32" by fastforce
  then show "bit (push_bit 24 (ucast (ucast (drop_bit 24 v) :: u8))
     OR push_bit 16 (ucast (ucast (drop_bit 16 v) :: u8))
     OR push_bit 8 (ucast (ucast (drop_bit 8 v) :: u8)) OR ucast (ucast v :: u8) :: u32) n = bit v n"
    by cases (auto simp: bit_simps)
qed

lemma join_byte64:
  assumes "k < 56"
  shows "push_bit 8 (drop_bit (k + 8) v) OR ucast (ucast (drop_bit k v) :: u8) = drop_bit k (v :: u64)"
proof (rule bit_word_eqI)
  fix n assume "n < LENGTH(64)"
  then show "bit (push_bit 8 (drop_bit (k + 8) v) OR ucast (ucast (drop_bit k v) :: u8) :: u64) n
      = bit (drop_bit k v) n"
    by (cases "n < 8") (auto simp: bit_simps)
qed

subsection \<open>Value initialisation\<close>

text \<open>The library's class \<open>default\<close> plays the part of \<open>T{}\<close>.\<close>

instantiation word :: (len) default
begin
definition default_word :: "'a word" where "default_word = 0"
instance ..
end

instantiation bool :: default
begin
definition default_bool :: bool where "default_bool = False"
instance ..
end

subsection \<open>Fixed-size arrays\<close>

lemma nth_list_update_if:
  "i < length xs \<Longrightarrow> xs[i := x] ! j = (if i = j then x else xs ! j)"
  by (auto simp: nth_list_update)

lemma mod_less_pos: "0 < (n::nat) \<Longrightarrow> k mod n < n"
  by simp

text \<open>Distinct offsets below the modulus stay distinct after a rotation.\<close>

lemma rotation_inj_le:
  assumes "i \<le> j" "j < n" "(h + i) mod n = (h + j) mod (n::nat)"
  shows "i = j"
proof -
  have "n dvd (h + j) - (h + i)"
    using assms mod_eq_dvd_iff_nat [of "h + i" "h + j" n] by simp
  then have "n dvd j - i" by simp
  with assms(1,2) show ?thesis
    by (metis diff_is_0_eq' dvd_imp_le le_neq_implies_less less_imp_diff_less not_le zero_less_diff)
qed

lemma rotation_inj:
  assumes "i < n" "j < n" "(h + i) mod n = (h + j) mod (n::nat)"
  shows "i = j"
  using assms rotation_inj_le [of i j n h] rotation_inj_le [of j i n h]
  by (cases "i \<le> j") auto

end
