(* ===== verification/Ring_Buffer.thy ===== *)
theory Ring_Buffer
  imports Fpga_Prelude
begin

text \<open>
  \<open>AlignedSlab\<close> and \<open>RingBuffer\<close> of \<open>include/core/aligned_slab.hpp\<close>, the bounded FIFO
  interface its clients (the DMA ring and the three queues of the pipeline) rely on, and the
  proof that the ring buffer provides it. The template parameter \<open>Count\<close> is the length of the
  entries array, which \<open>static_assert(Count > 0)\<close> makes positive.
\<close>

subsection \<open>The bounded FIFO interface\<close>

datatype 'a fifo_op = Push 'a | Pop

text \<open>What a caller observes of an operation: the flag of a push, the value of a pop.\<close>

datatype 'a fifo_answer = Pushed bool | Popped "'a option"

fun fifo_spec_step :: "nat \<Rightarrow> 'a list \<Rightarrow> 'a fifo_op \<Rightarrow> 'a fifo_answer \<times> 'a list" where
  "fifo_spec_step n xs (Push x) =
     (if length xs = n then (Pushed False, xs) else (Pushed True, xs @ [x]))"
| "fifo_spec_step n xs Pop =
     (case xs of [] \<Rightarrow> (Popped None, []) | y # ys \<Rightarrow> (Popped (Some y), ys))"

fun fifo_spec_run :: "nat \<Rightarrow> 'a list \<Rightarrow> 'a fifo_op list \<Rightarrow> 'a fifo_answer list" where
  "fifo_spec_run n xs [] = []"
| "fifo_spec_run n xs (c # cs) =
     (case fifo_spec_step n xs c of (a, ys) \<Rightarrow> a # fifo_spec_run n ys cs)"

fun fifo_step ::
  "('a \<Rightarrow> 'q \<Rightarrow> bool \<times> 'q) \<Rightarrow> ('q \<Rightarrow> 'a option \<times> 'q) \<Rightarrow> 'q \<Rightarrow> 'a fifo_op \<Rightarrow> 'a fifo_answer \<times> 'q"
where
  "fifo_step push pop q (Push x) = (case push x q of (b, q') \<Rightarrow> (Pushed b, q'))"
| "fifo_step push pop q Pop = (case pop q of (v, q') \<Rightarrow> (Popped v, q'))"

fun fifo_run ::
  "('a \<Rightarrow> 'q \<Rightarrow> bool \<times> 'q) \<Rightarrow> ('q \<Rightarrow> 'a option \<times> 'q) \<Rightarrow> 'q \<Rightarrow> 'a fifo_op list \<Rightarrow> 'a fifo_answer list"
where
  "fifo_run push pop q [] = []"
| "fifo_run push pop q (c # cs) =
     (case fifo_step push pop q c of (a, q') \<Rightarrow> a # fifo_run push pop q' cs)"

locale bounded_fifo =
  fixes push :: "'a \<Rightarrow> 'q \<Rightarrow> bool \<times> 'q"
    and pop :: "'q \<Rightarrow> 'a option \<times> 'q"
    and contents :: "'q \<Rightarrow> 'a list"
    and invar :: "'q \<Rightarrow> bool"
    and cap :: "'q \<Rightarrow> nat"
  assumes push_room:
      "invar q \<Longrightarrow> length (contents q) < cap q \<Longrightarrow>
       \<exists>q'. push x q = (True, q') \<and> invar q' \<and> contents q' = contents q @ [x] \<and> cap q' = cap q"
    and push_full: "invar q \<Longrightarrow> length (contents q) = cap q \<Longrightarrow> push x q = (False, q)"
    and pop_empty: "invar q \<Longrightarrow> contents q = [] \<Longrightarrow> pop q = (None, q)"
    and pop_front:
      "invar q \<Longrightarrow> contents q = y # ys \<Longrightarrow>
       \<exists>q'. pop q = (Some y, q') \<and> invar q' \<and> contents q' = ys \<and> cap q' = cap q"
    and bounded: "invar q \<Longrightarrow> length (contents q) \<le> cap q"
begin

lemma step_refines:
  assumes "invar q"
  obtains a q' where "fifo_step push pop q c = (a, q')" "invar q'" "cap q' = cap q"
    "fifo_spec_step (cap q) (contents q) c = (a, contents q')"
proof (cases c)
  case (Push x)
  show thesis
  proof (cases "length (contents q) = cap q")
    case True
    with assms Push push_full [of q x] show thesis
      by (intro that [of "Pushed False" q]) auto
  next
    case False
    with assms have "length (contents q) < cap q" using bounded [of q] by simp
    with assms push_room [of q x] obtain q' where
      "push x q = (True, q')" "invar q'" "contents q' = contents q @ [x]" "cap q' = cap q"
      by blast
    with False Push show thesis by (intro that [of "Pushed True" q']) auto
  qed
next
  case Pop
  show thesis
  proof (cases "contents q")
    case Nil
    with assms Pop pop_empty show thesis by (intro that [of "Popped None" q]) auto
  next
    case (Cons y ys)
    with assms pop_front [of q y ys] obtain q' where
      "pop q = (Some y, q')" "invar q'" "contents q' = ys" "cap q' = cap q"
      by blast
    with Cons Pop show thesis by (intro that [of "Popped (Some y)" q']) auto
  qed
qed

lemma run_refines:
  "invar q \<Longrightarrow> fifo_run push pop q cs = fifo_spec_run (cap q) (contents q) cs"
proof (induction cs arbitrary: q)
  case (Cons c cs)
  from \<open>invar q\<close> obtain a q' where "fifo_step push pop q c = (a, q')" "invar q'"
    "cap q' = cap q" "fifo_spec_step (cap q) (contents q) c = (a, contents q')"
    by (rule step_refines)
  with Cons.IH [of q'] show ?case by simp
qed simp

lemma push_cases:
  assumes "invar q" "push x q = (b, q')"
  shows "b \<longleftrightarrow> length (contents q) < cap q"
    and "invar q'" and "cap q' = cap q"
    and "contents q' = (if b then contents q @ [x] else contents q)"
  using assms push_room [of q x] push_full [of q x] bounded [of q]
  by (cases "length (contents q) = cap q"; force)+

lemma pop_cases:
  assumes "invar q" "pop q = (v, q')"
  shows "invar q'" and "cap q' = cap q"
    and "v = (case contents q of [] \<Rightarrow> None | y # ys \<Rightarrow> Some y)"
    and "contents q' = tl (contents q)"
  using assms pop_empty [of q] pop_front [of q]
  by (cases "contents q"; force)+

end

subsection \<open>The ring buffer of the code\<close>

record 'a ring_buffer =
  slab_entries :: "'a list"
  rb_head :: nat
  rb_tail :: nat
  rb_size :: nat

definition rb_capacity :: "'a ring_buffer \<Rightarrow> nat" where
  "rb_capacity r = length (slab_entries r)"

definition rb_new :: "nat \<Rightarrow> 'a::default ring_buffer" where
  "rb_new count = \<lparr>slab_entries = replicate count default, rb_head = 0, rb_tail = 0, rb_size = 0\<rparr>"

definition rb_push :: "'a \<Rightarrow> 'a ring_buffer \<Rightarrow> bool \<times> 'a ring_buffer" where
  "rb_push value r =
     (if rb_size r = rb_capacity r then (False, r)
      else (True, r\<lparr>slab_entries := (slab_entries r)[rb_tail r := value],
                    rb_tail := (rb_tail r + 1) mod rb_capacity r,
                    rb_size := rb_size r + 1\<rparr>))"

definition rb_pop :: "'a ring_buffer \<Rightarrow> 'a option \<times> 'a ring_buffer" where
  "rb_pop r =
     (if rb_size r = 0 then (None, r)
      else (Some (slab_entries r ! rb_head r),
            r\<lparr>rb_head := (rb_head r + 1) mod rb_capacity r, rb_size := rb_size r - 1\<rparr>))"

subsection \<open>Invariant and contents\<close>

definition rb_inv :: "'a ring_buffer \<Rightarrow> bool" where
  "rb_inv r \<longleftrightarrow> 0 < rb_capacity r \<and> rb_size r \<le> rb_capacity r \<and> rb_head r < rb_capacity r
     \<and> rb_tail r = (rb_head r + rb_size r) mod rb_capacity r"

definition rb_contents :: "'a ring_buffer \<Rightarrow> 'a list" where
  "rb_contents r =
     map (\<lambda>i. slab_entries r ! ((rb_head r + i) mod rb_capacity r)) [0..<rb_size r]"

lemma length_rb_contents [simp]: "length (rb_contents r) = rb_size r"
  by (simp add: rb_contents_def)

lemma rb_new_inv [inv_intros]: "0 < count \<Longrightarrow> rb_inv (rb_new count)"
  by (simp add: rb_inv_def rb_new_def rb_capacity_def)

lemma rb_new_contents [simp]: "rb_contents (rb_new count) = []"
  by (simp add: rb_contents_def rb_new_def)

lemma rb_new_capacity [simp]: "rb_capacity (rb_new count) = count"
  by (simp add: rb_capacity_def rb_new_def)

text \<open>Writing at the tail of a ring with room leaves the live entries alone.\<close>

lemma rb_push_contents:
  assumes inv: "rb_inv r" and room: "rb_size r < rb_capacity r"
  shows "rb_contents (snd (rb_push x r)) = rb_contents r @ [x]"
proof -
  let ?n = "rb_capacity r" and ?h = "rb_head r" and ?s = "rb_size r"
  have tail: "rb_tail r = (?h + ?s) mod ?n" and "0 < ?n" using inv by (auto simp: rb_inv_def)
  then have tail_less: "rb_tail r < length (slab_entries r)" by (simp add: rb_capacity_def)
  have live: "(slab_entries r)[rb_tail r := x] ! ((?h + i) mod ?n)
                = slab_entries r ! ((?h + i) mod ?n)" if "i < ?s" for i
  proof -
    have "(?h + i) mod ?n \<noteq> (?h + ?s) mod ?n"
      using rotation_inj [of i ?n ?s ?h] that room by auto
    then show ?thesis by (simp add: tail)
  qed
  have cap: "rb_capacity (snd (rb_push x r)) = ?n"
    by (simp add: rb_push_def rb_capacity_def)
  show ?thesis using room tail_less live
    by (simp add: rb_contents_def cap) (simp add: rb_push_def rb_capacity_def tail)
qed

lemma rb_pop_contents:
  assumes inv: "rb_inv r" and "0 < rb_size r"
  shows "rb_contents r = slab_entries r ! rb_head r # rb_contents (snd (rb_pop r))"
proof -
  let ?n = "rb_capacity r"
  from \<open>0 < rb_size r\<close> obtain s where s: "rb_size r = Suc s" by (cases "rb_size r") auto
  have step: "((rb_head r + 1) mod ?n + i) mod ?n = (rb_head r + Suc i) mod ?n" for i
    by (simp add: mod_add_left_eq)
  have "rb_head r mod ?n = rb_head r" using inv by (simp add: rb_inv_def)
  then show ?thesis using step
    by (simp add: rb_contents_def rb_pop_def s upt_rec [of 0 "Suc s"] map_Suc_upt [symmetric]
        rb_capacity_def del: upt_Suc)
qed

lemma rb_push_inv [inv_intros]: "rb_inv r \<Longrightarrow> rb_inv (snd (rb_push x r))"
  by (auto simp: rb_inv_def rb_push_def rb_capacity_def mod_Suc_eq)

lemma rb_pop_inv [inv_intros]:
  assumes "rb_inv r" shows "rb_inv (snd (rb_pop r))"
proof (cases "rb_size r")
  case (Suc s)
  with assms show ?thesis
    by (simp add: rb_inv_def rb_pop_def rb_capacity_def mod_add_left_eq)
qed (use assms in \<open>simp add: rb_pop_def\<close>)

interpretation ring: bounded_fifo rb_push rb_pop rb_contents rb_inv rb_capacity
proof unfold_locales
  fix q :: "'a ring_buffer" and x
  assume "rb_inv q" "length (rb_contents q) < rb_capacity q"
  then show "\<exists>q'. rb_push x q = (True, q') \<and> rb_inv q' \<and> rb_contents q' = rb_contents q @ [x]
      \<and> rb_capacity q' = rb_capacity q"
    using rb_push_contents [of q x] rb_push_inv [of q x]
    by (intro exI [of _ "snd (rb_push x q)"]) (auto simp: rb_push_def rb_capacity_def)
next
  fix q :: "'a ring_buffer" and y ys
  assume inv: "rb_inv q" and c: "rb_contents q = y # ys"
  then have "0 < rb_size q" using length_rb_contents [of q] by simp
  with inv c show "\<exists>q'. rb_pop q = (Some y, q') \<and> rb_inv q' \<and> rb_contents q' = ys
      \<and> rb_capacity q' = rb_capacity q"
    using rb_pop_contents [of q] rb_pop_inv [of q]
    by (intro exI [of _ "snd (rb_pop q)"]) (auto simp: rb_pop_def rb_capacity_def)
next
  fix q :: "'a ring_buffer" and x
  assume "rb_inv q" "length (rb_contents q) = rb_capacity q"
  then show "rb_push x q = (False, q)" by (simp add: rb_push_def)
next
  fix q :: "'a ring_buffer"
  assume "rb_inv q" "rb_contents q = []"
  then show "rb_pop q = (None, q)" using length_rb_contents [of q] by (simp add: rb_pop_def)
next
  fix q :: "'a ring_buffer"
  assume "rb_inv q"
  then show "length (rb_contents q) \<le> rb_capacity q" by (simp add: rb_inv_def)
qed

subsection \<open>Properties\<close>

text \<open>
  C20. Whatever sequence of \<open>push\<close> and \<open>pop\<close> calls is made on a fresh ring buffer of \<open>count\<close>
  slots, every flag and every value the caller sees is the one a queue bounded by \<open>count\<close>
  gives: values come out in the order they went in, none is lost, duplicated or overwritten
  when the indices wrap, a push fails exactly when \<open>count\<close> values are held and a pop exactly
  when none is.
\<close>

theorem ring_trace_refines:
  assumes "0 < count"
  shows "fifo_run rb_push rb_pop (rb_new count) cs = fifo_spec_run count [] cs"
  using ring.run_refines [OF rb_new_inv [OF assms]] by simp

theorem ring_trace_refines_witness:
  "fifo_run rb_push rb_pop (rb_new 2) [Push (7::u8), Push 8, Push 9, Pop, Push 9, Pop, Pop, Pop]
   = [Pushed True, Pushed True, Pushed False, Popped (Some 7), Pushed True,
      Popped (Some 8), Popped (Some 9), Popped None]"
  by (subst ring_trace_refines) simp_all

end
