(* ===== verification/Pcie_Dma.thy ===== *)
theory Pcie_Dma
  imports Ring_Buffer
begin

text \<open>
  The DMA engine of \<open>include/modules/pcie_dma.hpp\<close>: a 64-entry ring of posted TLPs, the
  counter of accepted posts and the MSI-X flag. The ring's behaviour is taken from the
  interpretation \<open>ring\<close> of the bounded FIFO interface.
\<close>

subsection \<open>State and operations\<close>

record pcie_tlp =
  tlp_address :: u64
  tlp_byte_count :: u32
  tlp_tag :: u32
  tlp_payload :: "u8 list"

definition tlp_empty :: pcie_tlp where
  "tlp_empty = \<lparr>tlp_address = 0, tlp_byte_count = 0, tlp_tag = 0, tlp_payload = replicate 256 0\<rparr>"

instantiation pcie_tlp_ext :: (default) default
begin
definition default_pcie_tlp_ext :: "'a pcie_tlp_scheme" where
  "default_pcie_tlp_ext = pcie_tlp.extend tlp_empty default"
instance ..
end

record pcie_dma =
  dma_ring :: "pcie_tlp ring_buffer"
  dma_posted :: u64
  dma_msix :: bool

definition ring_depth :: nat where
  "ring_depth = 64"

definition dma_new :: pcie_dma where
  "dma_new = \<lparr>dma_ring = rb_new ring_depth, dma_posted = 0, dma_msix = False\<rparr>"

definition dma_reset :: "pcie_dma \<Rightarrow> pcie_dma" where
  "dma_reset d = d\<lparr>dma_ring := rb_new ring_depth, dma_posted := 0, dma_msix := False\<rparr>"

definition dma_post_write :: "pcie_tlp \<Rightarrow> pcie_dma \<Rightarrow> bool \<times> pcie_dma" where
  "dma_post_write tlp d =
     (case rb_push tlp (dma_ring d) of
        (False, r) \<Rightarrow> (False, d\<lparr>dma_ring := r\<rparr>)
      | (True, r) \<Rightarrow> (True, d\<lparr>dma_ring := r, dma_posted := dma_posted d + 1, dma_msix := True\<rparr>))"

definition dma_consume :: "pcie_dma \<Rightarrow> pcie_tlp option \<times> pcie_dma" where
  "dma_consume d = (case rb_pop (dma_ring d) of (v, r) \<Rightarrow> (v, d\<lparr>dma_ring := r\<rparr>))"

definition dma_clear_msix :: "pcie_dma \<Rightarrow> pcie_dma" where
  "dma_clear_msix d = d\<lparr>dma_msix := False\<rparr>"

subsection \<open>The DMA engine is a bounded FIFO of TLPs\<close>

definition dma_inv :: "pcie_dma \<Rightarrow> bool" where
  "dma_inv d \<longleftrightarrow> rb_inv (dma_ring d) \<and> rb_capacity (dma_ring d) = ring_depth"

definition dma_contents :: "pcie_dma \<Rightarrow> pcie_tlp list" where
  "dma_contents d = rb_contents (dma_ring d)"

lemma dma_new_inv [inv_intros, simp]: "dma_inv dma_new"
  by (simp add: dma_inv_def dma_new_def rb_new_inv ring_depth_def)

lemma dma_new_contents [simp]: "dma_contents dma_new = []"
  by (simp add: dma_contents_def dma_new_def)

lemma dma_reset_eq [simp]: "dma_reset d = dma_new"
  by (simp add: dma_reset_def dma_new_def)

lemma dma_clear_msix_inv [simp]:
  "dma_inv (dma_clear_msix d) = dma_inv d" "dma_contents (dma_clear_msix d) = dma_contents d"
  "dma_posted (dma_clear_msix d) = dma_posted d"
  by (simp_all add: dma_clear_msix_def dma_inv_def dma_contents_def)

lemma dma_post_write_cases:
  assumes "dma_inv d" "dma_post_write tlp d = (b, d')"
  shows "b \<longleftrightarrow> length (dma_contents d) < ring_depth"
    and "dma_inv d'"
    and "dma_contents d' = (if b then dma_contents d @ [tlp] else dma_contents d)"
    and "dma_posted d' = (if b then dma_posted d + 1 else dma_posted d)"
    and "dma_msix d' = (b \<or> dma_msix d)"
proof -
  obtain r where r: "rb_push tlp (dma_ring d) = (b, r)" and "dma_ring d' = r"
    using assms(2) by (auto simp: dma_post_write_def split: prod.splits bool.splits)
  then show "b \<longleftrightarrow> length (dma_contents d) < ring_depth" "dma_inv d'"
    "dma_contents d' = (if b then dma_contents d @ [tlp] else dma_contents d)"
    using assms(1) ring.push_cases [OF _ r]
    by (auto simp: dma_inv_def dma_contents_def)
  show "dma_posted d' = (if b then dma_posted d + 1 else dma_posted d)"
    "dma_msix d' = (b \<or> dma_msix d)"
    using assms(2) r by (auto simp: dma_post_write_def split: bool.splits)
qed

lemma dma_consume_cases:
  assumes "dma_inv d" "dma_consume d = (v, d')"
  shows "dma_inv d'"
    and "v = (case dma_contents d of [] \<Rightarrow> None | y # ys \<Rightarrow> Some y)"
    and "dma_contents d' = tl (dma_contents d)"
    and "dma_posted d' = dma_posted d" and "dma_msix d' = dma_msix d"
proof -
  obtain r where r: "rb_pop (dma_ring d) = (v, r)" and d': "d' = d\<lparr>dma_ring := r\<rparr>"
    using assms(2) by (auto simp: dma_consume_def split: prod.splits)
  then show "dma_inv d'" "v = (case dma_contents d of [] \<Rightarrow> None | y # ys \<Rightarrow> Some y)"
    "dma_contents d' = tl (dma_contents d)"
    using assms(1) ring.pop_cases [OF _ r] by (auto simp: dma_inv_def dma_contents_def)
  show "dma_posted d' = dma_posted d" "dma_msix d' = dma_msix d" using d' by simp_all
qed

interpretation dma: bounded_fifo dma_post_write dma_consume dma_contents dma_inv "\<lambda>_. ring_depth"
proof unfold_locales
  fix q x
  assume "dma_inv q" "length (dma_contents q) < ring_depth"
  then show "\<exists>q'. dma_post_write x q = (True, q') \<and> dma_inv q'
      \<and> dma_contents q' = dma_contents q @ [x] \<and> ring_depth = ring_depth"
    using dma_post_write_cases [of q x] by (cases "dma_post_write x q") auto
next
  fix q x
  assume "dma_inv q" "length (dma_contents q) = ring_depth"
  then show "dma_post_write x q = (False, q)"
    using ring.push_full [of "dma_ring q" x]
    by (simp add: dma_inv_def dma_contents_def dma_post_write_def)
next
  fix q
  assume "dma_inv q" "dma_contents q = []"
  then show "dma_consume q = (None, q)"
    using ring.pop_empty [of "dma_ring q"]
    by (simp add: dma_inv_def dma_contents_def dma_consume_def)
next
  fix q y ys
  assume "dma_inv q" "dma_contents q = y # ys"
  then show "\<exists>q'. dma_consume q = (Some y, q') \<and> dma_inv q' \<and> dma_contents q' = ys
      \<and> ring_depth = ring_depth"
    using dma_consume_cases [of q] by (cases "dma_consume q") auto
next
  fix q
  assume "dma_inv q"
  then show "length (dma_contents q) \<le> ring_depth"
    using ring.bounded [of "dma_ring q"] by (simp add: dma_inv_def dma_contents_def)
qed

subsection \<open>A driver's history\<close>

text \<open>The state a sequence of posts and consumes leaves the engine in.\<close>

fun dma_final :: "pcie_dma \<Rightarrow> pcie_tlp fifo_op list \<Rightarrow> pcie_dma" where
  "dma_final d [] = d"
| "dma_final d (c # cs) = dma_final (snd (fifo_step dma_post_write dma_consume d c)) cs"

lemma dma_final_counts:
  "dma_inv d \<Longrightarrow>
   dma_posted (dma_final d cs)
     = dma_posted d
       + of_nat (count_list (fifo_run dma_post_write dma_consume d cs) (Pushed True))
   \<and> (dma_msix (dma_final d cs)
      \<longleftrightarrow> dma_msix d \<or> Pushed True \<in> set (fifo_run dma_post_write dma_consume d cs))"
proof (induction cs arbitrary: d)
  case (Cons c cs)
  show ?case
  proof (cases c)
    case (Push t)
    obtain b d' where st: "dma_post_write t d = (b, d')" by fastforce
    with dma_post_write_cases [OF Cons.prems st] Cons.IH [of d'] Push show ?thesis
      by (auto simp: add.assoc)
  next
    case Pop
    obtain v d' where st: "dma_consume d = (v, d')" by fastforce
    with dma_consume_cases [OF Cons.prems st] Cons.IH [of d'] Pop show ?thesis by auto
  qed
qed simp

text \<open>
  For every history of posts and consumes of a fresh DMA engine: the host sees exactly a
  64-entry FIFO of TLPs, \<open>posted_count\<close> is the number of accepted posts (modulo \<open>2 ^ 64\<close>), a
  rejected post changes neither it nor the flag, and MSI-X is asserted exactly when some post
  was accepted.
\<close>

lemma dma_history:
  "fifo_run dma_post_write dma_consume dma_new cs = fifo_spec_run ring_depth [] cs
   \<and> dma_posted (dma_final dma_new cs)
       = of_nat (count_list (fifo_spec_run ring_depth [] cs) (Pushed True))
   \<and> (dma_msix (dma_final dma_new cs)
       \<longleftrightarrow> Pushed True \<in> set (fifo_spec_run ring_depth [] cs))"
proof -
  have run: "fifo_run dma_post_write dma_consume dma_new cs = fifo_spec_run ring_depth [] cs"
    using dma.run_refines [OF dma_new_inv, of cs] by simp
  have "dma_posted dma_new = 0" "\<not> dma_msix dma_new" by (simp_all add: dma_new_def)
  with dma_final_counts [OF dma_new_inv, of cs] run show ?thesis by simp
qed

end
