(* ===== verification/Discrete_Engine.thy ===== *)
theory Discrete_Engine
  imports Fpga_Prelude
begin

text \<open>
  The clock of \<open>include/core/discrete_engine.hpp\<close>. A callback is a function of its context
  pointer, the cycle number and the memory \<open>'w\<close> it may change; its result is an \<open>option\<close>
  because a callback may run into undefined behaviour (the pipeline's can). \<open>nullptr\<close> is
  \<open>None\<close>, and calling it is undefined. Callbacks do not touch the engine that calls them.
\<close>

subsection \<open>Clock constants and the report conversion\<close>

definition clock_hz :: u64 where "clock_hz = 322265625"
definition cycle_ns_num :: u64 where "cycle_ns_num = 512"
definition cycle_ns_den :: u64 where "cycle_ns_den = 165"

definition cycles_to_ns_e4 :: "u64 \<Rightarrow> u64" where
  "cycles_to_ns_e4 cycles = (cycles * cycle_ns_num * 10000 + cycle_ns_den div 2) div cycle_ns_den"

lemma clock_static_assert: "clock_hz * cycle_ns_num = 1000000000 * cycle_ns_den"
  by (simp add: clock_hz_def cycle_ns_num_def cycle_ns_den_def)

subsection \<open>The engine\<close>

type_synonym ('c, 'w) callback = "'c option \<Rightarrow> u64 \<Rightarrow> 'w \<Rightarrow> 'w option"

record ('c, 'w) slot =
  slot_callback :: "('c, 'w) callback option"
  slot_context :: "'c option"

record ('c, 'w) engine =
  en_posedge :: "('c, 'w) slot list"
  en_negedge :: "('c, 'w) slot list"
  en_count :: nat
  en_negedge_count :: nat
  en_cycle :: u64

definition max_callbacks :: nat where "max_callbacks = 16"

definition slot_empty :: "('c, 'w) slot" where
  "slot_empty = \<lparr>slot_callback = None, slot_context = None\<rparr>"

definition engine_new :: "('c, 'w) engine" where
  "engine_new = \<lparr>en_posedge = replicate max_callbacks slot_empty,
     en_negedge = replicate max_callbacks slot_empty,
     en_count = 0, en_negedge_count = 0, en_cycle = 0\<rparr>"

definition on_posedge ::
  "('c, 'w) callback option \<Rightarrow> 'c option \<Rightarrow> ('c, 'w) engine \<Rightarrow> bool \<times> ('c, 'w) engine" where
  "on_posedge callback context e =
     (if callback = None \<or> max_callbacks \<le> en_count e then (False, e)
      else (True, e\<lparr>en_posedge := (en_posedge e)[en_count e :=
                       \<lparr>slot_callback = callback, slot_context = context\<rparr>],
                    en_count := en_count e + 1\<rparr>))"

definition on_negedge ::
  "('c, 'w) callback option \<Rightarrow> 'c option \<Rightarrow> ('c, 'w) engine \<Rightarrow> bool \<times> ('c, 'w) engine" where
  "on_negedge callback context e =
     (if callback = None \<or> max_callbacks \<le> en_negedge_count e then (False, e)
      else (True, e\<lparr>en_negedge := (en_negedge e)[en_negedge_count e :=
                       \<lparr>slot_callback = callback, slot_context = context\<rparr>],
                    en_negedge_count := en_negedge_count e + 1\<rparr>))"

definition engine_reset :: "('c, 'w) engine \<Rightarrow> ('c, 'w) engine" where
  "engine_reset e = e\<lparr>en_cycle := 0\<rparr>"

fun call_slots :: "('c, 'w) slot list \<Rightarrow> u64 \<Rightarrow> 'w \<Rightarrow> 'w option" where
  "call_slots [] cycle w = Some w"
| "call_slots (s # ss) cycle w =
     (case slot_callback s of
        None \<Rightarrow> None
      | Some f \<Rightarrow> do { w' \<leftarrow> f (slot_context s) cycle w; call_slots ss cycle w' })"

definition engine_step :: "('c, 'w) engine \<Rightarrow> 'w \<Rightarrow> (('c, 'w) engine \<times> 'w) option" where
  "engine_step e w = do {
     w1 \<leftarrow> call_slots (take (en_count e) (en_posedge e)) (en_cycle e) w;
     w2 \<leftarrow> call_slots (take (en_negedge_count e) (en_negedge e)) (en_cycle e) w1;
     Some (e\<lparr>en_cycle := en_cycle e + 1\<rparr>, w2) }"

fun engine_steps :: "nat \<Rightarrow> ('c, 'w) engine \<Rightarrow> 'w \<Rightarrow> (('c, 'w) engine \<times> 'w) option" where
  "engine_steps 0 e w = Some (e, w)"
| "engine_steps (Suc n) e w = do { (e', w') \<leftarrow> engine_step e w; engine_steps n e' w' }"

definition engine_run :: "u64 \<Rightarrow> ('c, 'w) engine \<Rightarrow> 'w \<Rightarrow> (('c, 'w) engine \<times> 'w) option" where
  "engine_run cycles = engine_steps (unat cycles)"

subsection \<open>Registration histories\<close>

datatype edge = Posedge | Negedge

type_synonym ('c, 'w) registration = "edge \<times> ('c, 'w) callback option \<times> 'c option"

fun register ::
  "('c, 'w) registration \<Rightarrow> ('c, 'w) engine \<Rightarrow> bool \<times> ('c, 'w) engine" where
  "register (Posedge, f, c) e = on_posedge f c e"
| "register (Negedge, f, c) e = on_negedge f c e"



definition live_slots :: "edge \<Rightarrow> ('c, 'w) engine \<Rightarrow> ('c, 'w) slot list" where
  "live_slots d e = (case d of
     Posedge \<Rightarrow> take (en_count e) (en_posedge e)
   | Negedge \<Rightarrow> take (en_negedge_count e) (en_negedge e))"



lemma live_slots_new [simp]: "live_slots d engine_new = []"
  by (cases d) (simp_all add: live_slots_def engine_new_def)

lemma engine_new_cycle [simp]: "en_cycle engine_new = 0"
  by (simp add: engine_new_def)




lemma register_cycle [simp]: "en_cycle (snd (register r e)) = en_cycle e"
  by (cases "(r, e)" rule: register.cases) (auto simp: on_posedge_def on_negedge_def)



subsection \<open>Properties\<close>


lemma engine_step_cycle:
  "engine_step e w = Some (e', w') \<Longrightarrow> e' = e\<lparr>en_cycle := en_cycle e + 1\<rparr>"
  by (auto simp: engine_step_def split: bind_splits)

lemma engine_steps_add:
  "engine_steps (m + n) e w = do { (e', w') \<leftarrow> engine_steps m e w; engine_steps n e' w' }"
  by (induction m arbitrary: e w) (auto simp: split: bind_splits)

lemma engine_steps_cycle:
  "engine_steps n e w = Some (e', w') \<Longrightarrow> e' = e\<lparr>en_cycle := en_cycle e + of_nat n\<rparr>"
proof (induction n arbitrary: e w)
  case (Suc n)
  from Suc.prems obtain e1 w1 where s: "engine_step e w = Some (e1, w1)"
    and r: "engine_steps n e1 w1 = Some (e', w')"
    by (auto split: bind_splits)
  from Suc.IH [OF r] engine_step_cycle [OF s] show ?case by (simp add: algebra_simps)
qed simp

text \<open>
  Single-stepping and free-running cannot be told apart: running \<open>a + b\<close> cycles is running \<open>a\<close>
  and then \<open>b\<close>, and the cycle counter advances by exactly the number of cycles asked for.
\<close>

lemma engine_run_compose:
  assumes "unat a + unat b < 2 ^ 64"
  shows "engine_run (a + b) e w = do { (e', w') \<leftarrow> engine_run a e w; engine_run b e' w' }
     \<and> (\<forall>e' w'. engine_run a e w = Some (e', w') \<longrightarrow> e' = e\<lparr>en_cycle := en_cycle e + a\<rparr>)"
proof -
  have "unat (a + b) = unat a + unat b"
    using assms by (simp add: unat_add_lem [THEN iffD1])
  then have "engine_run (a + b) e w = do { (e', w') \<leftarrow> engine_run a e w; engine_run b e' w' }"
    by (simp add: engine_run_def engine_steps_add)
  moreover have "\<forall>e' w'. engine_run a e w = Some (e', w') \<longrightarrow> e' = e\<lparr>en_cycle := en_cycle e + a\<rparr>"
    using engine_steps_cycle by (fastforce simp: engine_run_def)
  ultimately show ?thesis ..
qed

lemma remainder_below_half:
  "165 * q + r = c * 5120000 + 82 \<Longrightarrow> r < 165 \<Longrightarrow>
   2 * \<bar>165 * int q - 5120000 * int c\<bar> < 165"
proof -
  assume eq: "165 * q + r = c * 5120000 + 82" and "r < 165"
  from eq have "int (165 * q + r) = int (c * 5120000 + 82)" by (rule arg_cong)
  then have "165 * int q - 5120000 * int c = 82 - int r" by simp
  with \<open>r < 165\<close> show ?thesis by (simp add: abs_if)
qed

text \<open>
  C32. For every cycle count up to 3602879701896 (over three hours of simulated time) the
  nanosecond report is exact rounding to four decimals: \<open>cycles_to_ns_e4\<close> differs from
  \<open>cycles * 512 / 165 * 10000\<close> by less than half a unit, no intermediate product wraps and no
  tie can occur.
\<close>

theorem cycles_to_ns_e4_rounds:
  assumes "unat cycles \<le> 3602879701896"
  shows "2 * \<bar>165 * int (unat (cycles_to_ns_e4 cycles)) - 5120000 * int (unat cycles)\<bar> < 165"
proof -
  let ?c = "unat cycles"
  have prod: "unat (cycles * 512 * 10000 + 82) = ?c * 5120000 + 82"
    using assms by (simp add: unat_word_ariths)
  then have "unat (cycles_to_ns_e4 cycles) = (?c * 5120000 + 82) div 165"
    by (simp add: cycles_to_ns_e4_def cycle_ns_num_def cycle_ns_den_def unat_div)
  moreover have "165 * ((?c * 5120000 + 82) div 165) + (?c * 5120000 + 82) mod 165
      = ?c * 5120000 + 82"
    by (rule mult_div_mod_eq)
  ultimately show ?thesis
    using remainder_below_half [of _ "(?c * 5120000 + 82) mod 165" ?c] by simp
qed

theorem cycles_to_ns_e4_rounds_witness:
  "2 * \<bar>165 * int (unat (cycles_to_ns_e4 14)) - 5120000 * int (unat (14 :: u64))\<bar> < 165
   \<and> cycles_to_ns_e4 14 = 434424"
  using cycles_to_ns_e4_rounds [of 14]
  by (simp add: cycles_to_ns_e4_def cycle_ns_num_def cycle_ns_den_def)

end
