(* ===== verification/Mac_Framer.thy ===== *)
theory Mac_Framer
  imports Fpga_Prelude
begin

text \<open>
  The 512-bit AXI4-Stream beat of \<open>include/bus/axi4_stream.hpp\<close> and the framer of
  \<open>include/modules/mac_framer.hpp\<close>, which checks the inter-packet gap and accepts beats.
  \<open>previous_end_\<close> is kept at its 64-bit width: it counts the bytes of an unfinished frame.
\<close>

subsection \<open>Beats\<close>

record axi_beat =
  tdata :: "u8 list"
  tkeep :: u64
  tvalid :: bool
  tready :: bool
  tlast :: bool

definition beat_empty :: axi_beat where
  "beat_empty = \<lparr>tdata = replicate 64 0, tkeep = 0, tvalid = False, tready = False, tlast = False\<rparr>"

definition beat_transfer :: "axi_beat \<Rightarrow> bool" where
  "beat_transfer b \<longleftrightarrow> tvalid b \<and> tready b"

definition beat_clear :: "axi_beat \<Rightarrow> axi_beat" where
  "beat_clear b = b\<lparr>tdata := replicate 64 0, tkeep := 0, tvalid := False, tready := False,
     tlast := False\<rparr>"

subsection \<open>The framer\<close>

record mac_framer =
  previous_end :: u64
  ipg_valid :: bool

definition minimum_ipg_bytes :: nat where "minimum_ipg_bytes = 12"

definition mac_new :: mac_framer where
  "mac_new = \<lparr>previous_end = 0, ipg_valid = False\<rparr>"

definition mac_reset :: "mac_framer \<Rightarrow> mac_framer" where
  "mac_reset m = m\<lparr>previous_end := 0, ipg_valid := False\<rparr>"

definition verify_ipg :: "nat \<Rightarrow> mac_framer \<Rightarrow> bool \<times> mac_framer" where
  "verify_ipg idle_bytes m =
     (let ok = minimum_ipg_bytes \<le> idle_bytes in (ok, m\<lparr>ipg_valid := ok\<rparr>))"

definition mac_accept :: "axi_beat \<Rightarrow> mac_framer \<Rightarrow> bool \<times> mac_framer" where
  "mac_accept beat m =
     (if \<not> beat_transfer beat then (False, m)
      else let e = (if tlast beat then 0 else previous_end m + 64)
           in (ipg_valid m \<or> e \<noteq> 0, m\<lparr>previous_end := e\<rparr>))"

fun mac_accept_all :: "axi_beat list \<Rightarrow> mac_framer \<Rightarrow> bool list \<times> mac_framer" where
  "mac_accept_all [] m = ([], m)"
| "mac_accept_all (b # bs) m =
     (case mac_accept b m of (ok, m') \<Rightarrow>
        (case mac_accept_all bs m' of (oks, m'') \<Rightarrow> (ok # oks, m'')))"

subsection \<open>Frames\<close>

text \<open>The beats of one frame: all transferred, only the last one flagged.\<close>

definition frame_beats :: "axi_beat list \<Rightarrow> bool" where
  "frame_beats bs \<longleftrightarrow> bs \<noteq> [] \<and> (\<forall>b \<in> set bs. beat_transfer b) \<and> tlast (last bs)
     \<and> (\<forall>b \<in> set (butlast bs). \<not> tlast b)"

lemma mac_accept_middle:
  assumes "beat_transfer b" "\<not> tlast b" "unat (previous_end m) + 64 < 2 ^ 64"
  shows "mac_accept b m = (True, m\<lparr>previous_end := previous_end m + 64\<rparr>)"
    and "unat (previous_end m + 64) = unat (previous_end m) + 64"
proof -
  show u: "unat (previous_end m + 64) = unat (previous_end m) + 64"
    using assms(3) by (simp add: unat_word_ariths)
  have "previous_end m + 64 \<noteq> 0"
  proof
    assume "previous_end m + 64 = 0"
    with u show False by simp
  qed
  with assms show "mac_accept b m = (True, m\<lparr>previous_end := previous_end m + 64\<rparr>)"
    by (simp add: mac_accept_def)
qed

lemma mac_accept_frame:
  assumes "frame_beats bs" "unat (previous_end m) + 64 * length bs < 2 ^ 64"
  shows "mac_accept_all bs m
    = (replicate (length bs - 1) True @ [ipg_valid m], m\<lparr>previous_end := 0\<rparr>)"
  using assms
proof (induction bs arbitrary: m)
  case (Cons b bs)
  show ?case
  proof (cases "bs = []")
    case True
    with Cons.prems show ?thesis by (simp add: frame_beats_def mac_accept_def)
  next
    case False
    with Cons.prems have b: "beat_transfer b" "\<not> tlast b" and fr: "frame_beats bs"
      by (auto simp: frame_beats_def)
    from Cons.prems(2) have room: "unat (previous_end m) + 64 < 2 ^ 64" by simp
    note step = mac_accept_middle [OF b room]
    from False obtain k where "length bs = Suc k" by (cases bs) auto
    with step Cons.IH [OF fr, of "m\<lparr>previous_end := previous_end m + 64\<rparr>"] Cons.prems(2)
    show ?thesis by simp
  qed
qed (simp add: frame_beats_def)

subsection \<open>Properties\<close>

text \<open>
  C33. A frame of any number of beats presented after an idle gap of \<open>g\<close> bytes gets every
  beat accepted exactly when the gap is at least 12 bytes; otherwise all beats but the last are
  still accepted and it is the last beat that is rejected. Either way the framer is back at a
  frame boundary.
\<close>

theorem mac_frame_responses:
  assumes "frame_beats bs" "64 * length bs < 2 ^ 64" "previous_end m = 0"
  shows "mac_accept_all bs (snd (verify_ipg g m))
    = (replicate (length bs - 1) True @ [12 \<le> g], \<lparr>previous_end = 0, ipg_valid = (12 \<le> g)\<rparr>)"
  using assms mac_accept_frame [of bs "snd (verify_ipg g m)"]
  by (simp add: verify_ipg_def Let_def minimum_ipg_bytes_def)

theorem mac_frame_responses_witness:
  "mac_accept_all
     [beat_empty\<lparr>tvalid := True, tready := True\<rparr>,
      beat_empty\<lparr>tvalid := True, tready := True, tlast := True\<rparr>]
     (snd (verify_ipg 5 mac_new))
   = ([True, False], \<lparr>previous_end = 0, ipg_valid = False\<rparr>)"
  by (subst mac_frame_responses)
     (simp_all add: frame_beats_def beat_transfer_def beat_empty_def mac_new_def)

end
