(* ===== verification/Bram.thy ===== *)
theory Bram
  imports Fpga_Prelude
begin

text \<open>
  The dual-port block RAM of \<open>include/modules/bram_memory.hpp\<close>. The template parameters are
  the lengths of the two arrays: \<open>Depth\<close> of the memory, \<open>Latency\<close> of the pending requests,
  both positive by \<open>static_assert\<close>. \<open>posedge\<close> has the effect of a release build (\<open>NDEBUG\<close>);
  its assertions are the predicate \<open>bram_asserts\<close>, and \<open>bram_posedge_debug\<close> is the debug
  build, which aborts (\<open>None\<close>) where an assertion fails.
\<close>

subsection \<open>State\<close>

record 'a port_request =
  rq_read :: bool
  rq_write :: bool
  rq_address :: nat
  rq_data :: 'a

record 'a port_response =
  rs_valid :: bool
  rs_data :: 'a

record 'a bram =
  br_memory :: "'a list"
  br_pending :: "('a port_request \<times> 'a port_request) list"
  br_response_a :: "'a port_response"
  br_response_b :: "'a port_response"
  br_collision :: bool

definition no_request :: "'a::default port_request" where
  "no_request = \<lparr>rq_read = False, rq_write = False, rq_address = 0, rq_data = default\<rparr>"

definition no_response :: "'a::default port_response" where
  "no_response = \<lparr>rs_valid = False, rs_data = default\<rparr>"

definition bram_depth :: "'a bram \<Rightarrow> nat" where
  "bram_depth m = length (br_memory m)"

definition bram_latency :: "'a bram \<Rightarrow> nat" where
  "bram_latency m = length (br_pending m)"

definition bram_new :: "nat \<Rightarrow> nat \<Rightarrow> 'a::default bram" where
  "bram_new depth latency =
     \<lparr>br_memory = replicate depth default,
      br_pending = replicate latency (no_request, no_request),
      br_response_a = no_response, br_response_b = no_response, br_collision = False\<rparr>"

subsection \<open>Operations\<close>

definition bram_reset :: "'a::default bram \<Rightarrow> 'a bram" where
  "bram_reset m =
     m\<lparr>br_memory := replicate (length (br_memory m)) default,
       br_pending := replicate (length (br_pending m)) (no_request, no_request),
       br_response_a := no_response, br_response_b := no_response, br_collision := False\<rparr>"

definition same_cycle_collision :: "'a port_request \<Rightarrow> 'a port_request \<Rightarrow> bool" where
  "same_cycle_collision a b \<longleftrightarrow>
     (rq_write a \<and> rq_write b \<and> rq_address a = rq_address b) \<or>
     (rq_write a \<and> rq_read b \<and> rq_address a = rq_address b) \<or>
     (rq_write b \<and> rq_read a \<and> rq_address a = rq_address b)"

text \<open>The loop \<open>for (i = 1; i < Latency; ++i) pending_[i] = pending_[i - 1]\<close>.\<close>

fun shift_pending :: "nat \<Rightarrow> nat \<Rightarrow> 'b list \<Rightarrow> 'b list" where
  "shift_pending i 0 p = p"
| "shift_pending i (Suc n) p = shift_pending (Suc i) n (p[i := p ! (i - 1)])"

definition bram_posedge :: "'a port_request \<Rightarrow> 'a port_request \<Rightarrow> 'a bram \<Rightarrow> 'a bram" where
  "bram_posedge a b m =
     m\<lparr>br_collision := same_cycle_collision a b,
       br_pending := shift_pending 1 (bram_latency m - 1) ((br_pending m)[0 := (a, b)])\<rparr>"

definition bram_asserts :: "'a port_request \<Rightarrow> 'a port_request \<Rightarrow> 'a bram \<Rightarrow> bool" where
  "bram_asserts a b m \<longleftrightarrow>
     (bram_depth m \<le> rq_address a \<or> bram_depth m \<le> rq_address b \<longrightarrow>
        ((\<not> rq_read a \<and> \<not> rq_write a) \<or> rq_address a < bram_depth m) \<and>
        ((\<not> rq_read b \<and> \<not> rq_write b) \<or> rq_address b < bram_depth m)) \<and>
     \<not> same_cycle_collision a b"

definition bram_posedge_debug ::
  "'a port_request \<Rightarrow> 'a port_request \<Rightarrow> 'a bram \<Rightarrow> 'a bram option" where
  "bram_posedge_debug a b m = (if bram_asserts a b m then Some (bram_posedge a b m) else None)"

definition port_write :: "'a port_request \<Rightarrow> 'a list \<Rightarrow> 'a list" where
  "port_write r mem =
     (if rq_write r \<and> rq_address r < length mem then mem[rq_address r := rq_data r] else mem)"

definition port_read :: "'a::default port_request \<Rightarrow> 'a list \<Rightarrow> 'a port_response" where
  "port_read r mem =
     (if rq_read r \<and> rq_address r < length mem
      then \<lparr>rs_valid = True, rs_data = mem ! rq_address r\<rparr> else no_response)"

definition bram_negedge :: "'a::default bram \<Rightarrow> 'a bram" where
  "bram_negedge m =
     (let (a, b) = br_pending m ! (bram_latency m - 1);
          mem = port_write b (port_write a (br_memory m))
      in m\<lparr>br_memory := mem, br_response_a := port_read a mem, br_response_b := port_read b mem\<rparr>)"

subsection \<open>Shape\<close>

lemma length_shift_pending [array_simps, simp]: "length (shift_pending i n p) = length p"
  by (induction i n p rule: shift_pending.induct) simp_all

lemma bram_shape [array_simps, simp]:
  "bram_depth (bram_posedge a b m) = bram_depth m"
  "bram_latency (bram_posedge a b m) = bram_latency m"
  "bram_depth (bram_negedge n) = bram_depth n"
  "bram_latency (bram_negedge n) = bram_latency n"
  "bram_depth (bram_new d l) = d"
  "bram_latency (bram_new d l) = l"
  by (auto simp: bram_posedge_def bram_negedge_def bram_depth_def bram_latency_def bram_new_def
      port_write_def Let_def split: prod.splits)

lemma bram_reset_eq: "bram_reset m = bram_new (bram_depth m) (bram_latency m)"
  by (simp add: bram_reset_def bram_new_def bram_depth_def bram_latency_def)

subsection \<open>The effective latency\<close>

text \<open>
  The loop copies upwards in place, so each slot receives the value just written to the slot
  below it: after \<open>posedge\<close> every pending slot holds the newest request.
\<close>

lemma shift_pending_copies:
  "0 < i \<Longrightarrow> i + n = length p \<Longrightarrow> (\<forall>j < i. p ! j = x) \<Longrightarrow>
   \<forall>j < length p. shift_pending i n p ! j = x"
proof (induction n arbitrary: i p)
  case (Suc n)
  have "\<forall>j < Suc i. p[i := p ! (i - 1)] ! j = x"
    using Suc.prems by (auto simp: nth_list_update less_Suc_eq)
  with Suc.IH [of "Suc i" "p[i := p ! (i - 1)]"] Suc.prems show ?case by simp
qed simp

lemma bram_posedge_pending:
  assumes "0 < bram_latency m"
  shows "br_pending (bram_posedge a b m) ! (bram_latency m - 1) = (a, b)"
  using assms shift_pending_copies [of 1 "bram_latency m - 1" "(br_pending m)[0 := (a, b)]" "(a, b)"]
  by (simp add: bram_posedge_def bram_latency_def)

lemma bram_cycle:
  assumes "0 < bram_latency m"
  shows "br_memory (bram_negedge (bram_posedge a b m)) = port_write b (port_write a (br_memory m))"
    and "br_response_a (bram_negedge (bram_posedge a b m))
           = port_read a (port_write b (port_write a (br_memory m)))"
    and "br_response_b (bram_negedge (bram_posedge a b m))
           = port_read b (port_write b (port_write a (br_memory m)))"
  using bram_posedge_pending [OF assms, of a b]
  by (simp_all add: bram_negedge_def bram_posedge_def bram_latency_def Let_def)

lemma length_port_write [array_simps, simp]: "length (port_write r mem) = length mem"
  by (simp add: port_write_def)

subsection \<open>Histories\<close>

text \<open>A history is the list of the requests of its cycles. The memory of a debug build stops at the
  first cycle whose assertions fail.\<close>

definition bram_run :: "('a port_request \<times> 'a port_request) list \<Rightarrow> 'a::default bram \<Rightarrow> 'a bram" where
  "bram_run cs m = foldl (\<lambda>m (a, b). bram_negedge (bram_posedge a b m)) m cs"

fun bram_run_debug :: "('a port_request \<times> 'a port_request) list \<Rightarrow> 'a::default bram \<Rightarrow> 'a bram option" where
  "bram_run_debug [] m = Some m"
| "bram_run_debug ((a, b) # cs) m =
     (case bram_posedge_debug a b m of None \<Rightarrow> None | Some m' \<Rightarrow> bram_run_debug cs (bram_negedge m'))"

text \<open>The values a history writes to an address, oldest first; within a cycle port A writes before port B.\<close>

definition written :: "nat \<Rightarrow> ('a port_request \<times> 'a port_request) list \<Rightarrow> 'a list" where
  "written i cs = concat (map (\<lambda>(a, b). map rq_data (filter (\<lambda>r. rq_write r \<and> rq_address r = i) [a, b])) cs)"

lemma bram_run_simps [simp]:
  "bram_run [] m = m"
  "bram_run (cs @ [(a, b)]) m = bram_negedge (bram_posedge a b (bram_run cs m))"
  by (simp_all add: bram_run_def)

lemma bram_run_Cons: "bram_run ((a, b) # cs) m = bram_run cs (bram_negedge (bram_posedge a b m))"
  by (simp add: bram_run_def)

lemma bram_run_shape [simp]: "bram_depth (bram_run cs m) = bram_depth m" "bram_latency (bram_run cs m) = bram_latency m"
proof -
  have "bram_depth (bram_run cs m) = bram_depth m \<and> bram_latency (bram_run cs m) = bram_latency m"
    by (induction cs rule: rev_induct) (auto split: prod.split)
  then show "bram_depth (bram_run cs m) = bram_depth m" "bram_latency (bram_run cs m) = bram_latency m" by blast+
qed

lemma written_simps [simp]:
  "written i [] = []"
  "written i (cs @ [(a, b)]) = written i cs @ (if rq_write a \<and> rq_address a = i then [rq_data a] else [])
     @ (if rq_write b \<and> rq_address b = i then [rq_data b] else [])"
  by (simp_all add: written_def)

text \<open>A word of the memory is the last value written to it.\<close>

lemma bram_run_memory:
  assumes "0 < bram_latency m" "i < bram_depth m"
  shows "br_memory (bram_run cs m) ! i = last (br_memory m ! i # written i cs)"
proof (induction cs rule: rev_induct)
  case (snoc c cs)
  obtain a b where c: "c = (a, b)" by (cases c)
  have "0 < bram_latency (bram_run cs m)" "i < length (br_memory (bram_run cs m))"
    using assms bram_run_shape [of cs m] by (simp_all add: bram_depth_def)
  with snoc show ?case by (auto simp: c bram_cycle(1) port_write_def nth_list_update)
qed simp

text \<open>A port's answer: the word it asked for, as it is after the writes of this cycle.\<close>

definition answer :: "'a port_request \<Rightarrow> 'a list \<Rightarrow> 'a::default port_response" where
  "answer r mem = \<lparr>rs_valid = rq_read r \<and> rq_address r < length mem,
     rs_data = (if rq_read r \<and> rq_address r < length mem then mem ! rq_address r else default)\<rparr>"

lemma port_read_answer: "port_read r mem = answer r mem"
  by (simp add: port_read_def answer_def no_response_def)

lemma bram_answers:
  assumes "0 < bram_latency m"
  shows "br_response_a (bram_run (cs @ [(a, b)]) m) = answer a (br_memory (bram_run (cs @ [(a, b)]) m))"
    and "br_response_b (bram_run (cs @ [(a, b)]) m) = answer b (br_memory (bram_run (cs @ [(a, b)]) m))"
  using assms bram_cycle [of "bram_run cs m" a b] by (simp_all add: port_read_answer)

text \<open>What the assertions demand of a cycle: accesses in range and no two ports at one word of which one writes.\<close>

definition proper_cycle :: "nat \<Rightarrow> 'a port_request \<Rightarrow> 'a port_request \<Rightarrow> bool" where
  "proper_cycle d a b \<longleftrightarrow> (rq_read a \<or> rq_write a \<longrightarrow> rq_address a < d) \<and> (rq_read b \<or> rq_write b \<longrightarrow> rq_address b < d)
     \<and> (rq_address a = rq_address b \<longrightarrow> (rq_write a \<longrightarrow> \<not> rq_write b \<and> \<not> rq_read b) \<and> (rq_write b \<longrightarrow> \<not> rq_read a))"

lemma bram_asserts_proper: "bram_asserts a b m \<longleftrightarrow> proper_cycle (bram_depth m) a b"
  by (auto simp: bram_asserts_def proper_cycle_def same_cycle_collision_def)

lemma bram_run_debug_proper:
  "bram_run_debug cs m = (if \<forall>(a, b) \<in> set cs. proper_cycle (bram_depth m) a b then Some (bram_run cs m) else None)"
  by (induction cs m rule: bram_run_debug.induct)
    (auto simp: bram_posedge_debug_def bram_asserts_proper bram_run_Cons)

subsection \<open>Properties\<close>

text \<open>
  C26. The \<open>Latency\<close> parameter has no effect. Take two RAMs of any positive \<open>Latency\<close> with equal
  memory, in any state, and the same history of requests of at least one cycle: their memories, both
  responses and the collision flag agree, and both ports answer the requests of the last cycle itself:
  a port that reads inside the memory gets the word as it is after this cycle's writes, any
  other gets an invalid response. So a memory instantiated with \<open>Latency = 2\<close> or more still answers in
  one cycle.
\<close>

theorem bram_effective_latency:
  assumes "0 < bram_latency m1" "0 < bram_latency m2" "br_memory m1 = br_memory m2"
  shows "let r1 = bram_run (cs @ [(a, b)]) m1; r2 = bram_run (cs @ [(a, b)]) m2 in
    br_memory r1 = br_memory r2 \<and> br_response_a r1 = br_response_a r2 \<and> br_response_b r1 = br_response_b r2
    \<and> br_collision r1 = br_collision r2
    \<and> rs_valid (br_response_a r1) = (rq_read a \<and> rq_address a < bram_depth m1)
    \<and> rs_valid (br_response_b r1) = (rq_read b \<and> rq_address b < bram_depth m1)
    \<and> rs_data (br_response_a r1) = (if rs_valid (br_response_a r1) then br_memory r1 ! rq_address a else default)
    \<and> rs_data (br_response_b r1) = (if rs_valid (br_response_b r1) then br_memory r1 ! rq_address b else default)"
proof -
  let ?r1 = "bram_run (cs @ [(a, b)]) m1" and ?r2 = "bram_run (cs @ [(a, b)]) m2"
  have len: "length (br_memory (bram_run xs m)) = bram_depth m" for xs m
    using bram_run_shape(1) [of xs m] by (simp only: bram_depth_def)
  have "br_memory ?r1 = br_memory ?r2"
  proof (rule nth_equalityI)
    show "length (br_memory ?r1) = length (br_memory ?r2)" using assms(3) by (simp only: len bram_depth_def)
    fix i assume "i < length (br_memory ?r1)"
    then show "br_memory ?r1 ! i = br_memory ?r2 ! i"
      using assms bram_run_memory [of m1 i] bram_run_memory [of m2 i] by (simp only: len bram_depth_def)
  qed
  moreover have "br_collision (bram_run (cs @ [(a, b)]) m) = same_cycle_collision a b" for m
    by (simp add: bram_negedge_def bram_posedge_def Let_def split: prod.split)
  moreover have "bram_depth m2 = bram_depth m1" using assms(3) by (simp only: bram_depth_def)
  ultimately show ?thesis
    unfolding Let_def bram_answers [OF assms(1)] bram_answers [OF assms(2)] answer_def len
    by (simp del: bram_run_simps)
qed

theorem bram_effective_latency_witness:
  "let w = \<lparr>rq_read = False, rq_write = True, rq_address = 3, rq_data = (9::u8)\<rparr>;
       r = \<lparr>rq_read = True, rq_write = False, rq_address = 3, rq_data = 0\<rparr>;
       slow = bram_run ([(w, no_request)] @ [(r, no_request)]) (bram_new 4 5);
       fast = bram_run ([(w, no_request)] @ [(r, no_request)]) (bram_new 4 1)
   in br_response_a slow = br_response_a fast \<and> rs_valid (br_response_a slow) \<and> rs_data (br_response_a slow) = 9"
proof -
  let ?w = "\<lparr>rq_read = False, rq_write = True, rq_address = 3, rq_data = (9::u8)\<rparr>"
  let ?r = "\<lparr>rq_read = True, rq_write = False, rq_address = 3, rq_data = (0::u8)\<rparr>"
  have new: "br_memory (bram_new 4 5 :: u8 bram) = br_memory (bram_new 4 1)" by (simp add: bram_new_def)
  let ?m = "bram_run ([(?w, no_request)] @ [(?r, no_request)])"
  have latency: "0 < bram_latency (bram_new 4 5 :: u8 bram)" "0 < bram_latency (bram_new 4 1 :: u8 bram)" by simp_all
  have word: "br_memory (?m (bram_new 4 5)) ! 3 = 9"
    by (subst bram_run_memory) (simp_all add: no_request_def written_def)
  note run = bram_effective_latency [OF latency new, of "[(?w, no_request)]" ?r no_request, unfolded Let_def]
  then have "rs_valid (br_response_a (?m (bram_new 4 5)))
      = (rq_read ?r \<and> rq_address ?r < bram_depth (bram_new 4 5 :: u8 bram))" by (elim conjE)
  then have valid: "rs_valid (br_response_a (?m (bram_new 4 5)))" by (simp only: bram_shape) simp
  from run have "rs_data (br_response_a (?m (bram_new 4 5))) = br_memory (?m (bram_new 4 5)) ! rq_address ?r"
    unfolding if_P [OF valid] by (elim conjE)
  with word have "rs_data (br_response_a (?m (bram_new 4 5))) = 9" by (simp only: port_request.simps)
  with run valid show ?thesis unfolding Let_def by (intro conjI) (elim conjE, assumption)+
qed

text \<open>
  C27. Read after write. After any history of cycles, from any state of the RAM, a port that reads an
  address inside the memory in the last cycle gets the value written there last, through either port and
  in whatever cycle, this one included (of two writes in one cycle that of port B), and what the memory
  held at the start if there was none. The debug build
  runs through the history, with the same effect, exactly when no access is out of range and no two
  accesses to one word in a cycle collide.
\<close>

theorem bram_read_after_write:
  assumes "0 < bram_latency m"
  shows "let m' = bram_run (cs @ [(a, b)]) m in
    (rq_read a \<and> rq_address a < bram_depth m \<longrightarrow> br_response_a m'
       = \<lparr>rs_valid = True, rs_data = last (br_memory m ! rq_address a # written (rq_address a) (cs @ [(a, b)]))\<rparr>)
    \<and> (rq_read b \<and> rq_address b < bram_depth m \<longrightarrow> br_response_b m'
       = \<lparr>rs_valid = True, rs_data = last (br_memory m ! rq_address b # written (rq_address b) (cs @ [(a, b)]))\<rparr>)
    \<and> bram_run_debug (cs @ [(a, b)]) m
       = (if \<forall>(a, b) \<in> set (cs @ [(a, b)]). proper_cycle (bram_depth m) a b then Some m' else None)"
proof -
  have "length (br_memory (bram_run (cs @ [(a, b)]) m)) = bram_depth m"
    using bram_run_shape(1) [of "cs @ [(a, b)]" m] by (simp only: bram_depth_def)
  then show ?thesis
    unfolding Let_def bram_answers [OF assms] answer_def bram_run_debug_proper
    using bram_run_memory [OF assms, of _ "cs @ [(a, b)]"] by (simp del: bram_run_simps written_simps)
qed

text \<open>Port B writes 42, port A writes elsewhere, port A reads two cycles later.\<close>

theorem bram_read_after_write_witness:
  "br_response_a (bram_run
     [(no_request, \<lparr>rq_read = False, rq_write = True, rq_address = 1, rq_data = (42::u8)\<rparr>),
      (\<lparr>rq_read = False, rq_write = True, rq_address = 0, rq_data = 7\<rparr>, no_request),
      (\<lparr>rq_read = True, rq_write = False, rq_address = 1, rq_data = 0\<rparr>, no_request)] (bram_new 2 1))
   = \<lparr>rs_valid = True, rs_data = 42\<rparr>"
  using bram_read_after_write [of "bram_new 2 1"
     "[(no_request, \<lparr>rq_read = False, rq_write = True, rq_address = 1, rq_data = (42::u8)\<rparr>),
       (\<lparr>rq_read = False, rq_write = True, rq_address = 0, rq_data = 7\<rparr>, no_request)]"
     "\<lparr>rq_read = True, rq_write = False, rq_address = 1, rq_data = 0\<rparr>" no_request]
  by (simp add: Let_def written_def no_request_def)

end
