(* ===== verification/Crc.thy ===== *)
theory Crc
  imports Fpga_Prelude
begin

text \<open>
  \<open>Crc32\<close> of \<open>include/modules/phy_pcs.hpp\<close>: the reflected CRC-32 computed bit by bit on 32-bit
  words. The lemmas describe the shift register algebraically (it is an injective linear map,
  and four bytes fill it), which gives the burst-detection property.
\<close>

subsection \<open>Definitions\<close>

definition polynomial :: u32 where "polynomial = 0xEDB88320"

text \<open>One turn of the inner loop, then the eight turns for a byte, then the loop over the data.\<close>

definition crc_bit :: "u32 \<Rightarrow> u32" where
  "crc_bit crc = drop_bit 1 crc XOR (polynomial AND (0 - (crc AND 1)))"

definition crc_byte :: "u32 \<Rightarrow> u8 \<Rightarrow> u32" where
  "crc_byte crc b = (crc_bit ^^ 8) (crc XOR ucast b)"

definition crc32_compute :: "u8 list \<Rightarrow> u32" where
  "crc32_compute data = NOT (foldl crc_byte 0xFFFFFFFF data)"

subsection \<open>The shift register\<close>

lemma minus_and_one: "0 - (x AND 1 :: u32) = (if bit x 0 then - 1 else 0)"
  by (simp add: and_one_eq odd_iff_mod_2_eq_one bit_0 flip: even_iff_mod_2_eq_zero)

lemma crc_bit_alt: "crc_bit x = drop_bit 1 x XOR (if bit x 0 then polynomial else 0)"
  by (simp add: crc_bit_def minus_and_one del: diff_0)

lemma crc_bit_top: "bit (crc_bit x) 31 = bit x 0"
proof -
  have "bit polynomial 31" by (simp add: polynomial_def bit_numeral_rec)
  moreover have "\<not> bit (drop_bit 1 x) 31" by (simp add: bit_drop_bit_eq impossible_bit)
  ultimately show ?thesis by (simp add: crc_bit_alt bit_xor_iff)
qed

lemma crc_bit_inj: "crc_bit x = crc_bit y \<Longrightarrow> x = y"
proof -
  assume eq: "crc_bit x = crc_bit y"
  then have low: "bit x 0 = bit y 0" using crc_bit_top by metis
  with eq have high: "drop_bit 1 x = drop_bit 1 y"
    by (simp add: crc_bit_alt xor_cancel_right split: if_splits)
  show "x = y"
  proof (rule bit_word_eqI)
    fix n assume "n < LENGTH(32)"
    show "bit x n = bit y n"
    proof (cases n)
      case (Suc m)
      from high have "bit (drop_bit 1 x) m = bit (drop_bit 1 y) m" by simp
      with Suc show ?thesis by (simp add: bit_drop_bit_eq)
    qed (use low in simp)
  qed
qed

lemma crc_bits_inj: "(crc_bit ^^ n) x = (crc_bit ^^ n) y \<Longrightarrow> x = y"
  by (induction n) (auto dest: crc_bit_inj)

lemma crc_bit_xor: "crc_bit (x XOR y) = crc_bit x XOR crc_bit y"
  by (cases "bit x 0"; cases "bit y 0")
     (simp_all add: crc_bit_alt bit_xor_iff xor.assoc xor.commute
       xor.left_commute)

lemma crc_bits_xor: "(crc_bit ^^ n) (x XOR y) = (crc_bit ^^ n) x XOR (crc_bit ^^ n) y"
  by (induction n) (simp_all add: crc_bit_xor)

lemma crc_byte_inj: "crc_byte x b = crc_byte y b \<Longrightarrow> x = y"
  by (auto simp only: crc_byte_def xor_cancel_right dest!: crc_bits_inj)

lemma crc_bytes_inj: "foldl crc_byte x bs = foldl crc_byte y bs \<Longrightarrow> x = y"
  by (induction bs arbitrary: x y) (auto dest: crc_byte_inj)

subsection \<open>Four bytes fill the register\<close>

text \<open>The bytes as the register sees them: the first one in the low eight bits.\<close>

fun le_bytes :: "u8 list \<Rightarrow> u32" where
  "le_bytes [] = 0"
| "le_bytes (b # bs) = ucast b XOR push_bit 8 (le_bytes bs)"

lemma crc_bits_shift:
  "n \<le> 32 \<Longrightarrow> (\<forall>i. 32 - n \<le> i \<longrightarrow> \<not> bit y i) \<Longrightarrow> (crc_bit ^^ n) (push_bit n y) = y"
proof (induction n)
  case (Suc n)
  have "drop_bit 1 (push_bit (Suc n) y) = push_bit n y"
  proof (rule bit_word_eqI)
    fix k assume "k < LENGTH(32)"
    with Suc.prems show "bit (drop_bit 1 (push_bit (Suc n) y)) k = bit (push_bit n y) k"
      by (cases "k = 31") (auto simp: bit_simps simp del: push_bit_Suc)
  qed
  then have "crc_bit (push_bit (Suc n) y) = push_bit n y"
    by (simp add: crc_bit_alt bit_simps del: push_bit_Suc)
  moreover have "(crc_bit ^^ n) (push_bit n y) = y"
    using Suc by simp
  ultimately show ?case by (simp add: funpow_Suc_right del: funpow.simps)
qed simp

lemma bit_le_bytes: "bit (le_bytes bs) i \<Longrightarrow> i < 8 * length bs"
proof (induction bs arbitrary: i)
  case (Cons b bs)
  then have "bit (ucast b :: u32) i \<or> bit (push_bit 8 (le_bytes bs)) i"
    by (auto simp: bit_xor_iff)
  then show ?case
  proof
    assume "bit (ucast b :: u32) i"
    then have "bit b i" by (simp add: bit_simps)
    then show ?thesis by (auto dest: bit_imp_le_length)
  next
    assume "bit (push_bit 8 (le_bytes bs)) i"
    with Cons.IH [of "i - 8"] show ?thesis by (auto simp: bit_simps)
  qed
qed simp

lemma foldl_crc_byte:
  "length bs \<le> 4 \<Longrightarrow> foldl crc_byte x bs = (crc_bit ^^ (8 * length bs)) (x XOR le_bytes bs)"
proof (induction bs arbitrary: x)
  case (Cons b bs)
  have "\<not> bit (le_bytes bs) i" if "32 - 8 \<le> i" for i
    using that Cons.prems bit_le_bytes [of bs i] by auto
  then have shift: "(crc_bit ^^ 8) (push_bit 8 (le_bytes bs)) = le_bytes bs"
    by (intro crc_bits_shift) auto
  have "foldl crc_byte x (b # bs)
      = (crc_bit ^^ (8 * length bs)) (crc_byte x b XOR le_bytes bs)"
    using Cons by simp
  also have "crc_byte x b XOR le_bytes bs = (crc_bit ^^ 8) (x XOR le_bytes (b # bs))"
    by (simp only: crc_byte_def le_bytes.simps xor.assoc [symmetric])
       (simp only: crc_bits_xor shift)
  also have "(crc_bit ^^ (8 * length bs)) \<dots> = (crc_bit ^^ (8 * length (b # bs))) (x XOR le_bytes (b # bs))"
    by (simp only: funpow_add o_apply length_Cons mult_Suc_right add.commute [of 8])
  finally show ?case .
qed simp

lemma le_bytes_inj:
  "length bs = length cs \<Longrightarrow> length bs \<le> 4 \<Longrightarrow> le_bytes bs = le_bytes cs \<Longrightarrow> bs = cs"
proof (induction bs cs rule: list_induct2)
  case (Cons b bs c cs)
  have bits: "bit (le_bytes (b # bs)) i = bit (le_bytes (c # cs)) i" for i
    using Cons.prems(2) by simp
  have "b = c"
  proof (rule bit_word_eqI)
    fix i assume "i < LENGTH(8)"
    with bits [of i] show "bit b i = bit c i" by (simp add: bit_simps)
  qed
  moreover have "le_bytes bs = le_bytes cs"
  proof (rule bit_word_eqI)
    fix i assume "i < LENGTH(32)"
    show "bit (le_bytes bs) i = bit (le_bytes cs) i"
    proof (cases "i < 24")
      case True
      with bits [of "i + 8"] show ?thesis by (simp add: bit_simps impossible_bit)
    next
      case False
      with Cons.prems Cons.hyps show ?thesis
        using bit_le_bytes [of bs i] bit_le_bytes [of cs i] by auto
    qed
  qed
  ultimately show ?case using Cons by simp
qed simp

subsection \<open>Properties\<close>

lemma crc_burst_differs:
  assumes "length w = length w'" "length w \<le> 4" "w \<noteq> w'"
  shows "crc32_compute (pre @ w @ suf) \<noteq> crc32_compute (pre @ w' @ suf)"
proof
  let ?s = "foldl crc_byte 0xFFFFFFFF pre"
  assume "crc32_compute (pre @ w @ suf) = crc32_compute (pre @ w' @ suf)"
  then have "foldl crc_byte (foldl crc_byte ?s w) suf = foldl crc_byte (foldl crc_byte ?s w') suf"
    by (simp add: crc32_compute_def)
  then have "foldl crc_byte ?s w = foldl crc_byte ?s w'" by (rule crc_bytes_inj)
  then have "?s XOR le_bytes w = ?s XOR le_bytes w'"
    using assms by (auto simp: foldl_crc_byte dest!: crc_bits_inj)
  then have "le_bytes w = le_bytes w'" by (simp add: xor.commute [of ?s] xor_cancel_right)
  with le_bytes_inj assms show False by blast
qed

text \<open>
  C34. Burst detection: two messages of the same length that differ only inside a window of at
  most four consecutive bytes never have the same CRC. Every corruption confined to 32
  consecutive bits that are byte-aligned, and so every single-bit and single-byte error of a
  message of any length, changes the checksum.
\<close>

theorem crc32_detects_bursts:
  assumes "length w = length w'" "length w \<le> 4" "w \<noteq> w'"
  shows "crc32_compute (pre @ w @ suf) \<noteq> crc32_compute (pre @ w' @ suf)"
  by (rule crc_burst_differs [OF assms])

theorem crc32_detects_bursts_witness:
  "crc32_compute ([1, 2] @ [3, 4] @ [5]) \<noteq> crc32_compute ([1, 2] @ [7, 8] @ [5])"
  by (rule crc32_detects_bursts) simp_all

text \<open>Evaluation in the kernel, and the published check value of CRC-32/ISO-HDLC.\<close>

lemma crc_bit_8:
  "(crc_bit ^^ 8) x =
     crc_bit (crc_bit (crc_bit (crc_bit (crc_bit (crc_bit (crc_bit (crc_bit x)))))))"
  by (simp add: numeral_eq_Suc)

lemmas crc_eval = crc32_compute_def crc_byte_def crc_bit_8 crc_bit_def polynomial_def

lemma crc32_check_value:
  "crc32_compute [0x31, 0x32, 0x33, 0x34, 0x35, 0x36, 0x37, 0x38, 0x39] = 0xCBF43926"
  by (simp add: crc_eval)

end
