(* ===== verification/Phy_Pcs.thy ===== *)
theory Phy_Pcs
  imports Crc
begin

text \<open>
  \<open>PcsResult\<close> and \<open>Deserializer66b\<close> of \<open>include/modules/phy_pcs.hpp\<close>. A pointer with a
  length is the list it delimits, \<open>None\<close> when the pointer is null; an output buffer is passed
  in and returned, and its length is the capacity. The proofs go through the byte stream
  \<open>unpack\<close> of a block sequence, of which \<open>decode\<close> copies as much as fits.
\<close>

subsection \<open>Encoding\<close>

definition bytes_per_block :: nat where "bytes_per_block = 7"

definition block_marker :: u64 where "block_marker = push_bit 56 1"

definition frame_byte :: "u8 list \<Rightarrow> u32 \<Rightarrow> nat \<Rightarrow> u8" where
  "frame_byte payload crc index =
     (if index < length payload then payload ! index
      else if index = length payload then ucast (drop_bit 24 crc)
      else if index = length payload + 1 then ucast (drop_bit 16 crc)
      else if index = length payload + 2 then ucast (drop_bit 8 crc)
      else if index = length payload + 3 then ucast crc
      else 0)"

definition encode_block :: "u8 list \<Rightarrow> u32 \<Rightarrow> nat \<Rightarrow> u64" where
  "encode_block payload crc block_index =
     foldl (\<lambda>block byte. block OR push_bit ((6 - byte) * 8)
              (ucast (frame_byte payload crc (block_index * bytes_per_block + byte))))
       block_marker [0..<bytes_per_block]"

definition encoded_count :: "nat \<Rightarrow> nat" where
  "encoded_count len = (len + 4 + bytes_per_block - 1) div bytes_per_block"

definition pcs_encode :: "u8 list option \<Rightarrow> u64 list option \<Rightarrow> nat \<times> u64 list option" where
  "pcs_encode payload blocks =
     (case (payload, blocks) of
        (Some p, Some out) \<Rightarrow>
          (if length out = 0 \<or> length out < encoded_count (length p) then (0, Some out)
           else (encoded_count (length p),
                 Some (foldl (\<lambda>bs i. bs[i := encode_block p (crc32_compute p) i]) out
                         [0..<encoded_count (length p)])))
      | _ \<Rightarrow> (0, blocks))"

subsection \<open>Decoding\<close>

record pcs_result =
  block_lock :: bool
  crc_valid :: bool
  payload_length :: nat

definition pcs_no_result :: pcs_result where
  "pcs_no_result = \<lparr>block_lock = False, crc_valid = False, payload_length = 0\<rparr>"

text \<open>The inner loop from byte \<open>n - 1\<close> down to 0, then the loop over the blocks.\<close>

fun decode_bytes :: "u64 \<Rightarrow> nat \<Rightarrow> nat \<times> u8 list \<Rightarrow> nat \<times> u8 list" where
  "decode_bytes block 0 st = st"
| "decode_bytes block (Suc byte) (written, payload) =
     (if written < length payload
      then decode_bytes block byte
             (written + 1, payload[written := ucast (drop_bit (byte * 8) block)])
      else (written, payload))"

fun decode_blocks :: "u64 list \<Rightarrow> nat \<times> u8 list \<Rightarrow> nat \<times> u8 list" where
  "decode_blocks [] st = st"
| "decode_blocks (block # bs) (written, payload) =
     (if written < length payload
      then (if drop_bit 56 block \<noteq> 1 then decode_blocks bs (written, payload)
            else decode_blocks bs (decode_bytes block 7 (written, payload)))
      else (written, payload))"

definition be32 :: "u8 list \<Rightarrow> nat \<Rightarrow> u32" where
  "be32 p i = push_bit 24 (ucast (p ! i)) OR push_bit 16 (ucast (p ! (i + 1)))
     OR push_bit 8 (ucast (p ! (i + 2))) OR ucast (p ! (i + 3))"

definition pcs_decode ::
  "u64 list option \<Rightarrow> u8 list option \<Rightarrow> nat \<Rightarrow> pcs_result \<times> u8 list option" where
  "pcs_decode blocks payload expected_payload_length =
     (case (blocks, payload) of
        (Some bs, Some buf) \<Rightarrow>
          (if bs = [] then (pcs_no_result, payload)
           else
             let (written, out) = decode_blocks bs (0, buf);
                 len = (if expected_payload_length = 0
                        then (if 4 \<le> written then written - 4 else 0)
                        else expected_payload_length)
             in if len + 4 \<le> written \<and> len \<le> length buf
                then (\<lparr>block_lock = True,
                       crc_valid = (crc32_compute (take len out) = be32 out len),
                       payload_length = len\<rparr>, Some out)
                else (pcs_no_result\<lparr>block_lock := True\<rparr>, Some out))
      | _ \<Rightarrow> (pcs_no_result, payload))"

subsection \<open>The byte stream of a block sequence\<close>

definition block_bytes :: "u64 \<Rightarrow> u8 list" where
  "block_bytes block = map (\<lambda>k. ucast (drop_bit ((6 - k) * 8) block)) [0..<7]"

definition unpack :: "u64 list \<Rightarrow> u8 list" where
  "unpack bs = concat (map block_bytes (filter (\<lambda>b. drop_bit 56 b = 1) bs))"

text \<open>What a bounded copy leaves: the stream cut at the capacity, the rest of the buffer as it was.\<close>

definition bounded_copy :: "u8 list \<Rightarrow> nat \<Rightarrow> u8 list \<Rightarrow> nat \<times> u8 list" where
  "bounded_copy xs written buf =
     (let n = min (length xs) (length buf - written)
      in (written + n, take written buf @ take n xs @ drop (written + n) buf))"

lemma bounded_copy_Cons:
  "written < length buf \<Longrightarrow>
   bounded_copy xs (Suc written) (buf[written := x]) = bounded_copy (x # xs) written buf"
proof -
  assume less: "written < length buf"
  then obtain k where "length buf = Suc (written + k)" by (metis less_iff_Suc_add)
  with less show ?thesis
    by (simp add: bounded_copy_def Let_def min_def take_Suc_conv_app_nth drop_update_cancel)
qed

lemma bounded_copy_full: "length buf \<le> written \<Longrightarrow> bounded_copy xs written buf = (written, buf)"
  by (simp add: bounded_copy_def)

lemma bounded_copy_append:
  assumes "written \<le> length buf"
  shows "bounded_copy (xs @ ys) written buf
    = (case bounded_copy xs written buf of (w, b) \<Rightarrow> bounded_copy ys w b)"
  using assms
proof (induction xs arbitrary: written buf)
  case Nil
  then show ?case by (simp add: bounded_copy_def)
next
  case (Cons x xs)
  show ?case
  proof (cases "written < length buf")
    case True
    with Cons show ?thesis by (simp add: bounded_copy_Cons [symmetric])
  next
    case False
    with Cons.prems show ?thesis by (simp add: bounded_copy_full)
  qed
qed

lemma bounded_copy_bound:
  "written \<le> length buf \<Longrightarrow> bounded_copy xs written buf = (w, b) \<Longrightarrow> w \<le> length b \<and> length b = length buf"
  by (auto simp: bounded_copy_def Let_def)

lemma decode_bytes_copy:
  "decode_bytes block n (written, buf)
     = bounded_copy (map (\<lambda>k. ucast (drop_bit ((n - 1 - k) * 8) block)) [0..<n]) written buf"
proof (induction n arbitrary: written buf)
  case 0
  show ?case by (simp add: bounded_copy_def)
next
  case (Suc n)
  have "map (\<lambda>k. ucast (drop_bit ((Suc n - 1 - k) * 8) block)) [0..<Suc n]
      = (ucast (drop_bit (n * 8) block) :: u8)
        # map (\<lambda>k. ucast (drop_bit ((n - 1 - k) * 8) block)) [0..<n]"
    by (simp add: upt_rec [of 0 "Suc n"] map_Suc_upt [symmetric] del: upt_Suc)
  with Suc show ?case by (simp add: bounded_copy_Cons bounded_copy_full del: upt_Suc)
qed

lemma decode_blocks_copy:
  "written \<le> length buf \<Longrightarrow> decode_blocks bs (written, buf) = bounded_copy (unpack bs) written buf"
proof (induction bs arbitrary: written buf)
  case Nil
  then show ?case by (simp add: unpack_def bounded_copy_def)
next
  case (Cons b bs)
  show ?case
  proof (cases "written < length buf \<and> drop_bit 56 b = 1")
    case True
    obtain w c where wc: "bounded_copy (block_bytes b) written buf = (w, c)" by fastforce
    with bounded_copy_bound [OF Cons.prems wc] Cons.IH [of w c] True
    have "decode_blocks (b # bs) (written, buf) = bounded_copy (unpack bs) w c"
      by (simp add: decode_bytes_copy block_bytes_def)
    with wc True Cons.prems show ?thesis
      by (simp add: unpack_def bounded_copy_append)
  next
    case False
    with Cons show ?thesis by (auto simp: unpack_def bounded_copy_full)
  qed
qed

lemma decode_blocks_fresh:
  "decode_blocks bs (0, buf)
     = (min (length (unpack bs)) (length buf),
        take (length buf) (unpack bs) @ drop (length (unpack bs)) buf)"
  by (simp add: decode_blocks_copy bounded_copy_def Let_def min_def)

subsection \<open>The byte stream of an encoded frame\<close>

text \<open>A frame on the wire: the payload, its CRC in network order, zero padding.\<close>

definition frame_stream :: "u8 list \<Rightarrow> u32 \<Rightarrow> nat \<Rightarrow> u8 list" where
  "frame_stream payload crc pad = payload @ be_bytes32 crc @ replicate pad 0"

definition pack7 :: "(nat \<Rightarrow> u8) \<Rightarrow> u64" where
  "pack7 f = foldl (\<lambda>block byte. block OR push_bit ((6 - byte) * 8) (ucast (f byte)))
     block_marker [0..<7]"

lemma encode_block_pack7: "encode_block p c i = pack7 (\<lambda>k. frame_byte p c (i * 7 + k))"
  by (simp add: encode_block_def pack7_def bytes_per_block_def)

lemma bit_block_marker: "bit block_marker n \<longleftrightarrow> n = 56"
  unfolding block_marker_def bit_push_bit_iff bit_1_iff by auto

lemma upto_7: "[0..<7] = [0, 1, 2, 3, 4, 5, 6]"
  by (simp add: upt_rec numeral_eq_Suc)

lemma pack7_unfold:
  "pack7 f = block_marker OR push_bit 48 (ucast (f 0)) OR push_bit 40 (ucast (f 1))
     OR push_bit 32 (ucast (f 2)) OR push_bit 24 (ucast (f 3)) OR push_bit 16 (ucast (f 4))
     OR push_bit 8 (ucast (f 5)) OR ucast (f 6)"
  by (simp add: pack7_def upto_7 or.assoc del: One_nat_def)

lemma pack7_marker: "drop_bit 56 (pack7 f) = 1"
proof (rule bit_word_eqI)
  fix n assume "n < LENGTH(64)"
  then show "bit (drop_bit 56 (pack7 f)) n = bit 1 n"
    by (auto simp: pack7_unfold bit_block_marker bit_simps dest: bit_imp_le_length)
qed

lemma bit_pack7:
  assumes "q < 7" "r < 8"
  shows "bit (pack7 f) (8 * q + r) = bit (f (6 - q)) r"
proof -
  consider "q = 0" | "q = 1" | "q = 2" | "q = 3" | "q = 4" | "q = 5" | "q = 6"
    using assms(1) by fastforce
  then show ?thesis
    by cases (use assms(2) in \<open>simp_all add: pack7_unfold bit_block_marker bit_simps impossible_bit\<close>)
qed

lemma pack7_byte:
  assumes "k < 7"
  shows "ucast (drop_bit ((6 - k) * 8) (pack7 f)) = f k"
proof (rule bit_word_eqI)
  fix n assume n: "n < LENGTH(8)"
  have "bit (ucast (drop_bit ((6 - k) * 8) (pack7 f)) :: u8) n = bit (pack7 f) (8 * (6 - k) + n)"
    using n by (simp add: bit_simps mult.commute)
  then show "bit (ucast (drop_bit ((6 - k) * 8) (pack7 f)) :: u8) n = bit (f k) n"
    using bit_pack7 [of "6 - k" n f] assms n by simp
qed

lemma block_bytes_pack7: "block_bytes (pack7 f) = map f [0..<7]"
  by (simp add: block_bytes_def pack7_byte)

lemma unpack_encoded:
  "unpack (map (encode_block p c) [0..<n]) = map (frame_byte p c) [0..<n * 7]"
proof (induction n)
  case (Suc n)
  have "block_bytes (encode_block p c n) = map (frame_byte p c) [n * 7..<n * 7 + 7]"
    by (simp add: encode_block_pack7 block_bytes_pack7 map_add_upt [symmetric, of _ 7] comp_def
        add.commute del: upt_Suc)
  with Suc show ?case
    by (simp add: unpack_def encode_block_pack7 pack7_marker upt_add_eq_append [of 0 "n * 7" 7]
        add.commute [of 7])
qed (simp add: unpack_def)

lemma map_frame_byte:
  "length p + 4 \<le> n \<Longrightarrow> map (frame_byte p c) [0..<n] = frame_stream p c (n - length p - 4)"
proof (rule nth_equalityI)
  fix i assume "length p + 4 \<le> n" "i < length (map (frame_byte p c) [0..<n])"
  then show "map (frame_byte p c) [0..<n] ! i = frame_stream p c (n - length p - 4) ! i"
    by (auto simp: frame_stream_def frame_byte_def be_bytes32_eq nth_append nth_Cons'
        split: if_splits)
qed (simp add: frame_stream_def)

lemma encoded_count_room: "length (p :: u8 list) + 4 \<le> encoded_count (length p) * 7"
  by (simp add: encoded_count_def bytes_per_block_def)

lemma foldl_list_update:
  "n \<le> length xs \<Longrightarrow> foldl (\<lambda>ys i. ys[i := f i]) xs [0..<n] = map f [0..<n] @ drop n xs"
  by (induction n) (simp_all add: list_update_append Cons_nth_drop_Suc [symmetric])

lemma pcs_encode_Some:
  assumes "encoded_count (length p) \<le> length out"
  shows "pcs_encode (Some p) (Some out)
    = (encoded_count (length p),
       Some (map (encode_block p (crc32_compute p)) [0..<encoded_count (length p)]
             @ drop (encoded_count (length p)) out))"
proof -
  have "0 < encoded_count (length p)" by (simp add: encoded_count_def bytes_per_block_def)
  with assms show ?thesis by (auto simp: pcs_encode_def foldl_list_update)
qed

subsection \<open>Decoding a byte stream\<close>

lemma be32_frame: "be32 (p @ be_bytes32 c @ zs) (length p) = c"
  by (simp add: be32_def nth_append be_bytes32_eq join_bytes32)

lemma be_bytes32_be32: "be_bytes32 (be32 xs i) = [xs ! i, xs ! (i + 1), xs ! (i + 2), xs ! (i + 3)]"
proof -
  have "ucast (drop_bit 24 (be32 xs i)) = xs ! i" "ucast (drop_bit 16 (be32 xs i)) = xs ! (i + 1)"
    "ucast (drop_bit 8 (be32 xs i)) = xs ! (i + 2)" "ucast (be32 xs i) = xs ! (i + 3)"
    by (rule bit_word_eqI, auto simp: be32_def bit_simps impossible_bit dest: bit_imp_le_length)+
  then show ?thesis by (simp add: be_bytes32_eq)
qed

lemma be32_cong:
  assumes "\<And>k. k < 4 \<Longrightarrow> xs ! (i + k) = ys ! (i + k)"
  shows "be32 xs i = be32 ys i"
  using assms [of 0] assms [of 1] assms [of 2] assms [of 3] by (simp add: be32_def)

lemma nth_be_bytes32_be32:
  assumes "d < 4" shows "be_bytes32 (be32 xs i) ! d = xs ! (i + d)"
proof -
  consider "d = 0" | "d = 1" | "d = 2" | "d = 3" using assms by fastforce
  then show ?thesis by cases (simp_all add: be_bytes32_be32)
qed

text \<open>
  When the expected length fits, only the first \<open>length + 4\<close> bytes of the stream matter.
\<close>

lemma pcs_decode_stream:
  assumes "bs \<noteq> []" and len: "0 < len" "len + 4 \<le> length (unpack bs)" "len + 4 \<le> length buf"
  shows "\<exists>out. pcs_decode (Some bs) (Some buf) len
      = (\<lparr>block_lock = True,
          crc_valid = (crc32_compute (take len (unpack bs)) = be32 (unpack bs) len),
          payload_length = len\<rparr>, Some out)
    \<and> take len out = take len (unpack bs) \<and> length out = length buf"
proof -
  let ?u = "unpack bs"
  let ?out = "take (length buf) ?u @ drop (length ?u) buf"
  have tk: "take len ?out = take len ?u" using len by (simp add: min_def)
  have nth: "?out ! (len + k) = ?u ! (len + k)" if "k < 4" for k
    using that len by (simp add: nth_append)
  have "be32 ?out len = be32 ?u len" by (rule be32_cong) (rule nth)
  with assms tk show ?thesis
    by (simp add: pcs_decode_def decode_blocks_fresh)
qed

lemma unpack_nth:
  "\<forall>b \<in> set bs. drop_bit 56 b = 1 \<Longrightarrow> i < length bs \<Longrightarrow> m < 7 \<Longrightarrow>
   unpack bs ! (i * 7 + m) = block_bytes (bs ! i) ! m"
proof (induction bs arbitrary: i)
  case (Cons b bs)
  have "length (block_bytes b) = 7" by (simp add: block_bytes_def)
  with Cons show ?case by (cases i) (auto simp: unpack_def nth_append)
qed simp

lemma length_unpack:
  "\<forall>b \<in> set bs. drop_bit 56 b = 1 \<Longrightarrow> length (unpack bs) = length bs * 7"
  by (induction bs) (auto simp: unpack_def block_bytes_def)

text \<open>Flipping a data bit of a block flips one bit of one byte of the stream.\<close>

lemma flip_marker: "k < 56 \<Longrightarrow> drop_bit 56 (b XOR push_bit k 1 :: u64) = drop_bit 56 b"
  by (rule bit_word_eqI) (auto simp: bit_simps)

lemma flip_block_byte:
  assumes "k < 56" "m < 7"
  shows "block_bytes (b XOR push_bit k 1) ! m
    = (if m = 6 - k div 8 then block_bytes b ! m XOR push_bit (k mod 8) 1 else block_bytes b ! m)"
proof (rule bit_word_eqI)
  fix n assume n: "n < LENGTH(8)"
  have eq: "(6 - m) * 8 + n = k \<longleftrightarrow> m = 6 - k div 8 \<and> n = k mod 8"
    using assms n by auto
  have "bit (block_bytes (b XOR push_bit k 1) ! m) n
      = (bit b ((6 - m) * 8 + n) \<noteq> ((6 - m) * 8 + n = k))"
    using assms n by (auto simp: block_bytes_def bit_simps)
  then show "bit (block_bytes (b XOR push_bit k 1) ! m) n
    = bit (if m = 6 - k div 8 then block_bytes b ! m XOR push_bit (k mod 8) 1 else block_bytes b ! m) n"
    using assms n unfolding eq by (auto simp: block_bytes_def bit_simps)
qed

lemma unpack_flip:
  assumes marked: "\<forall>b \<in> set bs. drop_bit 56 b = 1" and "i < length bs" "k < 56"
  shows "unpack (bs[i := bs ! i XOR push_bit k 1])
    = (unpack bs)[i * 7 + (6 - k div 8) :=
        unpack bs ! (i * 7 + (6 - k div 8)) XOR push_bit (k mod 8) 1]" (is "unpack ?bs' = _")
proof (rule nth_equalityI)
  have "drop_bit 56 (bs ! i XOR push_bit k 1) = 1"
    using assms flip_marker [of k "bs ! i"] by simp
  then have marked': "\<forall>b \<in> set ?bs'. drop_bit 56 b = 1"
    using marked set_update_subset_insert [of bs i "bs ! i XOR push_bit k 1"] by blast
  show "length (unpack ?bs') = length ((unpack bs)[i * 7 + (6 - k div 8) :=
        unpack bs ! (i * 7 + (6 - k div 8)) XOR push_bit (k mod 8) 1])"
    using marked marked' by (simp add: length_unpack)
  let ?J = "i * 7 + (6 - k div 8)"
  fix j assume j: "j < length (unpack ?bs')"
  then have div: "j div 7 < length bs" and mod: "j mod 7 < 7"
    using marked' by (simp_all add: length_unpack)
  have at: "unpack bs ! j = block_bytes (bs ! (j div 7)) ! (j mod 7)"
    using unpack_nth [OF marked div mod] by simp
  have at': "unpack ?bs' ! j = block_bytes (?bs' ! (j div 7)) ! (j mod 7)"
    using unpack_nth [OF marked', of "j div 7" "j mod 7"] div mod by simp
  show "unpack ?bs' ! j = ((unpack bs)[?J := unpack bs ! ?J XOR push_bit (k mod 8) 1]) ! j"
  proof (cases "j = ?J")
    case True
    then have "j div 7 = i" "j mod 7 = 6 - k div 8" by auto
    with True at at' flip_block_byte [OF \<open>k < 56\<close> mod, of "bs ! i"] assms(2) j
    show ?thesis by (simp add: length_unpack [OF marked] length_unpack [OF marked'])
  next
    case False
    then have "\<not> (j div 7 = i \<and> j mod 7 = 6 - k div 8)" by (metis div_mult_mod_eq)
    with False at at' flip_block_byte [OF \<open>k < 56\<close> mod, of "bs ! i"] div
    show ?thesis by (cases "j div 7 = i") auto
  qed
qed

subsection \<open>Properties\<close>

lemma encoded_marked: "\<forall>b \<in> set (map (encode_block p c) [0..<n]). drop_bit 56 b = 1"
  by (auto simp: encode_block_pack7 pack7_marker)

lemma unpack_frame:
  "unpack (map (encode_block p c) [0..<encoded_count (length p)])
     = frame_stream p c (encoded_count (length p) * 7 - length p - 4)"
  by (simp add: unpack_encoded map_frame_byte encoded_count_room)

lemma pcs_decode_encoded:
  assumes "p \<noteq> []" "length p + 4 \<le> length buf"
  shows "\<exists>buf'. pcs_decode
        (Some (map (encode_block p (crc32_compute p)) [0..<encoded_count (length p)])) (Some buf) (length p)
      = (\<lparr>block_lock = True, crc_valid = True, payload_length = length p\<rparr>, Some buf')
    \<and> take (length p) buf' = p \<and> length buf' = length buf"
proof -
  let ?n = "encoded_count (length p)" and ?c = "crc32_compute p"
  let ?bs = "map (encode_block p ?c) [0..<?n]"
  have ne: "?bs \<noteq> []" by (simp add: encoded_count_def bytes_per_block_def)
  have u: "unpack ?bs = frame_stream p ?c (?n * 7 - length p - 4)" by (rule unpack_frame)
  have len: "length p + 4 \<le> length (unpack ?bs)"
    by (simp add: unpack_encoded encoded_count_room)
  have "be32 (unpack ?bs) (length p) = ?c" by (simp add: u frame_stream_def be32_frame)
  moreover have "take (length p) (unpack ?bs) = p" by (simp add: u frame_stream_def)
  moreover have "0 < length p" using assms(1) by simp
  ultimately show ?thesis using pcs_decode_stream [OF ne _ len assms(2)] by auto
qed

text \<open>
  C11. Round trip: a non-empty payload that \<open>encode\<close> fits into the block buffer is recovered
  by \<open>decode\<close> from the blocks produced, with block lock, a valid CRC and the right length, given
  the expected length and a payload buffer with room for the four CRC bytes.
\<close>

theorem pcs_round_trip:
  assumes "p \<noteq> []" "encoded_count (length p) \<le> length out" "length p + 4 \<le> length buf"
  shows "\<exists>blocks buf'. pcs_encode (Some p) (Some out) = (encoded_count (length p), Some blocks)
    \<and> pcs_decode (Some (take (encoded_count (length p)) blocks)) (Some buf) (length p)
        = (\<lparr>block_lock = True, crc_valid = True, payload_length = length p\<rparr>, Some buf')
    \<and> take (length p) buf' = p"
  using pcs_decode_encoded [OF assms(1,3)] pcs_encode_Some [OF assms(2)] by auto

theorem pcs_round_trip_witness:
  "\<exists>blocks buf'. pcs_encode (Some [0xAA, 0xBB, 0xCC]) (Some [0, 0, 0, 0])
      = (encoded_count (length [0xAA, 0xBB, 0xCC :: u8]), Some blocks)
    \<and> pcs_decode (Some (take (encoded_count (length [0xAA, 0xBB, 0xCC :: u8])) blocks))
        (Some (replicate 16 0)) (length [0xAA, 0xBB, 0xCC :: u8])
        = (\<lparr>block_lock = True, crc_valid = True,
            payload_length = length [0xAA, 0xBB, 0xCC :: u8]\<rparr>, Some buf')
    \<and> take (length [0xAA, 0xBB, 0xCC :: u8]) buf' = [0xAA, 0xBB, 0xCC]"
  by (rule pcs_round_trip) (simp_all add: encoded_count_def bytes_per_block_def)

text \<open>One byte of the transmitted stream changed: the payload's CRC or the CRC received differs.\<close>

lemma frame_byte_change:
  assumes j: "j < length p + 4" and e: "e \<noteq> (0 :: u8)"
    and s: "s = (frame_stream p (crc32_compute p) n)[j := frame_stream p (crc32_compute p) n ! j XOR e]"
  shows "crc32_compute (take (length p) s) \<noteq> be32 s (length p)"
proof (cases "j < length p")
  case True
  let ?x = "p ! j"
  have "?x XOR e \<noteq> ?x" using xor_cancel_right [of e ?x 0] e by (simp add: xor.commute)
  then have "crc32_compute (p[j := ?x XOR e]) \<noteq> crc32_compute p"
    using crc_burst_differs [of "[?x XOR e]" "[?x]" "take j p" "drop (Suc j) p"] True
    by (simp add: upd_conv_take_nth_drop id_take_nth_drop [symmetric])
  moreover have "take (length p) s = p[j := ?x XOR e]"
    using True by (simp add: s frame_stream_def nth_append take_update_swap)
  moreover have "be32 s (length p) = crc32_compute p"
    using True by (simp add: s frame_stream_def list_update_append be32_frame
        nth_append be32_frame [of "p[j := ?x XOR e]", simplified])
  ultimately show ?thesis by simp
next
  case False
  let ?c = "crc32_compute p"
  obtain d where d: "j = length p + d" "d < 4" using False j by (metis add_less_cancel_left
        le_add_diff_inverse not_less)
  have flip: "x XOR e \<noteq> x" for x
    using xor_cancel_right [of e x 0] e by (simp add: xor.commute)
  have "take (length p) s = p" using False by (simp add: s frame_stream_def)
  moreover have "be32 s (length p) \<noteq> ?c"
  proof
    assume "be32 s (length p) = ?c"
    then have "be_bytes32 (be32 s (length p)) ! d = be_bytes32 ?c ! d" by simp
    moreover have "be_bytes32 (be32 s (length p)) ! d = s ! j"
      by (simp only: nth_be_bytes32_be32 [OF d(2)] d(1))
    moreover have "be_bytes32 ?c ! d = frame_stream p ?c n ! j"
      using d by (simp add: frame_stream_def nth_append)
    moreover have "s ! j = frame_stream p ?c n ! j XOR e"
      using j by (simp add: s frame_stream_def)
    ultimately show False using flip by metis
  qed
  ultimately show ?thesis by simp
qed

text \<open>
  C12. Error detection at the wire: flipping any one data bit of any encoded block, in a payload
  byte or in a CRC byte, makes \<open>decode\<close> report an invalid CRC. The block lock flag still holds:
  it says only that blocks were presented.
\<close>

theorem pcs_detects_bit_flip:
  assumes "p \<noteq> []" "length p + 4 \<le> length buf" "k < 56"
    and byte: "i * 7 + (6 - k div 8) < length p + 4"
  shows "let blocks = map (encode_block p (crc32_compute p)) [0..<encoded_count (length p)];
             r = fst (pcs_decode (Some (blocks[i := blocks ! i XOR push_bit k 1])) (Some buf) (length p))
         in block_lock r \<and> \<not> crc_valid r \<and> payload_length r = length p"
proof -
  let ?n = "encoded_count (length p)" and ?c = "crc32_compute p"
  let ?bs = "map (encode_block p ?c) [0..<?n]"
  let ?j = "i * 7 + (6 - k div 8)" and ?e = "push_bit (k mod 8) 1 :: u8"
  let ?bs' = "?bs[i := ?bs ! i XOR push_bit k 1]"
  have i: "i < length ?bs" using byte encoded_count_room [of p] by simp
  have u: "unpack ?bs = frame_stream p ?c (?n * 7 - length p - 4)" by (rule unpack_frame)
  have u': "unpack ?bs' = (unpack ?bs)[?j := unpack ?bs ! ?j XOR ?e]"
    by (rule unpack_flip [OF encoded_marked i \<open>k < 56\<close>])
  have ne: "?bs' \<noteq> []" using i by auto
  have "length (unpack ?bs') = ?n * 7" by (subst u') (simp add: unpack_encoded)
  then have len: "length p + 4 \<le> length (unpack ?bs')" using encoded_count_room [of p] by simp
  have "bit ?e (k mod 8)" by (simp add: bit_simps)
  then have "?e \<noteq> 0" by (metis bit_0_eq bot_apply bot_bool_def)
  then have "\<not> crc32_compute (take (length p) (unpack ?bs')) = be32 (unpack ?bs') (length p)"
    using frame_byte_change [OF byte _ u' [unfolded u]] by blast
  moreover have "0 < length p" using assms(1) by simp
  ultimately have "fst (pcs_decode (Some ?bs') (Some buf) (length p))
      = \<lparr>block_lock = True, crc_valid = False, payload_length = length p\<rparr>"
    using pcs_decode_stream [OF ne _ len assms(2)] by force
  then show ?thesis by (simp only: Let_def) simp
qed

theorem pcs_detects_bit_flip_witness:
  "let blocks = map (encode_block [0x10, 0x20] (crc32_compute [0x10, 0x20]))
                  [0..<encoded_count (length [0x10, 0x20 :: u8])];
       r = fst (pcs_decode (Some (blocks[0 := blocks ! 0 XOR push_bit 48 1]))
             (Some (replicate 64 0)) (length [0x10, 0x20 :: u8]))
   in block_lock r \<and> \<not> crc_valid r \<and> payload_length r = length [0x10, 0x20 :: u8]"
  by (rule pcs_detects_bit_flip) simp_all

text \<open>
  C39. Without the expected length (\<open>expected_payload_length = 0\<close>) the decoder takes every byte
  but the last four as payload, so a frame is recovered when its payload and CRC fill the last
  block exactly; the empty payload, whose expected length cannot be told from "unknown", is
  encoded into one block that is then rejected.
\<close>

theorem pcs_unknown_length:
  assumes "encoded_count (length p) \<le> length out" "encoded_count (length p) * 7 \<le> length buf"
  shows "let r = pcs_decode (map_option (take (encoded_count (length p)))
                   (snd (pcs_encode (Some p) (Some out)))) (Some buf) 0
    in ((length p + 4) mod 7 = 0 \<longrightarrow>
          fst r = \<lparr>block_lock = True, crc_valid = True, payload_length = length p\<rparr>
          \<and> map_option (take (length p)) (snd r) = Some p)
     \<and> (p = [] \<longrightarrow> fst r = \<lparr>block_lock = True, crc_valid = False, payload_length = 3\<rparr>)"
proof -
  let ?n = "encoded_count (length p)" and ?c = "crc32_compute p"
  let ?bs = "map (encode_block p ?c) [0..<?n]"
  let ?out = "frame_stream p ?c (?n * 7 - length p - 4) @ drop (?n * 7) buf"
  have ne: "?bs \<noteq> []" by (simp add: encoded_count_def bytes_per_block_def)
  have size: "length (frame_stream p ?c (?n * 7 - length p - 4)) = ?n * 7"
    using encoded_count_room [of p] by (simp add: frame_stream_def)
  have "unpack ?bs = frame_stream p ?c (?n * 7 - length p - 4)" by (rule unpack_frame)
  then have dec: "decode_blocks ?bs (0, buf) = (?n * 7, ?out)"
    using assms(2) size by (simp add: decode_blocks_fresh)
  have enc: "map_option (take ?n) (snd (pcs_encode (Some p) (Some out))) = Some ?bs"
    using pcs_encode_Some [OF assms(1)] by simp
  have four: "4 \<le> ?n * 7" using encoded_count_room [of p] by simp
  have dec0: "pcs_decode (Some ?bs) (Some buf) 0
      = (\<lparr>block_lock = True, crc_valid = (crc32_compute (take (?n * 7 - 4) ?out) = be32 ?out (?n * 7 - 4)),
          payload_length = ?n * 7 - 4\<rparr>, Some ?out)"
    using ne dec four assms(2) by (simp add: pcs_decode_def Let_def)
  have "fst (pcs_decode (Some ?bs) (Some buf) 0)
      = \<lparr>block_lock = True, crc_valid = True, payload_length = length p\<rparr>
      \<and> map_option (take (length p)) (snd (pcs_decode (Some ?bs) (Some buf) 0)) = Some p"
    if "(length p + 4) mod 7 = 0"
  proof -
    have n: "?n * 7 = length p + 4" using that by (simp add: encoded_count_def bytes_per_block_def) presburger
    have "be32 ?out (length p) = ?c" by (simp add: frame_stream_def be32_frame)
    then show ?thesis unfolding dec0 n by (simp add: frame_stream_def)
  qed
  moreover have "fst (pcs_decode (Some ?bs) (Some buf) 0)
      = \<lparr>block_lock = True, crc_valid = False, payload_length = 3\<rparr>" if "p = []"
  proof -
    have n: "?n = 1" using that by (simp add: encoded_count_def bytes_per_block_def)
    have c: "?c = 0" using that by (simp add: crc32_compute_def)
    have out: "?out = [0, 0, 0, 0, 0, 0, 0] @ drop 7 buf"
      unfolding n c by (simp add: that frame_stream_def be_bytes32_eq numeral_eq_Suc)
    have "crc32_compute [0, 0, 0] \<noteq> 0" by (simp add: crc_eval)
    then show ?thesis unfolding dec0 out unfolding n by (simp add: be32_def numeral_eq_Suc)
  qed
  ultimately show ?thesis unfolding enc Let_def by blast
qed

theorem pcs_unknown_length_witness:
  "fst (pcs_decode (map_option (take (encoded_count (length ([] :: u8 list))))
      (snd (pcs_encode (Some []) (Some [0])))) (Some (replicate 7 0)) 0)
   = \<lparr>block_lock = True, crc_valid = False, payload_length = 3\<rparr>"
  using pcs_unknown_length [of "[]" "[0]" "replicate 7 0"]
  by (simp add: Let_def encoded_count_def bytes_per_block_def)

end
