(* ===== verification/Itch_Parser.thy ===== *)
theory Itch_Parser
  imports Fpga_Prelude
begin

text \<open>
  The ITCH 5.0 parser of \<open>include/modules/parser_itch50.hpp\<close>. A buffer and its length are one
  byte list; the pointer \<open>p + k\<close> is \<open>drop k p\<close>. The parser object keeps the array of 32
  events, the counters and the status of the last call.
\<close>

subsection \<open>Data\<close>

abbreviation ascii :: "char \<Rightarrow> u8" where
  "ascii c \<equiv> of_char c"

datatype itch_type =
  Add | Add_Mpid | Executed | Executed_Price | Cancel | Delete_Order | Replace | Unknown

record itch_event =
  ev_type :: itch_type
  order_reference :: u64
  new_reference :: u64
  ev_shares :: u32
  price_ticks :: u32
  ev_side :: u8
  ev_stock :: "u8 list"

definition event_empty :: itch_event where
  "event_empty = \<lparr>ev_type = Unknown, order_reference = 0, new_reference = 0, ev_shares = 0,
     price_ticks = 0, ev_side = 0, ev_stock = replicate 9 0\<rparr>"

datatype parse_status = Parse_Ok | Unknown_Type | Truncated | Event_Limit

record itch_parser =
  ps_events :: "itch_event list"
  ps_event_count :: nat
  ps_byte_count :: nat
  ps_consumed :: nat
  ps_status :: parse_status

definition max_events :: nat where "max_events = 32"

definition parser_new :: itch_parser where
  "parser_new = \<lparr>ps_events = replicate max_events event_empty, ps_event_count = 0,
     ps_byte_count = 0, ps_consumed = 0, ps_status = Parse_Ok\<rparr>"

definition parser_reset :: "itch_parser \<Rightarrow> itch_parser" where
  "parser_reset ps = ps\<lparr>ps_event_count := 0, ps_byte_count := 0, ps_consumed := 0,
     ps_status := Parse_Ok\<rparr>"

subsection \<open>Field access and one message\<close>

definition u64be :: "u8 list \<Rightarrow> u64" where
  "u64be p = foldl (\<lambda>value i. push_bit 8 value OR ucast (p ! i)) 0 [0..<8]"

definition u32be :: "u8 list \<Rightarrow> u32" where
  "u32be p = push_bit 24 (ucast (p ! 0)) OR push_bit 16 (ucast (p ! 1))
     OR push_bit 8 (ucast (p ! 2)) OR ucast (p ! 3)"

definition length_for :: "u8 \<Rightarrow> nat" where
  "length_for t =
     (if t = ascii CHR ''A'' then 36
      else if t = ascii CHR ''F'' then 40
      else if t = ascii CHR ''E'' then 31
      else if t = ascii CHR ''C'' then 36
      else if t = ascii CHR ''X'' then 23
      else if t = ascii CHR ''D'' then 19
      else if t = ascii CHR ''U'' then 35
      else 0)"

text \<open>\<open>decode\<close>: \<open>None\<close> for \<open>false\<close>, otherwise the event with the fields it sets.\<close>

definition itch_decode :: "u8 list \<Rightarrow> nat \<Rightarrow> itch_event \<Rightarrow> itch_event option" where
  "itch_decode p len out =
     (if (len = 36 \<and> p ! 0 = ascii CHR ''A'') \<or> (len = 40 \<and> p ! 0 = ascii CHR ''F'') then
        Some (out\<lparr>ev_type := (if p ! 0 = ascii CHR ''A'' then Add else Add_Mpid),
                  order_reference := u64be (drop 11 p),
                  ev_side := p ! 19,
                  ev_shares := u32be (drop 20 p),
                  ev_stock := map (\<lambda>i. p ! (24 + i)) [0..<8] @ [0],
                  price_ticks := u32be (drop 32 p)\<rparr>)
      else if (len = 31 \<and> p ! 0 = ascii CHR ''E'') \<or> (len = 36 \<and> p ! 0 = ascii CHR ''C'') then
        Some (out\<lparr>ev_type := (if p ! 0 = ascii CHR ''E'' then Executed else Executed_Price),
                  order_reference := u64be (drop 11 p),
                  ev_shares := u32be (drop 19 p)\<rparr>)
      else if len = 23 \<and> p ! 0 = ascii CHR ''X'' then
        Some (out\<lparr>ev_type := Cancel,
                  order_reference := u64be (drop 11 p),
                  ev_shares := u32be (drop 19 p)\<rparr>)
      else if len = 19 \<and> p ! 0 = ascii CHR ''D'' then
        Some (out\<lparr>ev_type := Delete_Order, order_reference := u64be (drop 11 p)\<rparr>)
      else if len = 35 \<and> p ! 0 = ascii CHR ''U'' then
        Some (out\<lparr>ev_type := Replace,
                  order_reference := u64be (drop 11 p),
                  new_reference := u64be (drop 19 p),
                  ev_shares := u32be (drop 27 p),
                  price_ticks := u32be (drop 31 p)\<rparr>)
      else None)"

subsection \<open>The parse loop\<close>

definition store_event :: "itch_event option \<Rightarrow> itch_parser \<Rightarrow> itch_parser" where
  "store_event r ps =
     (case r of None \<Rightarrow> ps
      | Some e \<Rightarrow> ps\<lparr>ps_events := (ps_events ps)[ps_event_count ps := e],
                     ps_event_count := ps_event_count ps + 1\<rparr>)"

function parse_loop :: "u8 list \<Rightarrow> nat \<Rightarrow> itch_parser \<Rightarrow> nat \<times> itch_parser" where
  "parse_loop bytes offset ps =
     (if offset < length bytes then
        if max_events \<le> ps_event_count ps then (offset, ps\<lparr>ps_status := Event_Limit\<rparr>)
        else if length_for (bytes ! offset) = 0 then (offset, ps\<lparr>ps_status := Unknown_Type\<rparr>)
        else if length bytes - offset < length_for (bytes ! offset)
             then (offset, ps\<lparr>ps_status := Truncated\<rparr>)
        else parse_loop bytes (offset + length_for (bytes ! offset))
               (store_event (itch_decode (drop offset bytes) (length_for (bytes ! offset)) event_empty) ps)
      else (offset, ps))"
  by pat_completeness auto
termination
  by (relation "measure (\<lambda>(bytes, offset, ps). length bytes - offset)") auto

declare parse_loop.simps [simp del]

definition itch_parse :: "u8 list \<Rightarrow> itch_parser \<Rightarrow> nat \<times> itch_parser" where
  "itch_parse bytes ps =
     (let (offset, ps') = parse_loop bytes 0
            (ps\<lparr>ps_event_count := 0, ps_byte_count := length bytes, ps_status := Parse_Ok\<rparr>)
      in (ps_event_count ps', ps'\<lparr>ps_consumed := offset\<rparr>))"

subsection \<open>Reading fields\<close>

lemma upto_8: "[0..<8] = [0, 1, 2, 3, 4, 5, 6, 7]"
  by (simp add: upt_rec numeral_eq_Suc)

lemma u64be_unfold:
  "u64be p = push_bit 8 (push_bit 8 (push_bit 8 (push_bit 8 (push_bit 8 (push_bit 8 (push_bit 8
     (ucast (p ! 0)) OR ucast (p ! 1)) OR ucast (p ! 2)) OR ucast (p ! 3)) OR ucast (p ! 4))
     OR ucast (p ! 5)) OR ucast (p ! 6)) OR ucast (p ! 7)"
  by (simp add: u64be_def upto_8 del: One_nat_def)

lemma u64be_bytes: "u64be (be_bytes64 v @ xs) = v"
proof -
  have top: "ucast (ucast (drop_bit 56 v) :: u8) = drop_bit 56 v"
    by (rule bit_word_eqI) (auto simp: bit_simps dest: bit_imp_le_length)
  show ?thesis
    using join_byte64 [of 48 v] join_byte64 [of 40 v] join_byte64 [of 32 v] join_byte64 [of 24 v]
      join_byte64 [of 16 v] join_byte64 [of 8 v] join_byte64 [of 0 v]
    by (simp add: u64be_unfold be_bytes64_eq top)
qed

lemma u32be_bytes: "u32be (be_bytes32 v @ xs) = v"
  by (simp add: u32be_def be_bytes32_eq join_bytes32)

lemma u64be_prefix: "8 \<le> length xs \<Longrightarrow> u64be (xs @ ys) = u64be xs"
  by (auto simp: u64be_unfold nth_append)

lemma u32be_prefix: "4 \<le> length xs \<Longrightarrow> u32be (xs @ ys) = u32be xs"
  by (auto simp: u32be_def nth_append)

subsection \<open>Well-formed messages\<close>

definition wf_message :: "u8 list \<Rightarrow> bool" where
  "wf_message m \<longleftrightarrow> m \<noteq> [] \<and> length m = length_for (m ! 0)"

definition decoded :: "u8 list \<Rightarrow> itch_event" where
  "decoded m = the (itch_decode m (length m) event_empty)"

lemma length_for_cases:
  obtains "t = ascii CHR ''A''" "length_for t = 36" | "t = ascii CHR ''F''" "length_for t = 40"
  | "t = ascii CHR ''E''" "length_for t = 31" | "t = ascii CHR ''C''" "length_for t = 36"
  | "t = ascii CHR ''X''" "length_for t = 23" | "t = ascii CHR ''D''" "length_for t = 19"
  | "t = ascii CHR ''U''" "length_for t = 35" | "length_for t = 0"
proof (cases "length_for t = 0")
  case True
  then show thesis by (rule that(8))
next
  case False
  then show thesis using that by (auto simp: length_for_def split: if_splits)
qed

lemma wf_message_length:
  "wf_message m \<Longrightarrow> length m = length_for (m ! 0) \<and> length_for (m ! 0) \<noteq> 0"
  by (metis wf_message_def length_0_conv)

lemma length_for_le: "length_for t \<le> 40"
  by (simp add: length_for_def)

text \<open>Every message of a known type decodes, and only its own bytes are read.\<close>

lemma decode_known: "length_for (p ! 0) \<noteq> 0 \<Longrightarrow> \<exists>e. itch_decode p (length_for (p ! 0)) out = Some e"
  by (cases "p ! 0" rule: length_for_cases) (simp_all add: itch_decode_def length_for_def)

lemma decode_prefix:
  assumes "wf_message m"
  shows "itch_decode (m @ rest) (length m) out = itch_decode m (length m) out"
proof -
  from wf_message_length [OF assms] have "length m = length_for (m ! 0)" "length_for (m ! 0) \<noteq> 0"
    by auto
  then show ?thesis
    by (cases "m ! 0" rule: length_for_cases)
      (simp_all add: itch_decode_def length_for_def nth_append u64be_prefix u32be_prefix)
qed

lemma decode_wf:
  assumes "wf_message m"
  shows "itch_decode (m @ rest) (length m) event_empty = Some (decoded m)"
  using wf_message_length [OF assms] decode_known [of m event_empty]
    decode_prefix [OF assms, of rest event_empty]
  by (auto simp: decoded_def)

subsection \<open>Runs of messages\<close>

lemma parse_loop_message:
  assumes "wf_message m" "ps_event_count ps < max_events"
  shows "parse_loop (pre @ m @ post) (length pre) ps
    = parse_loop (pre @ m @ post) (length pre + length m) (store_event (Some (decoded m)) ps)"
  using assms decode_wf [OF assms(1), of post]
  by (subst parse_loop.simps) (auto simp: wf_message_def nth_append)

lemma parse_loop_messages:
  "\<forall>m \<in> set ms. wf_message m \<Longrightarrow> ps_event_count ps + length ms \<le> max_events \<Longrightarrow>
   parse_loop (pre @ concat ms @ post) (length pre) ps
     = parse_loop (pre @ concat ms @ post) (length pre + length (concat ms))
         (foldl (\<lambda>ps m. store_event (Some (decoded m)) ps) ps ms)"
proof (induction ms arbitrary: pre ps)
  case (Cons m ms)
  have "parse_loop (pre @ m @ concat ms @ post) (length pre) ps
      = parse_loop ((pre @ m) @ concat ms @ post) (length (pre @ m)) (store_event (Some (decoded m)) ps)"
    using Cons.prems by (simp add: parse_loop_message)
  also have "\<dots> = parse_loop ((pre @ m) @ concat ms @ post) (length (pre @ m) + length (concat ms))
      (foldl (\<lambda>ps m. store_event (Some (decoded m)) ps) (store_event (Some (decoded m)) ps) ms)"
    using Cons.prems by (intro Cons.IH) (auto simp: store_event_def)
  finally show ?case by (simp add: add.assoc)
qed simp

lemma store_run:
  "ps_event_count ps + length ms \<le> length (ps_events ps) \<Longrightarrow>
   foldl (\<lambda>ps m. store_event (Some (decoded m)) ps) ps ms
     = ps\<lparr>ps_events := take (ps_event_count ps) (ps_events ps) @ map decoded ms
                        @ drop (ps_event_count ps + length ms) (ps_events ps),
          ps_event_count := ps_event_count ps + length ms\<rparr>"
proof (induction ms arbitrary: ps)
  case (Cons m ms)
  let ?ps = "store_event (Some (decoded m)) ps"
  have "ps_event_count ?ps + length ms \<le> length (ps_events ?ps)"
    using Cons.prems by (simp add: store_event_def)
  from Cons.IH [OF this] Cons.prems show ?case
    by (simp add: store_event_def take_Suc_conv_app_nth drop_update_cancel)
qed simp

text \<open>Why the loop stops in front of the rest \<open>t\<close> when \<open>k\<close> events have been stored.\<close>

definition stop_status :: "nat \<Rightarrow> u8 list \<Rightarrow> parse_status option" where
  "stop_status k t =
     (if t = [] then Some Parse_Ok
      else if k = max_events then Some Event_Limit
      else if length_for (t ! 0) = 0 then Some Unknown_Type
      else if length t < length_for (t ! 0) then Some Truncated
      else None)"

lemma parse_loop_stop:
  assumes "stop_status (ps_event_count ps) t = Some st" "ps_event_count ps \<le> max_events"
    and "ps_status ps = Parse_Ok"
  shows "parse_loop (pre @ t) (length pre) ps = (length pre, ps\<lparr>ps_status := st\<rparr>)"
proof -
  have "ps\<lparr>ps_status := Parse_Ok\<rparr> = ps" using assms(3) by simp
  with assms show ?thesis
    by (subst parse_loop.simps) (auto simp: stop_status_def nth_append split: if_splits)
qed

text \<open>Every buffer is a run of well-formed messages followed by a rest where the loop stops.\<close>

lemma message_run_exists:
  "k \<le> max_events \<Longrightarrow>
   \<exists>ms t st. bytes = concat ms @ t \<and> (\<forall>m \<in> set ms. wf_message m)
     \<and> k + length ms \<le> max_events \<and> stop_status (k + length ms) t = Some st"
proof (induction "length bytes" arbitrary: bytes k rule: less_induct)
  case less
  show ?case
  proof (cases "stop_status k bytes")
    case (Some st)
    with less.prems show ?thesis
      by (intro exI [of _ "[]"] exI [of _ bytes] exI [of _ st]) simp
  next
    case None
    let ?l = "length_for (bytes ! 0)"
    from None have "bytes \<noteq> []" "k \<noteq> max_events" "?l \<noteq> 0" "?l \<le> length bytes"
      by (auto simp: stop_status_def split: if_splits)
    then have wf: "wf_message (take ?l bytes)" and "length (drop ?l bytes) < length bytes"
      and "Suc k \<le> max_events"
      using less.prems by (auto simp: wf_message_def)
    with less.hyps [of "drop ?l bytes" "Suc k"] obtain ms t st where
      "drop ?l bytes = concat ms @ t" "\<forall>m \<in> set ms. wf_message m"
      "Suc k + length ms \<le> max_events" "stop_status (Suc k + length ms) t = Some st"
      by blast
    moreover from this(1) have "bytes = concat (take ?l bytes # ms) @ t"
      by (metis append_take_drop_id append.assoc concat.simps(2))
    ultimately show ?thesis using wf
      by (intro exI [of _ "take ?l bytes # ms"] exI [of _ t] exI [of _ st]) simp
  qed
qed

lemma itch_parse_run:
  assumes "\<forall>m \<in> set ms. wf_message m" "length ms \<le> max_events"
    and "stop_status (length ms) t = Some st" "length (ps_events ps) = max_events"
  shows "itch_parse (concat ms @ t) ps
    = (length ms, ps\<lparr>ps_events := map decoded ms @ drop (length ms) (ps_events ps),
         ps_event_count := length ms, ps_byte_count := length (concat ms @ t),
         ps_consumed := length (concat ms), ps_status := st\<rparr>)"
proof -
  let ?b = "concat ms @ t"
  let ?p0 = "ps\<lparr>ps_event_count := 0, ps_byte_count := length ?b, ps_status := Parse_Ok\<rparr>"
  let ?p1 = "foldl (\<lambda>ps m. store_event (Some (decoded m)) ps) ?p0 ms"
  have p1: "?p1 = ?p0\<lparr>ps_events := map decoded ms @ drop (length ms) (ps_events ps),
      ps_event_count := length ms\<rparr>"
    using assms by (subst store_run) simp_all
  have "parse_loop ?b 0 ?p0 = parse_loop ?b (length (concat ms)) ?p1"
    using parse_loop_messages [of ms ?p0 "[]" t] assms by simp
  also have "\<dots> = (length (concat ms), ?p1\<lparr>ps_status := st\<rparr>)"
    unfolding p1 using assms by (intro parse_loop_stop [of _ t st "concat ms"]) simp_all
  finally show ?thesis unfolding p1 by (simp add: itch_parse_def)
qed

subsection \<open>The message formats\<close>

text \<open>
  The layouts of the specification, as an encoder: the type byte, ten header bytes (stock
  locate, tracking number, timestamp), the fields the parser reads, and a tail it ignores
  (match number, MPID, printable flag and execution price).
\<close>

fun type_byte :: "itch_type \<Rightarrow> u8" where
  "type_byte Add = ascii CHR ''A''"
| "type_byte Add_Mpid = ascii CHR ''F''"
| "type_byte Executed = ascii CHR ''E''"
| "type_byte Executed_Price = ascii CHR ''C''"
| "type_byte Cancel = ascii CHR ''X''"
| "type_byte Delete_Order = ascii CHR ''D''"
| "type_byte Replace = ascii CHR ''U''"
| "type_byte Unknown = 0"

fun tail_length :: "itch_type \<Rightarrow> nat" where
  "tail_length Add_Mpid = 4"
| "tail_length Executed = 8"
| "tail_length Executed_Price = 13"
| "tail_length _ = 0"

definition message_body :: "itch_event \<Rightarrow> u8 list" where
  "message_body e = be_bytes64 (order_reference e) @
     (case ev_type e of
        Add \<Rightarrow> ev_side e # be_bytes32 (ev_shares e) @ butlast (ev_stock e) @ be_bytes32 (price_ticks e)
      | Add_Mpid \<Rightarrow> ev_side e # be_bytes32 (ev_shares e) @ butlast (ev_stock e) @ be_bytes32 (price_ticks e)
      | Executed \<Rightarrow> be_bytes32 (ev_shares e)
      | Executed_Price \<Rightarrow> be_bytes32 (ev_shares e)
      | Cancel \<Rightarrow> be_bytes32 (ev_shares e)
      | Replace \<Rightarrow> be_bytes64 (new_reference e) @ be_bytes32 (ev_shares e) @ be_bytes32 (price_ticks e)
      | _ \<Rightarrow> [])"

definition itch_message :: "u8 list \<Rightarrow> itch_event \<Rightarrow> u8 list \<Rightarrow> u8 list" where
  "itch_message header e tail = type_byte (ev_type e) # header @ message_body e @ tail"

text \<open>An event a message can carry: the fields its type does not have are zero.\<close>

definition carried :: "itch_event \<Rightarrow> bool" where
  "carried e \<longleftrightarrow>
     (case ev_type e of
        Unknown \<Rightarrow> False
      | Delete_Order \<Rightarrow> e = event_empty\<lparr>ev_type := Delete_Order, order_reference := order_reference e\<rparr>
      | Replace \<Rightarrow> e = event_empty\<lparr>ev_type := Replace, order_reference := order_reference e,
          new_reference := new_reference e, ev_shares := ev_shares e, price_ticks := price_ticks e\<rparr>
      | Add \<Rightarrow> new_reference e = 0 \<and> length (ev_stock e) = 9 \<and> last (ev_stock e) = 0
      | Add_Mpid \<Rightarrow> new_reference e = 0 \<and> length (ev_stock e) = 9 \<and> last (ev_stock e) = 0
      | t \<Rightarrow> e = event_empty\<lparr>ev_type := t, order_reference := order_reference e,
          ev_shares := ev_shares e\<rparr>)"

lemma stock_bytes:
  assumes "length st = 9" "last st = 0"
  shows "map (\<lambda>i. (butlast st @ xs) ! i) [0..<8] @ [0] = st"
proof -
  have "map (\<lambda>i. (butlast st @ xs) ! i) [0..<8] = butlast st"
    using assms by (intro nth_equalityI) (simp_all add: nth_append)
  moreover have "butlast st @ [0] = st" using assms append_butlast_last_id [of st] by force
  ultimately show ?thesis by simp
qed

lemma message_wf:
  assumes "length header = 10" "carried e" "length tail = tail_length (ev_type e)"
  shows "wf_message (itch_message header e tail)"
  using assms
  by (cases "ev_type e")
     (auto simp: wf_message_def itch_message_def message_body_def length_for_def carried_def)

lemma be_bytes_alone: "u64be (be_bytes64 v) = v" "u32be (be_bytes32 w) = w"
  using u64be_bytes [of v "[]"] u32be_bytes [of w "[]"] by simp_all

lemma message_decoded:
  assumes "length header = 10" "carried e" "length tail = tail_length (ev_type e)"
  shows "decoded (itch_message header e tail) = e"
proof -
  obtain h0 h1 h2 h3 h4 h5 h6 h7 h8 h9 where h: "header = [h0, h1, h2, h3, h4, h5, h6, h7, h8, h9]"
    using assms(1) by (auto simp: numeral_eq_Suc length_Suc_conv)
  note fields = decoded_def itch_decode_def itch_message_def message_body_def carried_def
    u64be_bytes u32be_bytes be_bytes_alone nth_append h
  show ?thesis
  proof (cases "ev_type e")
    case Add
    with assms(2,3) stock_bytes [of "ev_stock e"] show ?thesis
      by (cases e) (simp add: fields event_empty_def)
  next
    case Add_Mpid
    with assms(2,3) stock_bytes [of "ev_stock e"] show ?thesis
      by (cases e) (simp add: fields event_empty_def)
  qed (use assms(2,3) in \<open>simp_all add: fields\<close>)
qed

subsection \<open>Properties\<close>

text \<open>
  C13. For every byte buffer the parser stops, and what it reports is complete: the buffer is a
  run of whole messages of known types, at most 32, followed by a rest; the stored events are
  the decoded messages in order, \<open>bytes_consumed\<close> is the length of the run, and the status says
  why the rest was not consumed (it is empty, the event limit is reached, its type is unknown,
  or its message runs past the end). No byte beyond the buffer is used.
\<close>

theorem itch_parse_complete:
  assumes "length (ps_events ps) = max_events"
  shows "\<exists>ms t st. bytes = concat ms @ t \<and> (\<forall>m \<in> set ms. wf_message m)
    \<and> length ms \<le> max_events \<and> stop_status (length ms) t = Some st
    \<and> itch_parse bytes ps = (length ms, ps\<lparr>ps_events := map decoded ms @ drop (length ms) (ps_events ps),
         ps_event_count := length ms, ps_byte_count := length bytes,
         ps_consumed := length (concat ms), ps_status := st\<rparr>)"
proof -
  obtain ms t st where run: "bytes = concat ms @ t" "\<forall>m \<in> set ms. wf_message m"
    "length ms \<le> max_events" "stop_status (length ms) t = Some st"
    using message_run_exists [of 0 bytes] by auto
  with itch_parse_run [OF run(2-4) assms] show ?thesis by blast
qed

theorem itch_parse_complete_witness:
  "\<exists>ms t st. [0x5A, 0] = concat ms @ t \<and> (\<forall>m \<in> set ms. wf_message m)
    \<and> length ms \<le> max_events \<and> stop_status (length ms) t = Some st
    \<and> itch_parse [0x5A, 0] parser_new = (length ms, parser_new\<lparr>
         ps_events := map decoded ms @ drop (length ms) (ps_events parser_new),
         ps_event_count := length ms, ps_byte_count := length [0x5A :: u8, 0],
         ps_consumed := length (concat ms), ps_status := st\<rparr>)"
  by (rule itch_parse_complete) (simp add: parser_new_def)

text \<open>
  C14. Round trip with the documented byte layouts: for any sequence of at most 32 events of the
  seven supported types, with any header bytes and any ignored tail bytes, parsing the
  concatenated messages stores exactly these events, consumes the whole buffer and reports
  \<open>ok\<close>.
\<close>

theorem itch_parse_round_trip:
  assumes "length es \<le> max_events" "length (ps_events ps) = max_events"
    and "\<forall>(h, e, l) \<in> set es. length h = 10 \<and> carried e \<and> length l = tail_length (ev_type e)"
  shows "let bytes = concat (map (\<lambda>(h, e, l). itch_message h e l) es);
             (n, ps') = itch_parse bytes ps
         in n = length es \<and> take n (ps_events ps') = map (fst \<circ> snd) es
            \<and> ps_status ps' = Parse_Ok \<and> ps_consumed ps' = length bytes"
proof -
  let ?ms = "map (\<lambda>(h, e, l). itch_message h e l) es"
  have wf: "\<forall>m \<in> set ?ms. wf_message m" using assms(3) by (auto intro: message_wf)
  have dec: "map decoded ?ms = map (fst \<circ> snd) es" using assms(3) by (auto simp: message_decoded)
  have "stop_status (length ?ms) [] = Some Parse_Ok" by (simp add: stop_status_def)
  from itch_parse_run [OF wf _ this assms(2)] assms(1)
  have "itch_parse (concat ?ms) ps = (length es, ps\<lparr>ps_events := map decoded ?ms @ drop (length es) (ps_events ps),
         ps_event_count := length es, ps_byte_count := length (concat ?ms),
         ps_consumed := length (concat ?ms), ps_status := Parse_Ok\<rparr>)"
    by simp
  then show ?thesis unfolding dec by (simp add: Let_def)
qed

theorem itch_parse_round_trip_witness:
  "let e = event_empty\<lparr>ev_type := Cancel, order_reference := 7, ev_shares := 100\<rparr>;
       bytes = concat (map (\<lambda>(h, e, l). itch_message h e l) [(replicate 10 0, e, [])]);
       (n, ps') = itch_parse bytes parser_new
   in n = 1 \<and> take n (ps_events ps') = [e] \<and> ps_status ps' = Parse_Ok \<and> ps_consumed ps' = 23"
  using itch_parse_round_trip [of "[(replicate 10 0,
      event_empty\<lparr>ev_type := Cancel, order_reference := 7, ev_shares := 100\<rparr>, [])]" parser_new]
  by (simp add: parser_new_def max_events_def carried_def event_empty_def itch_message_def
      message_body_def Let_def)

end
