(* ===== verification/Order_Table.thy ===== *)
theory Order_Table
  imports Fpga_Prelude
begin

text \<open>
  \<open>BasicOrderTable\<close> of \<open>include/modules/order_table.hpp\<close>: a fixed array of entries searched
  linearly. The template parameter \<open>Capacity\<close> is the length of the array. Reducing an order
  can overflow \<open>int32_t\<close> when the number of shares is negative; that is \<open>None\<close>.
\<close>

subsection \<open>The order store interface\<close>

text \<open>What a client relies on: the live orders as a map from reference to side, price and
  remaining shares.\<close>

type_synonym order_view = "u64 \<rightharpoonup> bool \<times> i32 \<times> int"

definition total_shares :: "order_view \<Rightarrow> int" where
  "total_shares v = (\<Sum>r \<in> dom v. snd (snd (the (v r))))"

definition all_positive :: "order_view \<Rightarrow> bool" where
  "all_positive v \<longleftrightarrow> (\<forall>r b p m. v r = Some (b, p, m) \<longrightarrow> 0 < m \<and> m < 2 ^ 31)"

locale order_store =
  fixes insert :: "u64 \<Rightarrow> bool \<Rightarrow> i32 \<Rightarrow> i32 \<Rightarrow> 't \<Rightarrow> bool \<times> 't"
    and reduce :: "u64 \<Rightarrow> i32 \<Rightarrow> 't \<Rightarrow> ((bool \<times> i32 \<times> i32) option \<times> 't) option"
    and view :: "'t \<Rightarrow> order_view"
    and invar :: "'t \<Rightarrow> bool"
    and cap :: "'t \<Rightarrow> nat"
  assumes finite_view: "invar t \<Longrightarrow> finite (dom (view t)) \<and> card (dom (view t)) \<le> cap t"
    and insert_ok:
      "invar t \<Longrightarrow> view t r = None \<Longrightarrow> card (dom (view t)) < cap t \<Longrightarrow>
       \<exists>t'. insert r b p n t = (True, t') \<and> invar t' \<and> cap t' = cap t
         \<and> view t' = (view t)(r \<mapsto> (b, p, sint n))"
    and insert_refused:
      "invar t \<Longrightarrow> view t r \<noteq> None \<or> card (dom (view t)) = cap t \<Longrightarrow>
       insert r b p n t = (False, t)"
    and reduce_unknown: "invar t \<Longrightarrow> view t r = None \<Longrightarrow> reduce r n t = Some (None, t)"
    and reduce_known:
      "invar t \<Longrightarrow> view t r = Some (b, p, m) \<Longrightarrow> fits_i32 (m - min (sint n) m) \<Longrightarrow>
       \<exists>a t'. reduce r n t = Some (Some (b, p, a), t') \<and> sint a = min (sint n) m
         \<and> invar t' \<and> cap t' = cap t
         \<and> view t' = (if m - min (sint n) m \<le> 0 then (view t)(r := None)
                      else (view t)(r \<mapsto> (b, p, m - min (sint n) m)))"
begin

lemma total_update:
  assumes "invar t" "view t' = (view t)(r \<mapsto> (b, p, m))"
  shows "total_shares (view t') = total_shares (view t) - (case view t r of None \<Rightarrow> 0 | Some (b, p, k) \<Rightarrow> k) + m"
proof -
  let ?f = "\<lambda>v r. snd (snd (the (v r))) :: int"
  have fin: "finite (dom (view t))" using finite_view [OF assms(1)] by simp
  have "total_shares (view t') = m + (\<Sum>x \<in> dom (view t) - {r}. ?f (view t') x)"
    using fin by (simp add: total_shares_def assms(2) sum.insert_remove)
  also have "(\<Sum>x \<in> dom (view t) - {r}. ?f (view t') x) = (\<Sum>x \<in> dom (view t) - {r}. ?f (view t) x)"
    by (rule sum.cong) (simp_all add: assms(2))
  also have "\<dots> = total_shares (view t) - (case view t r of None \<Rightarrow> 0 | Some (b, p, k) \<Rightarrow> k)"
    using fin by (auto simp: total_shares_def sum_diff1 split: option.split)
  finally show ?thesis by simp
qed

lemma total_delete:
  assumes "invar t" "view t' = (view t)(r := None)"
  shows "total_shares (view t') = total_shares (view t) - (case view t r of None \<Rightarrow> 0 | Some (b, p, k) \<Rightarrow> k)"
proof -
  have fin: "finite (dom (view t))" using finite_view [OF assms(1)] by simp
  have "total_shares (view t') = (\<Sum>x \<in> dom (view t) - {r}. snd (snd (the (view t x))))"
    unfolding total_shares_def by (rule sum.cong) (auto simp: assms(2))
  with fin show ?thesis by (auto simp: total_shares_def sum_diff1 split: option.split)
qed

text \<open>Share accounting of single operations with a positive number of shares.\<close>

lemma insert_accounts:
  assumes "invar t" "all_positive (view t)" "0 < sint n" "insert r b p n t = (ok, t')"
  shows "invar t' \<and> all_positive (view t') \<and> cap t' = cap t
    \<and> total_shares (view t') = total_shares (view t) + (if ok then sint n else 0)"
proof (cases "view t r = None \<and> card (dom (view t)) < cap t")
  case True
  with insert_ok [OF assms(1), of r b p n] assms(4)
  have "ok" "invar t'" "cap t' = cap t" "view t' = (view t)(r \<mapsto> (b, p, sint n))" by auto
  moreover have "sint n < 2 ^ 31" using sint_less [of n] by simp
  ultimately show ?thesis
    using assms True total_update [OF assms(1), of t' r b p "sint n"]
    by (auto simp: all_positive_def)
next
  case False
  then have "view t r \<noteq> None \<or> card (dom (view t)) = cap t"
    using finite_view [OF assms(1)] by auto
  with insert_refused [OF assms(1), of r b p n] assms show ?thesis by auto
qed

lemma reduce_accounts:
  assumes "invar t" "all_positive (view t)" "0 < sint n"
  shows "\<exists>res t'. reduce r n t = Some (res, t') \<and> invar t' \<and> all_positive (view t') \<and> cap t' = cap t
    \<and> total_shares (view t') = total_shares (view t) - (case res of None \<Rightarrow> 0 | Some (b, p, a) \<Rightarrow> sint a)"
proof (cases "view t r")
  case None
  with reduce_unknown [OF assms(1)] assms show ?thesis by auto
next
  case (Some v)
  obtain b p m where v: "view t r = Some (b, p, m)" using Some by (cases v) auto
  then have m: "0 < m" "m < 2 ^ 31" using assms(2) by (auto simp: all_positive_def)
  then have "fits_i32 (m - min (sint n) m)" using assms(3) by (auto simp: fits_i32_def min_def)
  from reduce_known [OF assms(1) v this] obtain a t' where
    res: "reduce r n t = Some (Some (b, p, a), t')" "sint a = min (sint n) m" "invar t'"
      "cap t' = cap t"
    and view: "view t' = (if m - min (sint n) m \<le> 0 then (view t)(r := None)
       else (view t)(r \<mapsto> (b, p, m - min (sint n) m)))" by blast
  have "total_shares (view t') = total_shares (view t) - sint a"
    using view v res(2) total_delete [OF assms(1), of t' r]
      total_update [OF assms(1), of t' r b p "m - min (sint n) m"] by (auto simp: min_def split: if_splits)
  moreover have "all_positive (view t')"
    using assms(2,3) view m by (auto simp: all_positive_def min_def split: if_splits)
  ultimately show ?thesis using res by auto
qed

end

subsection \<open>The table of the code\<close>

record order_entry =
  oe_reference :: u64
  oe_price :: i32
  oe_remaining :: i32
  oe_bid :: bool
  oe_live :: bool

type_synonym order_table = "order_entry list"

definition entry_empty :: order_entry where
  "entry_empty = \<lparr>oe_reference = 0, oe_price = 0, oe_remaining = 0, oe_bid = False, oe_live = False\<rparr>"

definition table_new :: "nat \<Rightarrow> order_table" where
  "table_new capacity = replicate capacity entry_empty"

definition table_reset :: "order_table \<Rightarrow> order_table" where
  "table_reset t = replicate (length t) entry_empty"

text \<open>The scan of \<open>insert\<close>: whether the reference is live, and the first free slot seen.\<close>

fun table_scan :: "u64 \<Rightarrow> nat \<Rightarrow> nat option \<Rightarrow> order_table \<Rightarrow> bool \<times> nat option" where
  "table_scan r i free [] = (False, free)"
| "table_scan r i free (e # es) =
     (if oe_live e \<and> oe_reference e = r then (True, free)
      else table_scan r (i + 1) (if \<not> oe_live e \<and> free = None then Some i else free) es)"

definition table_insert :: "u64 \<Rightarrow> bool \<Rightarrow> i32 \<Rightarrow> i32 \<Rightarrow> order_table \<Rightarrow> bool \<times> order_table" where
  "table_insert r bid price shares t =
     (case table_scan r 0 None t of
        (True, _) \<Rightarrow> (False, t)
      | (False, None) \<Rightarrow> (False, t)
      | (False, Some i) \<Rightarrow>
          (True, t[i := \<lparr>oe_reference = r, oe_price = price, oe_remaining = shares,
                         oe_bid = bid, oe_live = True\<rparr>]))"

fun table_reduce ::
  "u64 \<Rightarrow> i32 \<Rightarrow> order_table \<Rightarrow> ((bool \<times> i32 \<times> i32) option \<times> order_table) option" where
  "table_reduce r shares [] = Some (None, [])"
| "table_reduce r shares (e # es) =
     (if oe_live e \<and> oe_reference e = r then
        let applied = (if shares <s oe_remaining e then shares else oe_remaining e) in
        do { left \<leftarrow> i32_sub (oe_remaining e) applied;
             Some (Some (oe_bid e, oe_price e, applied),
                   (if left <=s 0 then entry_empty else e\<lparr>oe_remaining := left\<rparr>) # es) }
      else do { (res, es') \<leftarrow> table_reduce r shares es; Some (res, e # es') })"

subsection \<open>The table as a map\<close>

fun table_view :: "order_table \<Rightarrow> order_view" where
  "table_view [] r = None"
| "table_view (e # es) r =
     (if oe_live e \<and> oe_reference e = r then Some (oe_bid e, oe_price e, sint (oe_remaining e))
      else table_view es r)"

definition live_references :: "order_table \<Rightarrow> u64 list" where
  "live_references t = map oe_reference (filter oe_live t)"

definition table_inv :: "order_table \<Rightarrow> bool" where
  "table_inv t \<longleftrightarrow> distinct (live_references t)"

lemma length_table [array_simps, simp]:
  "length (table_new n) = n" "length (table_reset t) = length t"
  by (simp_all add: table_new_def table_reset_def)

lemma live_references_simps [simp]:
  "live_references [] = []"
  "live_references (e # es) = (if oe_live e then oe_reference e # live_references es else live_references es)"
  by (simp_all add: live_references_def)

lemma dom_table_view: "dom (table_view t) = set (live_references t)"
  by (induction t) (auto simp: dom_def split: if_splits)

lemma table_view_None: "table_view t r = None \<longleftrightarrow> r \<notin> set (live_references t)"
  using dom_table_view [of t] by auto

lemma card_table_view: "table_inv t \<Longrightarrow> card (dom (table_view t)) = length (live_references t)"
  by (simp add: dom_table_view table_inv_def distinct_card)

lemma live_references_le: "length (live_references t) \<le> length t"
  by (simp add: live_references_def)

lemma table_new_facts [simp]: "table_inv (table_new n)" "table_view (table_new n) = Map.empty"
proof -
  have "live_references (table_new n) = []"
    by (induction n) (simp_all add: table_new_def entry_empty_def)
  then show "table_inv (table_new n)" "table_view (table_new n) = Map.empty"
    using dom_table_view [of "table_new n"] by (auto simp: table_inv_def)
qed

lemma table_reset_new: "table_reset t = table_new (length t)"
  by (simp add: table_reset_def table_new_def)

lemma table_scan_live: "fst (table_scan r i f t) \<longleftrightarrow> r \<in> set (live_references t)"
  by (induction t arbitrary: i f) auto

lemma table_scan_found: "snd (table_scan r i (Some k) t) = Some k"
  by (induction t arbitrary: i) auto

text \<open>For a reference that is not live, the scan returns the first free slot, if there is one.\<close>

lemma table_scan_free:
  "r \<notin> set (live_references t) \<Longrightarrow>
   (case snd (table_scan r i None t) of
      None \<Rightarrow> length (live_references t) = length t
    | Some k \<Rightarrow> \<exists>es e fs. t = es @ e # fs \<and> k = i + length es \<and> \<not> oe_live e)"
proof (induction t arbitrary: i)
  case (Cons e es)
  show ?case
  proof (cases "oe_live e")
    case True
    with Cons.prems have r: "r \<notin> set (live_references es)" and ne: "oe_reference e \<noteq> r" by auto
    show ?thesis
    proof (cases "snd (table_scan r (i + 1) None es)")
      case None
      with Cons.IH [OF r, of "i + 1"] True ne show ?thesis by simp
    next
      case (Some k)
      with Cons.IH [OF r, of "i + 1"] obtain as f bs where
        "es = as @ f # bs" "k = i + 1 + length as" "\<not> oe_live f" by auto
      then have "\<exists>as f bs. e # es = as @ f # bs \<and> k = i + length as \<and> \<not> oe_live f"
        by (intro exI [of _ "e # as"] exI [of _ f] exI [of _ bs]) simp
      with True ne Some show ?thesis by simp
    qed
  next
    case False
    then show ?thesis by (auto simp: table_scan_found intro!: exI [of _ "[]"])
  qed
qed simp

lemma live_references_append [simp]:
  "live_references (xs @ ys) = live_references xs @ live_references ys"
  by (simp add: live_references_def)

lemma table_view_append:
  "table_view (xs @ ys) r = (case table_view xs r of None \<Rightarrow> table_view ys r | Some v \<Rightarrow> Some v)"
  by (induction xs) auto

lemma table_insert_fresh:
  assumes "table_inv t" "table_view t r = None" "length (live_references t) < length t"
  shows "\<exists>t'. table_insert r b p n t = (True, t') \<and> table_inv t' \<and> length t' = length t
    \<and> table_view t' = (table_view t)(r \<mapsto> (b, p, sint n))"
proof -
  have r: "r \<notin> set (live_references t)" using assms(2) by (simp add: table_view_None)
  obtain k where k: "snd (table_scan r 0 None t) = Some k"
    using table_scan_free [OF r, of 0] assms(3) by (cases "snd (table_scan r 0 None t)") auto
  with table_scan_free [OF r, of 0] obtain es e fs where
    t: "t = es @ e # fs" "k = length es" "\<not> oe_live e" by auto
  have scan: "table_scan r 0 None t = (False, Some k)"
    using k table_scan_live [of r 0 None t] r by (metis prod.collapse)
  let ?e = "\<lparr>oe_reference = r, oe_price = p, oe_remaining = n, oe_bid = b, oe_live = True\<rparr>"
  have "table_insert r b p n t = (True, es @ ?e # fs)"
    unfolding table_insert_def scan using t by simp
  moreover have "table_inv (es @ ?e # fs)"
    using assms(1) r t by (simp add: table_inv_def)
  moreover have "table_view (es @ ?e # fs) = (table_view t)(r \<mapsto> (b, p, sint n))"
    using r t table_view_None [of es r] by (auto simp: table_view_append fun_eq_iff split: option.split)
  ultimately show ?thesis using t by simp
qed

lemma table_insert_refused:
  assumes "table_view t r \<noteq> None \<or> length (live_references t) = length t"
  shows "table_insert r b p n t = (False, t)"
proof (cases "r \<in> set (live_references t)")
  case True
  then have "fst (table_scan r 0 None t)" by (simp add: table_scan_live)
  then show ?thesis by (cases "table_scan r 0 None t") (simp add: table_insert_def)
next
  case False
  with assms have full: "length (live_references t) = length t"
    by (simp add: table_view_None)
  have "snd (table_scan r 0 None t) = None"
  proof (cases "snd (table_scan r 0 None t)")
    case (Some k)
    with table_scan_free [OF False, of 0] obtain es e fs where "t = es @ e # fs" "\<not> oe_live e" by auto
    with full live_references_le [of es] live_references_le [of fs] show ?thesis by simp
  qed
  with False table_scan_live [of r 0 None t] have "table_scan r 0 None t = (False, None)"
    by (metis prod.collapse)
  then show ?thesis by (simp add: table_insert_def)
qed

text \<open>Reducing an order rewrites its entry and no other.\<close>

lemma table_reduce_unknown: "table_view t r = None \<Longrightarrow> table_reduce r n t = Some (None, t)"
  by (induction t) (auto split: if_splits)

lemma i32_min: "(if (n :: i32) <s m then n else m) = a \<Longrightarrow> sint a = min (sint n) (sint m)"
  by (auto simp: word_sless_alt)

lemma table_reduce_known:
  assumes "table_inv t" "table_view t r = Some (b, p, m)" "fits_i32 (m - min (sint n) m)"
  shows "\<exists>a t'. table_reduce r n t = Some (Some (b, p, a), t') \<and> sint a = min (sint n) m
    \<and> table_inv t' \<and> length t' = length t \<and> set (live_references t') \<subseteq> set (live_references t)
    \<and> table_view t' = (if m - min (sint n) m \<le> 0 then (table_view t)(r := None)
                       else (table_view t)(r \<mapsto> (b, p, m - min (sint n) m)))"
  using assms
proof (induction t)
  case (Cons e es)
  show ?case
  proof (cases "oe_live e \<and> oe_reference e = r")
    case True
    define a where "a = (if n <s oe_remaining e then n else oe_remaining e)"
    have a: "sint a = min (sint n) (sint (oe_remaining e))" by (rule i32_min) (simp add: a_def)
    from Cons.prems True have v: "b = oe_bid e" "p = oe_price e" "m = sint (oe_remaining e)" by auto
    with Cons.prems(3) a have fit: "fits_i32 (sint (oe_remaining e) - sint a)" by simp
    let ?l = "oe_remaining e - a"
    have l: "i32_sub (oe_remaining e) a = Some ?l" "sint ?l = m - min (sint n) m"
      using fit a v by (simp_all add: i32_sub_Some sint_i32_sub)
    have r: "r \<notin> set (live_references es)" using Cons.prems(1) True by (auto simp: table_inv_def)
    then have none: "table_view es r = None" by (simp add: table_view_None)
    define h where "h = (if ?l <=s 0 then entry_empty else e\<lparr>oe_remaining := ?l\<rparr>)"
    have red: "table_reduce r n (e # es) = Some (Some (b, p, a), h # es)"
      using True v l(1) by (simp add: a_def [symmetric] h_def Let_def)
    have view: "table_view (h # es)
        = (if m - min (sint n) m \<le> 0 then (table_view (e # es))(r := None)
           else (table_view (e # es))(r \<mapsto> (b, p, m - min (sint n) m)))"
      using True v l(2) none by (auto simp: h_def entry_empty_def word_sle_eq fun_eq_iff)
    have inv: "table_inv (h # es)"
      using Cons.prems(1) by (auto simp: h_def table_inv_def entry_empty_def split: if_splits)
    have refs: "set (live_references (h # es)) \<subseteq> set (live_references (e # es))"
      using True by (auto simp: h_def entry_empty_def)
    have "sint a = min (sint n) m" "length (h # es) = length (e # es)" using a v by simp_all
    with red view inv refs show ?thesis by blast
  next
    case False
    with Cons.prems have "table_inv es" "table_view es r = Some (b, p, m)"
      by (auto simp: table_inv_def split: if_splits)
    with Cons obtain a t' where t': "table_reduce r n es = Some (Some (b, p, a), t')"
      "sint a = min (sint n) m" "table_inv t'" "length t' = length es"
      "set (live_references t') \<subseteq> set (live_references es)"
      "table_view t' = (if m - min (sint n) m \<le> 0 then (table_view es)(r := None)
                       else (table_view es)(r \<mapsto> (b, p, m - min (sint n) m)))"
      by blast
    have "table_view (e # t') = (if m - min (sint n) m \<le> 0 then (table_view (e # es))(r := None)
         else (table_view (e # es))(r \<mapsto> (b, p, m - min (sint n) m)))"
      using False t'(6) by (auto simp: fun_eq_iff)
    moreover have "table_inv (e # t')"
      using Cons.prems(1) t'(3,5) by (auto simp: table_inv_def)
    moreover have "table_reduce r n (e # es) = Some (Some (b, p, a), e # t')"
      using False t'(1) by auto
    moreover have "set (live_references (e # t')) \<subseteq> set (live_references (e # es))"
      "length (e # t') = length (e # es)"
      using t'(4,5) by auto
    ultimately show ?thesis using t'(2) by blast
  qed
qed simp

interpretation table: order_store table_insert table_reduce table_view table_inv length
proof unfold_locales
  fix t r b p n
  assume "table_inv t"
  then show "finite (dom (table_view t)) \<and> card (dom (table_view t)) \<le> length t"
    using live_references_le [of t] card_table_view [of t] by (simp add: dom_table_view)
next
  fix t r b p and n :: i32
  assume "table_inv t" "table_view t r = None" "card (dom (table_view t)) < length t"
  then show "\<exists>t'. table_insert r b p n t = (True, t') \<and> table_inv t' \<and> length t' = length t
      \<and> table_view t' = (table_view t)(r \<mapsto> (b, p, sint n))"
    using table_insert_fresh [of t r b p n] by (simp add: card_table_view)
next
  fix t r b p and n :: i32
  assume "table_inv t" "table_view t r \<noteq> None \<or> card (dom (table_view t)) = length t"
  then show "table_insert r b p n t = (False, t)"
    using table_insert_refused [of t r b p n] by (simp add: card_table_view)
next
  fix t r and n :: i32
  assume "table_inv t" "table_view t r = None"
  then show "table_reduce r n t = Some (None, t)" by (simp add: table_reduce_unknown)
next
  fix t r b p m and n :: i32
  assume "table_inv t" "table_view t r = Some (b, p, m)" "fits_i32 (m - min (sint n) m)"
  then show "\<exists>a t'. table_reduce r n t = Some (Some (b, p, a), t') \<and> sint a = min (sint n) m
      \<and> table_inv t' \<and> length t' = length t
      \<and> table_view t' = (if m - min (sint n) m \<le> 0 then (table_view t)(r := None)
                         else (table_view t)(r \<mapsto> (b, p, m - min (sint n) m)))"
    using table_reduce_known [of t r b p m n] by blast
qed

subsection \<open>Histories\<close>

datatype table_op = Insert u64 bool i32 i32 | Reduce u64 i32

fun op_shares :: "table_op \<Rightarrow> i32" where
  "op_shares (Insert r b p n) = n"
| "op_shares (Reduce r n) = n"

text \<open>A history: the shares of the accepted inserts, the shares applied by the reduces, the table.\<close>

fun table_run :: "order_table \<Rightarrow> table_op list \<Rightarrow> (int \<times> int \<times> order_table) option" where
  "table_run t [] = Some (0, 0, t)"
| "table_run t (Insert r b p n # ops) =
     (case table_insert r b p n t of (ok, t1) \<Rightarrow>
        do { (i, a, t2) \<leftarrow> table_run t1 ops; Some (i + (if ok then sint n else 0), a, t2) })"
| "table_run t (Reduce r n # ops) = do {
     (res, t1) \<leftarrow> table_reduce r n t;
     (i, a, t2) \<leftarrow> table_run t1 ops;
     Some (i, a + (case res of None \<Rightarrow> 0 | Some (b, p, k) \<Rightarrow> sint k), t2) }"

lemma table_run_accounts:
  "table_inv t \<Longrightarrow> all_positive (table_view t) \<Longrightarrow> \<forall>op \<in> set ops. 0 < sint (op_shares op) \<Longrightarrow>
   \<exists>i a t'. table_run t ops = Some (i, a, t') \<and> table_inv t' \<and> all_positive (table_view t')
     \<and> total_shares (table_view t) + i = a + total_shares (table_view t')"
proof (induction ops arbitrary: t)
  case (Cons op ops)
  show ?case
  proof (cases op)
    case (Insert r b p n)
    obtain ok t1 where ins: "table_insert r b p n t = (ok, t1)" by fastforce
    with table.insert_accounts [OF Cons.prems(1,2) _ this] Cons.prems(3) Insert
    have t1: "table_inv t1" "all_positive (table_view t1)"
      "total_shares (table_view t1) = total_shares (table_view t) + (if ok then sint n else 0)" by auto
    obtain i a t2 where "table_run t1 ops = Some (i, a, t2)" "table_inv t2"
      "all_positive (table_view t2)" "total_shares (table_view t1) + i = a + total_shares (table_view t2)"
      using Cons.IH [OF t1(1,2)] Cons.prems(3) by auto
    with Insert ins t1(3) show ?thesis by auto
  next
    case (Reduce r n)
    with table.reduce_accounts [OF Cons.prems(1,2), of n r] Cons.prems(3)
    obtain res t1 where red: "table_reduce r n t = Some (res, t1)" "table_inv t1"
      "all_positive (table_view t1)"
      "total_shares (table_view t1) = total_shares (table_view t)
         - (case res of None \<Rightarrow> 0 | Some (b, p, a) \<Rightarrow> sint a)" by auto
    obtain i a t2 where "table_run t1 ops = Some (i, a, t2)" "table_inv t2"
      "all_positive (table_view t2)" "total_shares (table_view t1) + i = a + total_shares (table_view t2)"
      using Cons.IH [OF red(2,3)] Cons.prems(3) by auto
    with Reduce red(1,4) show ?thesis by auto
  qed
qed auto

subsection \<open>Properties\<close>

text \<open>
  C19. Share conservation: over any history of inserts and reductions of a fresh table with
  positive share counts, no operation overflows, every live order keeps a positive remainder
  with a unique reference, and the shares of the accepted inserts are exactly the shares
  removed so far plus the shares still resting.
\<close>

theorem table_conserves_shares:
  assumes "\<forall>op \<in> set ops. 0 < sint (op_shares op)"
  shows "\<exists>inserted removed t. table_run (table_new n) ops = Some (inserted, removed, t)
    \<and> table_inv t \<and> all_positive (table_view t)
    \<and> inserted = removed + total_shares (table_view t)"
  using table_run_accounts [of "table_new n" ops] assms
  by (auto simp: all_positive_def total_shares_def)

theorem table_conserves_shares_witness:
  "\<exists>inserted removed t. table_run (table_new 2)
      [Insert 7 True 1000 300, Insert 7 True 1000 1, Reduce 7 100, Reduce 7 500, Reduce 99 1]
      = Some (inserted, removed, t)
    \<and> table_inv t \<and> all_positive (table_view t)
    \<and> inserted = removed + total_shares (table_view t)"
  by (rule table_conserves_shares) simp

text \<open>
  C18. The table implements a bounded map from references to orders. An insert succeeds exactly
  when the reference is not live and fewer than \<open>Capacity\<close> orders are, and then binds it; a
  reduction of an unknown reference reports failure and changes nothing; a reduction of a live
  order reports its side and price, removes the requested shares clamped to what remains, and
  deletes the order when nothing remains. No other order is affected.
\<close>

theorem table_refines_map:
  assumes "table_inv t"
  shows "(let (ok, t') = table_insert r b p n t
          in ok = (table_view t r = None \<and> card (dom (table_view t)) < length t)
             \<and> table_view t' = (if ok then (table_view t)(r \<mapsto> (b, p, sint n)) else table_view t)
             \<and> table_inv t' \<and> length t' = length t)
    \<and> (case table_view t r of
         None \<Rightarrow> table_reduce r n t = Some (None, t)
       | Some (b', p', m) \<Rightarrow> 0 \<le> sint n \<and> 0 \<le> m \<longrightarrow>
           (\<exists>a t'. table_reduce r n t = Some (Some (b', p', a), t') \<and> sint a = min (sint n) m
             \<and> table_inv t' \<and> length t' = length t
             \<and> table_view t' = (if m \<le> sint n then (table_view t)(r := None)
                                else (table_view t)(r \<mapsto> (b', p', m - sint n)))))"
    (is "?insert \<and> ?reduce")
proof
  show ?insert
  proof (cases "table_view t r = None \<and> card (dom (table_view t)) < length t")
    case True
    with table.insert_ok [OF assms, of r b p n] show ?thesis by auto
  next
    case False
    then have "table_view t r \<noteq> None \<or> card (dom (table_view t)) = length t"
      using table.finite_view [OF assms] by auto
    with table.insert_refused [OF assms, of r b p n] False assms show ?thesis by auto
  qed
  have "m < 2 ^ 31" if "table_view t r = Some (b', p', m)" for b' p' m
    using that by (induction t) (auto split: if_splits simp: sint_less [of "_ :: i32", simplified])
  then show ?reduce
    using table.reduce_unknown [OF assms] table.reduce_known [OF assms, of r _ _ _ n]
    by (fastforce simp: fits_i32_def min_def split: option.split)
qed

theorem table_refines_map_witness:
  "case table_insert 7 True 1000 300 (table_new 1) of (ok, t) \<Rightarrow>
     ok \<and> table_view t 7 = Some (True, 1000, 300)"
  using table_refines_map [OF table_new_facts(1) [of 1], of 7 True 1000 300]
  by (simp split: prod.splits)

text \<open>
  C40. A reduction by a share count that is negative as an \<open>int32_t\<close> (an ITCH share field of
  \<open>2 ^ 31\<close> or more) is not clamped: it reports a negative number of applied shares and the
  order grows, and when the order would pass \<open>2 ^ 31 - 1\<close> shares the subtraction overflows,
  which is undefined.
\<close>

theorem table_reduce_negative:
  assumes "table_inv t" "table_view t r = Some (b, p, m)" "0 < m" "sint n < 0"
  shows "if m - sint n < 2 ^ 31
    then \<exists>t'. table_reduce r n t = Some (Some (b, p, n), t') \<and> table_view t' r = Some (b, p, m - sint n)
    else table_reduce r n t = None"
proof (cases "m - sint n < 2 ^ 31")
  case True
  with assms have "fits_i32 (m - min (sint n) m)" by (simp add: fits_i32_def min_def)
  from table.reduce_known [OF assms(1,2) this] obtain a t' where
    "table_reduce r n t = Some (Some (b, p, a), t')" "sint a = min (sint n) m"
    "table_view t' = (if m - min (sint n) m \<le> 0 then (table_view t)(r := None)
       else (table_view t)(r \<mapsto> (b, p, m - min (sint n) m)))" by blast
  moreover from this(2) assms have "a = n" by (simp add: sint_inject_i32 [symmetric] min_def)
  ultimately show ?thesis using assms True by (auto simp: min_def)
next
  case False
  have "table_reduce r n t = None"
    using assms(2)
  proof (induction t)
    case (Cons e es)
    then show ?case using False assms(3,4)
      by (auto simp: i32_sub_def fits_i32_def word_sless_alt split: if_splits)
  qed simp
  with False show ?thesis by simp
qed

theorem table_reduce_negative_witness:
  "\<exists>t'. table_reduce 7 (- 5) (snd (table_insert 7 True 1000 300 (table_new 1)))
       = Some (Some (True, 1000, - 5), t') \<and> table_view t' 7 = Some (True, 1000, 305)"
  using table_reduce_negative [of "snd (table_insert 7 True 1000 300 (table_new 1))" 7 True 1000 300 "- 5"]
  by (simp add: table_new_def entry_empty_def table_insert_def table_inv_def)

end
