(* ===== verification/Order_Book.thy ===== *)
theory Order_Book
  imports Fpga_Prelude
begin

text \<open>
  \<open>FiveLevelOrderBook\<close> of \<open>include/modules/order_book.hpp\<close>: two unsorted arrays of five price
  levels. Adding to or executing against a level can overflow \<open>int32_t\<close>; that is \<open>None\<close>.
\<close>

subsection \<open>The price ladder interface\<close>

text \<open>
  One side of a book as a client sees it: resting quantities by price. A ladder may refuse a new
  price when it has no room; the flag of \<open>ladder_add\<close> reports the dropped add.
\<close>

definition ladder_add ::
  "(int \<Rightarrow> bool) \<Rightarrow> bool \<Rightarrow> 'p \<Rightarrow> int \<Rightarrow> ('p \<rightharpoonup> int) \<Rightarrow> (('p \<rightharpoonup> int) \<times> bool) option" where
  "ladder_add fits room p n v =
     (case v p of
        Some m \<Rightarrow> if fits (m + n) then Some (v(p \<mapsto> m + n), False) else None
      | None \<Rightarrow> Some (if room then (v(p \<mapsto> n), False) else (v, True)))"

definition ladder_execute :: "(int \<Rightarrow> bool) \<Rightarrow> 'p \<Rightarrow> int \<Rightarrow> ('p \<rightharpoonup> int) \<Rightarrow> ('p \<rightharpoonup> int) option" where
  "ladder_execute fits p n v =
     (case v p of
        None \<Rightarrow> Some v
      | Some m \<Rightarrow> if fits (m - n) then Some (if m - n \<le> 0 then v(p := None) else v(p \<mapsto> m - n))
                  else None)"

definition resting :: "('p \<rightharpoonup> int) \<Rightarrow> 'p \<Rightarrow> int" where
  "resting v p = (case v p of None \<Rightarrow> 0 | Some m \<Rightarrow> m)"

definition ladder_positive :: "('p \<rightharpoonup> int) \<Rightarrow> bool" where
  "ladder_positive v \<longleftrightarrow> (\<forall>p m. v p = Some m \<longrightarrow> 0 < m)"

locale price_ladder =
  fixes add :: "'p \<Rightarrow> 'q \<Rightarrow> 's \<Rightarrow> ('s \<times> bool) option"
    and execute :: "'p \<Rightarrow> 'q \<Rightarrow> 's \<Rightarrow> 's option"
    and view :: "'s \<Rightarrow> ('p \<rightharpoonup> int)"
    and invar :: "'s \<Rightarrow> bool"
    and room :: "'s \<Rightarrow> bool"
    and amount :: "'q \<Rightarrow> int"
    and fits :: "int \<Rightarrow> bool"
  assumes add_refines:
      "invar s \<Longrightarrow> map_option (apfst view) (add p q s)
         = ladder_add fits (room s) p (amount q) (view s)"
    and add_invar: "invar s \<Longrightarrow> add p q s = Some (s', d) \<Longrightarrow> invar s'"
    and execute_refines:
      "invar s \<Longrightarrow> map_option view (execute p q s) = ladder_execute fits p (amount q) (view s)"
    and execute_invar: "invar s \<Longrightarrow> execute p q s = Some s' \<Longrightarrow> invar s'"
begin

lemma add_SomeD:
  assumes "invar s" "add p q s = Some (s', d)"
  shows "d \<longleftrightarrow> view s p = None \<and> \<not> room s"
    and "view s' = (if d then view s else (view s)(p \<mapsto> resting (view s) p + amount q))"
  using add_refines [OF assms(1), of p q] assms(2)
  by (auto simp: ladder_add_def resting_def split: option.splits if_splits)

lemma add_NoneD:
  assumes "invar s" "add p q s = None"
  shows "\<exists>m. view s p = Some m \<and> \<not> fits (m + amount q)"
  using add_refines [OF assms(1), of p q] assms(2)
  by (auto simp: ladder_add_def split: option.splits if_splits)

lemma execute_SomeD:
  assumes "invar s" "execute p q s = Some s'"
  shows "view s' = (if resting (view s) p \<le> amount q \<and> view s p \<noteq> None then (view s)(p := None)
           else if view s p = None then view s
           else (view s)(p \<mapsto> resting (view s) p - amount q))"
  using execute_refines [OF assms(1), of p q] assms(2)
  by (auto simp: ladder_execute_def resting_def split: option.splits if_splits)

lemma execute_NoneD:
  assumes "invar s" "execute p q s = None"
  shows "\<exists>m. view s p = Some m \<and> \<not> fits (m - amount q)"
  using execute_refines [OF assms(1), of p q] assms(2)
  by (auto simp: ladder_execute_def split: option.splits if_splits)

text \<open>Resting quantities after one operation with a positive amount.\<close>

lemma add_resting:
  assumes "invar s" "ladder_positive (view s)" "0 < amount q" "add p q s = Some (s', d)"
  shows "ladder_positive (view s')"
    and "resting (view s') p' = resting (view s) p' + (if p' = p \<and> \<not> d then amount q else 0)"
  using add_SomeD [OF assms(1,4)] assms(2,3)
  by (auto simp: ladder_positive_def resting_def split: option.splits if_splits)
    (metis add_strict_mono add_0)+

lemma execute_resting:
  assumes "invar s" "ladder_positive (view s)" "0 < amount q" "execute p q s = Some s'"
  shows "ladder_positive (view s')"
    and "resting (view s') p'
      = (if p' = p then max 0 (resting (view s) p' - amount q) else resting (view s) p')"
  using execute_SomeD [OF assms(1,4)] assms(2,3)
  by (auto simp: ladder_positive_def resting_def split: option.splits if_splits)

end

text \<open>A ladder that also reports its best level: the extreme price in the order \<open>better\<close>.\<close>

locale quoted_ladder = price_ladder +
  fixes best :: "'s \<Rightarrow> ('p \<times> int) option"
    and better :: "'p \<Rightarrow> 'p \<Rightarrow> bool"
  assumes best_None: "invar s \<Longrightarrow> best s = None \<longleftrightarrow> view s = Map.empty"
    and best_Some:
      "invar s \<Longrightarrow> best s = Some (p, m) \<Longrightarrow> view s p = Some m \<and> (\<forall>p' \<in> dom (view s). \<not> better p' p)"
    and better_total: "better p p' \<or> better p' p \<or> p = p'"
begin

text \<open>The quote depends on the resting quantities only, not on how the levels are stored.\<close>

lemma best_determined:
  assumes "invar s" "invar s'" "view s = view s'"
  shows "best s = best s'"
proof (cases "best s")
  case None
  with assms best_None [OF assms(1)] best_None [OF assms(2)] show ?thesis by simp
next
  case (Some a)
  then obtain p m where p: "best s = Some (p, m)" by (cases a) auto
  then have "best s' \<noteq> None" using assms best_None by (metis option.distinct(1))
  then obtain p' m' where p': "best s' = Some (p', m')" by auto
  have "p = p'"
    using best_Some [OF assms(1) p] best_Some [OF assms(2) p'] assms(3) better_total [of p p'] by auto
  with best_Some [OF assms(1) p] best_Some [OF assms(2) p'] assms(3) p p' show ?thesis by auto
qed

lemma best_positive:
  "invar s \<Longrightarrow> ladder_positive (view s) \<Longrightarrow> best s = Some (p, m) \<Longrightarrow> 0 < m \<and> m = resting (view s) p"
  using best_Some [of s p m] by (auto simp: ladder_positive_def resting_def)

end

subsection \<open>The book of the code\<close>

record book_level =
  bl_price :: i32
  bl_quantity :: i32
  bl_valid :: bool

type_synonym book_side = "book_level list"

record order_book =
  ob_bids :: book_side
  ob_asks :: book_side
  ob_collision :: bool
  ob_overflow :: u64

definition level_empty :: book_level where
  "level_empty = \<lparr>bl_price = 0, bl_quantity = 0, bl_valid = False\<rparr>"

definition levels :: nat where "levels = 5"

definition book_new :: order_book where
  "book_new = \<lparr>ob_bids = replicate levels level_empty, ob_asks = replicate levels level_empty,
     ob_collision = False, ob_overflow = 0\<rparr>"

definition book_reset :: "order_book \<Rightarrow> order_book" where
  "book_reset b = b\<lparr>ob_bids := replicate levels level_empty, ob_asks := replicate levels level_empty,
     ob_collision := False, ob_overflow := 0\<rparr>"

text \<open>The first loop of \<open>add\<close>: whether a valid level has the price, and that level increased.\<close>

fun add_existing :: "i32 \<Rightarrow> i32 \<Rightarrow> book_side \<Rightarrow> (bool \<times> book_side) option" where
  "add_existing p q [] = Some (False, [])"
| "add_existing p q (l # ls) =
     (if bl_valid l \<and> bl_price l = p
      then do { n \<leftarrow> i32_add (bl_quantity l) q; Some (True, l\<lparr>bl_quantity := n\<rparr> # ls) }
      else do { (found, ls') \<leftarrow> add_existing p q ls; Some (found, l # ls') })"

text \<open>The second loop: whether some level is not valid, and the first of them claimed.\<close>

fun claim_level :: "i32 \<Rightarrow> i32 \<Rightarrow> book_side \<Rightarrow> bool \<times> book_side" where
  "claim_level p q [] = (False, [])"
| "claim_level p q (l # ls) =
     (if \<not> bl_valid l then (True, \<lparr>bl_price = p, bl_quantity = q, bl_valid = True\<rparr> # ls)
      else (case claim_level p q ls of (claimed, ls') \<Rightarrow> (claimed, l # ls')))"

text \<open>\<open>add\<close> on one side; the flag says that the add was dropped.\<close>

definition side_add :: "i32 \<Rightarrow> i32 \<Rightarrow> book_side \<Rightarrow> (book_side \<times> bool) option" where
  "side_add p q s = do {
     (found, s1) \<leftarrow> add_existing p q s;
     if found then Some (s1, False)
     else (case claim_level p q s of (claimed, s2) \<Rightarrow> Some (s2, \<not> claimed)) }"

definition book_add :: "bool \<Rightarrow> i32 \<Rightarrow> i32 \<Rightarrow> order_book \<Rightarrow> order_book option" where
  "book_add bid p q b = do {
     (s, dropped) \<leftarrow> side_add p q (if bid then ob_bids b else ob_asks b);
     let b1 = (if bid then b\<lparr>ob_bids := s\<rparr> else b\<lparr>ob_asks := s\<rparr>);
     Some (if dropped then b1\<lparr>ob_overflow := ob_overflow b1 + 1\<rparr> else b1) }"

fun side_execute :: "i32 \<Rightarrow> i32 \<Rightarrow> book_side \<Rightarrow> book_side option" where
  "side_execute p q [] = Some []"
| "side_execute p q (l # ls) =
     (if bl_valid l \<and> bl_price l = p
      then do { n \<leftarrow> i32_sub (bl_quantity l) q;
                Some ((if n <=s 0 then level_empty else l\<lparr>bl_quantity := n\<rparr>) # ls) }
      else do { ls' \<leftarrow> side_execute p q ls; Some (l # ls') })"

definition book_execute :: "bool \<Rightarrow> i32 \<Rightarrow> i32 \<Rightarrow> order_book \<Rightarrow> order_book option" where
  "book_execute bid p q b = do {
     s \<leftarrow> side_execute p q (if bid then ob_bids b else ob_asks b);
     Some (if bid then b\<lparr>ob_bids := s\<rparr> else b\<lparr>ob_asks := s\<rparr>) }"

definition best_bid :: "order_book \<Rightarrow> book_level" where
  "best_bid b = foldl (\<lambda>best l. if bl_valid l \<and> (\<not> bl_valid best \<or> bl_price best <s bl_price l)
     then l else best) level_empty (ob_bids b)"

definition best_ask :: "order_book \<Rightarrow> book_level" where
  "best_ask b = foldl (\<lambda>best l. if bl_valid l \<and> (\<not> bl_valid best \<or> bl_price l <s bl_price best)
     then l else best) level_empty (ob_asks b)"

subsection \<open>A side as a price ladder\<close>

fun side_view :: "book_side \<Rightarrow> i32 \<rightharpoonup> int" where
  "side_view [] p = None"
| "side_view (l # ls) p =
     (if bl_valid l \<and> bl_price l = p then Some (sint (bl_quantity l)) else side_view ls p)"

definition live_prices :: "book_side \<Rightarrow> i32 list" where
  "live_prices s = map bl_price (filter bl_valid s)"

definition side_inv :: "book_side \<Rightarrow> bool" where
  "side_inv s \<longleftrightarrow> length s = levels \<and> distinct (live_prices s)"

definition side_room :: "book_side \<Rightarrow> bool" where
  "side_room s \<longleftrightarrow> card (dom (side_view s)) < levels"

lemma live_prices_simps [simp]:
  "live_prices [] = []"
  "live_prices (l # ls) = (if bl_valid l then bl_price l # live_prices ls else live_prices ls)"
  by (simp_all add: live_prices_def)

lemma dom_side_view: "dom (side_view s) = set (live_prices s)"
  by (induction s) (auto simp: dom_def split: if_splits)

lemma side_view_None: "side_view s p = None \<longleftrightarrow> p \<notin> set (live_prices s)"
  using dom_side_view [of s] by auto

lemma live_prices_le: "length (live_prices s) \<le> length s"
  by (simp add: live_prices_def)

lemma level_empty_simps [simp]:
  "bl_valid level_empty = False" "bl_price level_empty = 0" "bl_quantity level_empty = 0"
  by (simp_all add: level_empty_def)

lemma live_prices_new [simp]: "live_prices (replicate n level_empty) = []"
  by (induction n) simp_all

lemma side_view_new [simp]: "side_view (replicate n level_empty) = Map.empty"
  using dom_side_view [of "replicate n level_empty"] by simp

lemma side_inv_new [inv_intros]: "side_inv (replicate levels level_empty)"
  by (simp add: side_inv_def)

lemma side_room_eq: "side_inv s \<Longrightarrow> side_room s \<longleftrightarrow> length (live_prices s) < length s"
  by (simp add: side_room_def dom_side_view side_inv_def distinct_card)

text \<open>Each operation on one side, level by level.\<close>

lemma add_existing_None: "side_view s p = None \<Longrightarrow> add_existing p q s = Some (False, s)"
  by (induction s) (auto split: if_splits)

lemma add_existing_Some:
  "side_view s p = Some m \<Longrightarrow>
   if fits_i32 (m + sint q)
   then \<exists>s'. add_existing p q s = Some (True, s') \<and> live_prices s' = live_prices s
     \<and> length s' = length s \<and> side_view s' = (side_view s)(p \<mapsto> m + sint q)
   else add_existing p q s = None"
proof (induction s)
  case (Cons l ls)
  show ?case
  proof (cases "bl_valid l \<and> bl_price l = p")
    case True
    with Cons.prems show ?thesis by (auto simp: i32_add_def sint_i32_add fun_eq_iff)
  next
    case False
    with Cons.prems have "side_view ls p = Some m" by (auto split: if_splits)
    from Cons.IH [OF this] False show ?thesis by (auto simp: fun_eq_iff split: if_splits)
  qed
qed simp

lemma claim_level_result:
  "p \<notin> set (live_prices s) \<Longrightarrow> claim_level p q s = (c, s') \<Longrightarrow>
   c = (length (live_prices s) < length s) \<and> length s' = length s
   \<and> (if c then side_view s' = (side_view s)(p \<mapsto> sint q)
          \<and> set (live_prices s') = insert p (set (live_prices s))
          \<and> (distinct (live_prices s) \<longrightarrow> distinct (live_prices s'))
      else s' = s)"
proof (induction s arbitrary: s')
  case (Cons l ls)
  show ?case
  proof (cases "bl_valid l")
    case False
    have "length (live_prices ls) < Suc (length ls)" using live_prices_le [of ls] by simp
    with False Cons.prems show ?thesis by (auto simp: fun_eq_iff)
  next
    case True
    obtain c1 s1 where "claim_level p q ls = (c1, s1)" by fastforce
    then have IH: "c1 = (length (live_prices ls) < length ls) \<and> length s1 = length ls
       \<and> (if c1 then side_view s1 = (side_view ls)(p \<mapsto> sint q)
              \<and> set (live_prices s1) = insert p (set (live_prices ls))
              \<and> (distinct (live_prices ls) \<longrightarrow> distinct (live_prices s1))
          else s1 = ls)"
      and s': "c = c1" "s' = l # s1"
      using True Cons.prems Cons.IH [of s1] by auto
    from True Cons.prems(1) have "bl_price l \<noteq> p" by auto
    with IH have "c1 \<Longrightarrow> side_view (l # s1) = (side_view (l # ls))(p \<mapsto> sint q)"
      by (auto simp: fun_eq_iff)
    with IH s' True \<open>bl_price l \<noteq> p\<close> show ?thesis by auto
  qed
qed simp

lemma side_execute_None: "side_view s p = None \<Longrightarrow> side_execute p q s = Some s"
  by (induction s) (auto split: if_splits)

lemma side_execute_Some:
  "side_view s p = Some m \<Longrightarrow> distinct (live_prices s) \<Longrightarrow>
   if fits_i32 (m - sint q)
   then \<exists>s'. side_execute p q s = Some s' \<and> set (live_prices s') \<subseteq> set (live_prices s)
     \<and> distinct (live_prices s') \<and> length s' = length s
     \<and> side_view s' = (if m - sint q \<le> 0 then (side_view s)(p := None)
                       else (side_view s)(p \<mapsto> m - sint q))
   else side_execute p q s = None"
proof (induction s)
  case (Cons l ls)
  show ?case
  proof (cases "bl_valid l \<and> bl_price l = p")
    case True
    then have none: "side_view ls p = None" using Cons.prems(2) by (auto simp: side_view_None)
    show ?thesis
    proof (cases "fits_i32 (m - sint q)")
      case fit: True
      define h where "h = (if bl_quantity l - q <=s 0 then level_empty
        else l\<lparr>bl_quantity := bl_quantity l - q\<rparr>)"
      from True Cons.prems(1) have m: "m = sint (bl_quantity l)" by simp
      with fit have "sint (bl_quantity l - q) = m - sint q" by (simp add: sint_i32_sub)
      then have "side_view (h # ls) = (if m - sint q \<le> 0 then (side_view (l # ls))(p := None)
          else (side_view (l # ls))(p \<mapsto> m - sint q))"
        using True none by (auto simp: h_def word_sle_eq fun_eq_iff)
      moreover have "side_execute p q (l # ls) = Some (h # ls)"
        using True fit m by (simp add: i32_sub_def h_def)
      moreover have "set (live_prices (h # ls)) \<subseteq> set (live_prices (l # ls))"
        "distinct (live_prices (h # ls))" "length (h # ls) = length (l # ls)"
        using True Cons.prems(2) by (auto simp: h_def)
      ultimately show ?thesis using fit by (simp only: if_True) blast
    next
      case False
      with True Cons.prems(1) show ?thesis by (auto simp: i32_sub_def)
    qed
  next
    case False
    with Cons.prems have "side_view ls p = Some m" "distinct (live_prices ls)"
      by (auto split: if_splits)
    from Cons.IH [OF this] False Cons.prems(2) show ?thesis
      by (auto simp: fun_eq_iff split: if_splits)
  qed
qed simp

lemma side_add_live:
  assumes "side_inv s" "side_view s p = Some m"
  shows "if fits_i32 (m + sint q)
    then \<exists>s'. side_add p q s = Some (s', False) \<and> side_inv s' \<and> side_view s' = (side_view s)(p \<mapsto> m + sint q)
    else side_add p q s = None"
  using add_existing_Some [OF assms(2), of q] assms(1)
  by (auto simp: side_add_def side_inv_def split: if_splits)

lemma side_add_fresh:
  assumes "side_inv s" "side_view s p = None"
  shows "\<exists>s'. side_add p q s = Some (s', \<not> side_room s) \<and> side_inv s'
    \<and> side_view s' = (if side_room s then (side_view s)(p \<mapsto> sint q) else side_view s)"
proof -
  obtain c s' where c: "claim_level p q s = (c, s')" by fastforce
  have "p \<notin> set (live_prices s)" using assms(2) by (simp add: side_view_None)
  from claim_level_result [OF this c] side_room_eq [OF assms(1)] assms c show ?thesis
    by (auto simp: side_add_def add_existing_None side_inv_def)
qed

subsection \<open>The two sides are quoted ladders\<close>

text \<open>The best level of a side, as the code's two loops find it.\<close>

definition best_level :: "(i32 \<Rightarrow> i32 \<Rightarrow> bool) \<Rightarrow> book_side \<Rightarrow> book_level" where
  "best_level better s = foldl (\<lambda>best l. if bl_valid l \<and> (\<not> bl_valid best \<or> better (bl_price l) (bl_price best))
     then l else best) level_empty s"

definition level_quote :: "book_level \<Rightarrow> (i32 \<times> int) option" where
  "level_quote l = (if bl_valid l then Some (bl_price l, sint (bl_quantity l)) else None)"

lemma best_bid_level: "best_bid b = best_level (\<lambda>x y. y <s x) (ob_bids b)"
  by (simp add: best_bid_def best_level_def)

lemma best_ask_level: "best_ask b = best_level (\<lambda>x y. x <s y) (ob_asks b)"
  by (simp add: best_ask_def best_level_def)

lemma best_level_fold:
  assumes trans: "\<And>x y z. better x y \<Longrightarrow> better y z \<Longrightarrow> better x z"
    and irrefl: "\<And>x. \<not> better x x"
    and total: "\<And>x y. better x y \<or> better y x \<or> x = y"
    and r: "r = foldl (\<lambda>best l. if bl_valid l \<and> (\<not> bl_valid best \<or> better (bl_price l) (bl_price best))
      then l else best) l0 s"
  shows "(bl_valid r \<longleftrightarrow> bl_valid l0 \<or> live_prices s \<noteq> [])
    \<and> (bl_valid r \<longrightarrow> (r = l0 \<or> r \<in> set s)
         \<and> (bl_valid l0 \<longrightarrow> \<not> better (bl_price l0) (bl_price r))
         \<and> (\<forall>p \<in> set (live_prices s). \<not> better p (bl_price r)))"
  using r
proof (induction s arbitrary: l0 r)
  case Nil
  with irrefl show ?case by simp
next
  case (Cons l ls)
  define l1 where "l1 = (if bl_valid l \<and> (\<not> bl_valid l0 \<or> better (bl_price l) (bl_price l0)) then l else l0)"
  have IH: "(bl_valid r \<longleftrightarrow> bl_valid l1 \<or> live_prices ls \<noteq> [])
    \<and> (bl_valid r \<longrightarrow> (r = l1 \<or> r \<in> set ls)
         \<and> (bl_valid l1 \<longrightarrow> \<not> better (bl_price l1) (bl_price r))
         \<and> (\<forall>p \<in> set (live_prices ls). \<not> better p (bl_price r)))"
    using Cons.IH [of r l1] Cons.prems by (simp add: l1_def)
  have "bl_valid l \<Longrightarrow> bl_valid l1" "bl_valid l0 \<Longrightarrow> bl_valid l1"
    "bl_valid l1 \<Longrightarrow> bl_valid l \<or> bl_valid l0"
    by (auto simp: l1_def split: if_splits)
  moreover have "bl_valid l0 \<Longrightarrow> bl_valid r \<Longrightarrow> \<not> better (bl_price l0) (bl_price r)"
    using IH trans irrefl total by (metis l1_def)
  moreover have "bl_valid l \<Longrightarrow> bl_valid r \<Longrightarrow> \<not> better (bl_price l) (bl_price r)"
    using IH trans irrefl total by (metis l1_def)
  ultimately show ?case using IH by (auto simp: l1_def split: if_splits)
qed

lemma sless_order:
  "x <s y \<Longrightarrow> y <s z \<Longrightarrow> x <s z" "\<not> x <s x" "x <s y \<or> y <s x \<or> x = y" for x y z :: i32
  using sint_inject_i32 [of x y] by (auto simp: word_sless_alt)

lemma level_of_view:
  "l \<in> set s \<Longrightarrow> bl_valid l \<Longrightarrow> distinct (live_prices s) \<Longrightarrow>
   side_view s (bl_price l) = Some (sint (bl_quantity l))"
proof (induction s)
  case (Cons h s)
  have "bl_price l \<in> set (live_prices s)" if "l \<in> set s"
    using that Cons.prems(2) by (auto simp: live_prices_def)
  with Cons show ?case by (auto split: if_splits)
qed simp

lemma best_level_quote:
  assumes trans: "\<And>x y z. better x y \<Longrightarrow> better y z \<Longrightarrow> better x z"
    and irrefl: "\<And>x. \<not> better x x"
    and total: "\<And>x y. better x y \<or> better y x \<or> x = y"
    and inv: "side_inv s"
  shows "level_quote (best_level better s) = None \<longleftrightarrow> side_view s = Map.empty"
    and "level_quote (best_level better s) = Some (p, m) \<Longrightarrow>
      side_view s p = Some m \<and> (\<forall>p' \<in> dom (side_view s). \<not> better p' p)"
proof -
  have fold: "(bl_valid (best_level better s) \<longleftrightarrow> live_prices s \<noteq> [])
    \<and> (bl_valid (best_level better s) \<longrightarrow>
         (best_level better s = level_empty \<or> best_level better s \<in> set s)
         \<and> (\<forall>p \<in> set (live_prices s). \<not> better p (bl_price (best_level better s))))"
    using best_level_fold [OF trans irrefl total best_level_def [of better s]] by simp
  show "level_quote (best_level better s) = None \<longleftrightarrow> side_view s = Map.empty"
    using fold dom_side_view [of s] by (auto simp: level_quote_def)
  assume "level_quote (best_level better s) = Some (p, m)"
  then have l: "bl_valid (best_level better s)" "p = bl_price (best_level better s)"
    "m = sint (bl_quantity (best_level better s))"
    by (auto simp: level_quote_def split: if_splits)
  then have "best_level better s \<noteq> level_empty" by auto
  with fold l have "best_level better s \<in> set s" by auto
  from level_of_view [OF this l(1)] fold l inv show
    "side_view s p = Some m \<and> (\<forall>p' \<in> dom (side_view s). \<not> better p' p)"
    by (auto simp: side_inv_def dom_side_view)
qed

lemma side_add_refines:
  assumes "side_inv s"
  shows "map_option (apfst side_view) (side_add p q s)
      = ladder_add fits_i32 (side_room s) p (sint q) (side_view s)"
    and "side_add p q s = Some (s', d) \<Longrightarrow> side_inv s'"
proof -
  have "map_option (apfst side_view) (side_add p q s)
      = ladder_add fits_i32 (side_room s) p (sint q) (side_view s)
    \<and> (side_add p q s = Some (s', d) \<longrightarrow> side_inv s')"
  proof (cases "side_view s p")
    case None
    from side_add_fresh [OF assms None, of q] obtain s1 where "side_add p q s = Some (s1, \<not> side_room s)"
      "side_inv s1" "side_view s1 = (if side_room s then (side_view s)(p \<mapsto> sint q) else side_view s)"
      by blast
    with None show ?thesis by (auto simp: ladder_add_def)
  next
    case (Some m)
    show ?thesis
    proof (cases "fits_i32 (m + sint q)")
      case True
      with side_add_live [OF assms Some, of q] obtain s1 where "side_add p q s = Some (s1, False)"
        "side_inv s1" "side_view s1 = (side_view s)(p \<mapsto> m + sint q)" by auto
      with Some True show ?thesis by (auto simp: ladder_add_def)
    next
      case False
      with side_add_live [OF assms Some, of q] Some show ?thesis by (auto simp: ladder_add_def)
    qed
  qed
  then show "map_option (apfst side_view) (side_add p q s)
      = ladder_add fits_i32 (side_room s) p (sint q) (side_view s)"
    and "side_add p q s = Some (s', d) \<Longrightarrow> side_inv s'" by blast+
qed

lemma side_execute_refines:
  assumes "side_inv s"
  shows "map_option side_view (side_execute p q s)
      = ladder_execute fits_i32 p (sint q) (side_view s)"
    and "side_execute p q s = Some s' \<Longrightarrow> side_inv s'"
proof -
  have d: "distinct (live_prices s)" "length s = levels" using assms by (simp_all add: side_inv_def)
  have "map_option side_view (side_execute p q s)
      = ladder_execute fits_i32 p (sint q) (side_view s)
    \<and> (side_execute p q s = Some s' \<longrightarrow> side_inv s')"
  proof (cases "side_view s p")
    case None
    with side_execute_None [OF None, of q] assms show ?thesis by (auto simp: ladder_execute_def)
  next
    case (Some m)
    show ?thesis
    proof (cases "fits_i32 (m - sint q)")
      case True
      with side_execute_Some [OF Some d(1), of q] obtain s1 where "side_execute p q s = Some s1"
        "distinct (live_prices s1)" "length s1 = length s"
        "side_view s1 = (if m - sint q \<le> 0 then (side_view s)(p := None)
           else (side_view s)(p \<mapsto> m - sint q))" by auto
      with Some True d show ?thesis by (auto simp: ladder_execute_def side_inv_def)
    next
      case False
      with side_execute_Some [OF Some d(1), of q] Some show ?thesis by (auto simp: ladder_execute_def)
    qed
  qed
  then show "map_option side_view (side_execute p q s)
      = ladder_execute fits_i32 p (sint q) (side_view s)"
    and "side_execute p q s = Some s' \<Longrightarrow> side_inv s'" by blast+
qed

lemma side_ladder:
  "price_ladder side_add side_execute side_view side_inv side_room sint fits_i32"
  by unfold_locales (rule side_add_refines side_execute_refines; assumption)+

interpretation bids: quoted_ladder side_add side_execute side_view side_inv side_room sint fits_i32
  "\<lambda>s. level_quote (best_level (\<lambda>x y. y <s x) s)" "\<lambda>x y. y <s x"
proof (intro quoted_ladder.intro side_ladder quoted_ladder_axioms.intro)
  note quote = best_level_quote [of "\<lambda>x y. y <s x"]
  show "side_inv s \<Longrightarrow> (level_quote (best_level (\<lambda>x y. y <s x) s) = None) = (side_view s = Map.empty)"
    for s by (rule quote) (use sless_order in blast)+
  show "side_inv s \<Longrightarrow> level_quote (best_level (\<lambda>x y. y <s x) s) = Some (p, m) \<Longrightarrow>
      side_view s p = Some m \<and> (\<forall>p' \<in> dom (side_view s). \<not> p <s p')" for s p m
    by (rule quote) (use sless_order in blast)+
qed (use sless_order in blast)

interpretation asks: quoted_ladder side_add side_execute side_view side_inv side_room sint fits_i32
  "\<lambda>s. level_quote (best_level (\<lambda>x y. x <s y) s)" "\<lambda>x y. x <s y"
proof (intro quoted_ladder.intro side_ladder quoted_ladder_axioms.intro)
  note quote = best_level_quote [of "\<lambda>x y. x <s y"]
  show "side_inv s \<Longrightarrow> (level_quote (best_level (\<lambda>x y. x <s y) s) = None) = (side_view s = Map.empty)"
    for s by (rule quote) (use sless_order in blast)+
  show "side_inv s \<Longrightarrow> level_quote (best_level (\<lambda>x y. x <s y) s) = Some (p, m) \<Longrightarrow>
      side_view s p = Some m \<and> (\<forall>p' \<in> dom (side_view s). \<not> p' <s p)" for s p m
    by (rule quote) (use sless_order in blast)+
qed (use sless_order in blast)

subsection \<open>Histories of the book\<close>

datatype book_op = BookAdd bool i32 i32 | BookExecute bool i32 i32

fun book_step :: "book_op \<Rightarrow> order_book \<Rightarrow> order_book option" where
  "book_step (BookAdd bid p q) b = book_add bid p q b"
| "book_step (BookExecute bid p q) b = book_execute bid p q b"

fun book_run :: "book_op list \<Rightarrow> order_book \<Rightarrow> order_book option" where
  "book_run [] b = Some b"
| "book_run (op # ops) b = do { b' \<leftarrow> book_step op b; book_run ops b' }"

text \<open>The promise: two maps from prices to quantities of at most \<open>levels\<close> prices each, and the
  number of adds dropped.\<close>

type_synonym book_spec = "(i32 \<rightharpoonup> int) \<times> (i32 \<rightharpoonup> int) \<times> nat"

fun spec_step :: "book_op \<Rightarrow> book_spec \<Rightarrow> book_spec option" where
  "spec_step (BookAdd bid p q) (vb, va, n) =
     (let v = (if bid then vb else va) in
      do { (v', dropped) \<leftarrow> ladder_add fits_i32 (card (dom v) < levels) p (sint q) v;
           Some (if bid then v' else vb, if bid then va else v', if dropped then n + 1 else n) })"
| "spec_step (BookExecute bid p q) (vb, va, n) =
     do { v' \<leftarrow> ladder_execute fits_i32 p (sint q) (if bid then vb else va);
          Some (if bid then v' else vb, if bid then va else v', n) }"

fun spec_run :: "book_op list \<Rightarrow> book_spec \<Rightarrow> book_spec option" where
  "spec_run [] v = Some v"
| "spec_run (op # ops) v = do { v' \<leftarrow> spec_step op v; spec_run ops v' }"

definition book_inv :: "order_book \<Rightarrow> bool" where
  "book_inv b \<longleftrightarrow> side_inv (ob_bids b) \<and> side_inv (ob_asks b)"

definition book_models :: "order_book \<Rightarrow> book_spec \<Rightarrow> bool" where
  "book_models b v \<longleftrightarrow> book_inv b
     \<and> v = (side_view (ob_bids b), side_view (ob_asks b), snd (snd v))
     \<and> ob_overflow b = of_nat (snd (snd v))"

lemma book_new_models: "book_models book_new (Map.empty, Map.empty, 0)"
  by (simp add: book_models_def book_inv_def book_new_def side_inv_new)

lemma book_step_models:
  assumes "book_models b v"
  shows "rel_option book_models (book_step op b) (spec_step op v)"
proof -
  obtain n where v: "v = (side_view (ob_bids b), side_view (ob_asks b), n)"
    and inv: "side_inv (ob_bids b)" "side_inv (ob_asks b)" and n: "ob_overflow b = of_nat n"
    using assms by (auto simp: book_models_def book_inv_def)
  show ?thesis
  proof (cases op)
    case (BookAdd bid p q)
    define s where "s = (if bid then ob_bids b else ob_asks b)"
    have s: "side_inv s" using inv by (simp add: s_def)
    note add = bids.add_refines [OF s, of p q, unfolded side_room_def]
    show ?thesis
    proof (cases "side_add p q s")
      case None
      with add show ?thesis by (auto simp: BookAdd v book_add_def s_def Let_def)
    next
      case (Some r)
      then obtain s' d where r: "side_add p q s = Some (s', d)" by (cases r) auto
      with add have "ladder_add fits_i32 (card (dom (side_view s)) < levels) p (sint q) (side_view s)
          = Some (side_view s', d)" by simp
      with r bids.add_invar [OF s r] inv n show ?thesis
        by (cases bid) (auto simp: BookAdd v book_add_def s_def Let_def book_models_def book_inv_def)
    qed
  next
    case (BookExecute bid p q)
    define s where "s = (if bid then ob_bids b else ob_asks b)"
    have s: "side_inv s" using inv by (simp add: s_def)
    note exe = bids.execute_refines [OF s, of p q]
    show ?thesis
    proof (cases "side_execute p q s")
      case None
      with exe show ?thesis by (cases bid) (auto simp: BookExecute v book_execute_def s_def)
    next
      case (Some s')
      with exe have "ladder_execute fits_i32 p (sint q) (side_view s) = Some (side_view s')" by simp
      with Some bids.execute_invar [OF s Some] inv n show ?thesis
        by (cases bid) (auto simp: BookExecute v book_execute_def s_def book_models_def book_inv_def)
    qed
  qed
qed

lemma book_run_models:
  "book_models b v \<Longrightarrow> rel_option book_models (book_run ops b) (spec_run ops v)"
proof (induction ops arbitrary: b v)
  case (Cons op ops)
  show ?case
    using book_step_models [OF Cons.prems, of op] Cons.IH
    by (cases "book_step op b"; cases "spec_step op v") auto
qed simp

subsection \<open>Quantities over a history\<close>

definition book_view :: "bool \<Rightarrow> order_book \<Rightarrow> i32 \<rightharpoonup> int" where
  "book_view bid b = side_view (if bid then ob_bids b else ob_asks b)"

fun op_quantity :: "book_op \<Rightarrow> int" where
  "op_quantity (BookAdd bid p q) = sint q"
| "op_quantity (BookExecute bid p q) = sint q"

fun op_added :: "book_op \<Rightarrow> int" where
  "op_added (BookAdd bid p q) = sint q"
| "op_added (BookExecute bid p q) = 0"

text \<open>The quantity that rests at a price when no add is dropped: an execution never takes more
  than what is there.\<close>

fun expected_quantity :: "bool \<Rightarrow> i32 \<Rightarrow> int \<Rightarrow> book_op list \<Rightarrow> int" where
  "expected_quantity bid p n [] = n"
| "expected_quantity bid p n (BookAdd bid' p' q # ops) =
     expected_quantity bid p (if bid' = bid \<and> p' = p then n + sint q else n) ops"
| "expected_quantity bid p n (BookExecute bid' p' q # ops) =
     expected_quantity bid p (if bid' = bid \<and> p' = p then max 0 (n - sint q) else n) ops"

definition book_positive :: "order_book \<Rightarrow> bool" where
  "book_positive b \<longleftrightarrow> book_inv b \<and> ladder_positive (side_view (ob_bids b))
     \<and> ladder_positive (side_view (ob_asks b))"

lemma book_new_positive: "book_positive book_new"
  by (simp add: book_positive_def book_inv_def book_view_def book_new_def side_inv_new
      ladder_positive_def)

lemma book_add_accounts:
  assumes "book_positive b" "0 < sint q" "\<forall>bid p. resting (book_view bid b) p + sint q < 2 ^ 31"
  shows "\<exists>b' k. book_add bid p q b = Some b' \<and> book_positive b' \<and> k \<le> 1
    \<and> ob_overflow b' = ob_overflow b + of_nat k
    \<and> (\<forall>bid' p'. resting (book_view bid' b') p'
         = resting (book_view bid' b) p' + (if bid = bid' \<and> p = p' \<and> k = 0 then sint q else 0))"
proof -
  define s where "s = (if bid then ob_bids b else ob_asks b)"
  have s: "side_inv s" "ladder_positive (side_view s)"
    using assms(1) by (auto simp: s_def book_positive_def book_inv_def book_view_def)
  have "side_add p q s \<noteq> None"
  proof
    assume "side_add p q s = None"
    with bids.add_NoneD [OF s(1)] obtain m where "side_view s p = Some m" "\<not> fits_i32 (m + sint q)"
      by blast
    moreover have "resting (side_view s) p + sint q < 2 ^ 31"
      using assms(3) by (auto simp: s_def book_view_def)
    moreover have "0 < m" using s(2) calculation(1) by (simp add: ladder_positive_def)
    ultimately show False using assms(2) by (simp add: fits_i32_def resting_def)
  qed
  then obtain s' d where r: "side_add p q s = Some (s', d)" by auto
  note add = bids.add_invar [OF s(1) r] bids.add_resting [OF s(1,2) assms(2) r]
  define b1 where "b1 = (if bid then b\<lparr>ob_bids := s'\<rparr> else b\<lparr>ob_asks := s'\<rparr>)"
  define b' where "b' = (if d then b1\<lparr>ob_overflow := ob_overflow b1 + 1\<rparr> else b1)"
  have "book_add bid p q b = Some b'"
    using r by (simp add: book_add_def s_def b1_def b'_def Let_def)
  moreover have "book_positive b'"
    using assms(1) add(1,2) by (auto simp: book_positive_def book_inv_def book_view_def b'_def b1_def)
  moreover have "ob_overflow b' = ob_overflow b + of_nat (if d then 1 else 0)"
    by (simp add: b'_def b1_def)
  moreover have "resting (book_view bid' b') p' = resting (book_view bid' b) p'
      + (if bid = bid' \<and> p = p' \<and> (if d then 1 else 0 :: nat) = 0 then sint q else 0)" for bid' p'
    using add(3) [of p'] by (auto simp: book_view_def b'_def b1_def s_def split: if_splits)
  ultimately show ?thesis by (intro exI [of _ b'] exI [of _ "if d then 1 else 0"]) simp
qed

lemma book_execute_accounts:
  assumes "book_positive b" "0 < sint q"
  shows "\<exists>b'. book_execute bid p q b = Some b' \<and> book_positive b' \<and> ob_overflow b' = ob_overflow b
    \<and> (\<forall>bid' p'. resting (book_view bid' b') p'
         = (if bid = bid' \<and> p = p' then max 0 (resting (book_view bid' b) p' - sint q)
            else resting (book_view bid' b) p'))"
proof -
  define s where "s = (if bid then ob_bids b else ob_asks b)"
  have s: "side_inv s" "ladder_positive (side_view s)"
    using assms(1) by (auto simp: s_def book_positive_def book_inv_def book_view_def)
  have "side_execute p q s \<noteq> None"
  proof
    assume "side_execute p q s = None"
    with bids.execute_NoneD [OF s(1)] obtain m where m: "side_view s p = Some m" "\<not> fits_i32 (m - sint q)"
      by blast
    have "fits_i32 m" using m(1) by (induction s) (auto split: if_splits)
    moreover have "0 < m" using s(2) m(1) by (simp add: ladder_positive_def)
    ultimately show False
      using m(2) assms(2) sint_less [of q] by (simp add: fits_i32_def)
  qed
  then obtain s' where r: "side_execute p q s = Some s'" by auto
  note exe = bids.execute_invar [OF s(1) r] bids.execute_resting [OF s(1,2) assms(2) r]
  define b' where "b' = (if bid then b\<lparr>ob_bids := s'\<rparr> else b\<lparr>ob_asks := s'\<rparr>)"
  have "book_execute bid p q b = Some b'"
    using r by (simp add: book_execute_def s_def b'_def)
  moreover have "book_positive b'" "ob_overflow b' = ob_overflow b"
    using assms(1) exe(1,2) by (auto simp: book_positive_def book_inv_def book_view_def b'_def)
  moreover have "resting (book_view bid' b') p'
         = (if bid = bid' \<and> p = p' then max 0 (resting (book_view bid' b) p' - sint q)
            else resting (book_view bid' b) p')" for bid' p'
    using exe(3) [of p'] by (auto simp: book_view_def b'_def s_def)
  ultimately show ?thesis by blast
qed

lemma op_added_nonneg: "0 < op_quantity op \<Longrightarrow> 0 \<le> op_added op"
  by (cases op) auto

lemma resting_nonneg: "ladder_positive v \<Longrightarrow> 0 \<le> resting v p"
  by (auto simp: ladder_positive_def resting_def less_imp_le split: option.split)

text \<open>One operation, in the terms of the sums of a history.\<close>

lemma book_step_accounts:
  assumes "book_positive b" "0 < op_quantity op" and small: "\<forall>bid p. resting (book_view bid b) p + op_added op < 2 ^ 31"
  shows "\<exists>b' j. book_step op b = Some b' \<and> book_positive b' \<and> j \<le> 1 \<and> ob_overflow b' = ob_overflow b + of_nat j
     \<and> (\<forall>bid p. resting (book_view bid b') p \<le> resting (book_view bid b) p + op_added op)
     \<and> (j = 0 \<longrightarrow> (\<forall>bid p ops. expected_quantity bid p (resting (book_view bid b) p) (op # ops)
           = expected_quantity bid p (resting (book_view bid b') p) ops))"
proof (cases op)
  case (BookAdd bid p q)
  obtain b1 j where b1: "book_add bid p q b = Some b1" "book_positive b1" "j \<le> 1"
    "ob_overflow b1 = ob_overflow b + of_nat j"
    "\<forall>bid' p'. resting (book_view bid' b1) p'
       = resting (book_view bid' b) p' + (if bid = bid' \<and> p = p' \<and> j = 0 then sint q else 0)"
    using book_add_accounts [OF assms(1), of q bid p] small assms(2) BookAdd by auto
  then show ?thesis using assms(2) BookAdd by (intro exI [of _ b1] exI [of _ j]) simp
next
  case (BookExecute bid p q)
  obtain b1 where b1: "book_execute bid p q b = Some b1" "book_positive b1" "ob_overflow b1 = ob_overflow b"
    "\<forall>bid' p'. resting (book_view bid' b1) p'
       = (if bid = bid' \<and> p = p' then max 0 (resting (book_view bid' b) p' - sint q)
          else resting (book_view bid' b) p')"
    using book_execute_accounts [OF assms(1), of q bid p] assms(2) BookExecute by auto
  moreover have "resting (book_view bid' b1) p' \<le> resting (book_view bid' b) p'" for bid' p'
    using b1(4) assms(1,2) BookExecute by (auto simp: book_positive_def book_view_def intro: resting_nonneg)
  ultimately show ?thesis using BookExecute by (intro exI [of _ b1] exI [of _ 0]) simp
qed

lemma book_run_accounts:
  "book_positive b \<Longrightarrow> \<forall>op \<in> set ops. 0 < op_quantity op \<Longrightarrow>
   \<forall>bid p. resting (book_view bid b) p + (\<Sum>op \<leftarrow> ops. op_added op) < 2 ^ 31 \<Longrightarrow>
   \<exists>b' k. book_run ops b = Some b' \<and> book_positive b' \<and> k \<le> length ops
     \<and> ob_overflow b' = ob_overflow b + of_nat k
     \<and> (k = 0 \<longrightarrow> (\<forall>bid p. resting (book_view bid b') p
           = expected_quantity bid p (resting (book_view bid b) p) ops))"
proof (induction ops arbitrary: b)
  case (Cons op ops)
  have rest: "0 \<le> (\<Sum>op \<leftarrow> ops. op_added op)"
    using Cons.prems(2) by (intro sum_list_nonneg) (auto intro: op_added_nonneg)
  have bound: "resting (book_view bid b) p + (op_added op + (\<Sum>op \<leftarrow> ops. op_added op)) < 2 ^ 31" for bid p
    using Cons.prems(3) by simp
  have "resting (book_view bid b) p + op_added op < 2 ^ 31" for bid p using bound [of bid p] rest by simp
  with Cons.prems(1,2) obtain b1 j where b1: "book_step op b = Some b1" "book_positive b1" "j \<le> 1"
    "ob_overflow b1 = ob_overflow b + of_nat j"
    "\<And>bid p. resting (book_view bid b1) p \<le> resting (book_view bid b) p + op_added op"
    "j = 0 \<Longrightarrow> expected_quantity bid p (resting (book_view bid b) p) (op # ops)
         = expected_quantity bid p (resting (book_view bid b1) p) ops" for bid p
    using book_step_accounts [of b op] by (metis list.set_intros(1))
  have "resting (book_view bid b1) p + (\<Sum>op \<leftarrow> ops. op_added op) < 2 ^ 31" for bid p
    using bound [of bid p] b1(5) [of bid p] by simp
  with Cons.IH [OF b1(2)] Cons.prems(2) obtain b2 k where b2: "book_run ops b1 = Some b2"
    "book_positive b2" "k \<le> length ops" "ob_overflow b2 = ob_overflow b1 + of_nat k"
    "k = 0 \<longrightarrow> (\<forall>bid p. resting (book_view bid b2) p
         = expected_quantity bid p (resting (book_view bid b1) p) ops)"
    by auto
  then show ?case using b1 by (intro exI [of _ b2] exI [of _ "k + j"]) simp
qed auto

subsection \<open>Properties\<close>

text \<open>
  C15. Over any history of adds and executions the book behaves as two maps from prices to
  quantities that hold at most \<open>levels\<close> prices each: the same adds merge, claim a level or are
  dropped, the same executions reduce or delete, and \<open>overflow_count\<close> is the number of dropped
  adds modulo \<open>2 ^ 64\<close>; the code has undefined behaviour exactly when the promise has none to
  give (a quantity leaves the range of \<open>int32_t\<close>).
\<close>

theorem book_refines_maps:
  "map_option (\<lambda>b. (side_view (ob_bids b), side_view (ob_asks b), ob_overflow b)) (book_run ops book_new)
   = map_option (\<lambda>(vb, va, n). (vb, va, of_nat n)) (spec_run ops (Map.empty, Map.empty, 0))"
  using book_run_models [OF book_new_models, of ops]
  by (cases "book_run ops book_new"; cases "spec_run ops (Map.empty, Map.empty, 0)")
    (auto simp: book_models_def)

text \<open>
  C16. The best quotes: after any defined history, \<open>best_bid\<close> is not valid exactly when no bid
  rests, and otherwise it is the highest price with a resting bid, with the quantity resting
  there; \<open>best_ask\<close> likewise is the lowest resting ask.
\<close>

theorem book_best_quotes:
  assumes "book_run ops book_new = Some b"
  shows "(if bl_valid (best_bid b)
      then book_view True b (bl_price (best_bid b)) = Some (sint (bl_quantity (best_bid b)))
        \<and> (\<forall>p \<in> dom (book_view True b). p <=s bl_price (best_bid b))
      else book_view True b = Map.empty)
    \<and> (if bl_valid (best_ask b)
      then book_view False b (bl_price (best_ask b)) = Some (sint (bl_quantity (best_ask b)))
        \<and> (\<forall>p \<in> dom (book_view False b). bl_price (best_ask b) <=s p)
      else book_view False b = Map.empty)"
proof -
  have inv: "side_inv (ob_bids b)" "side_inv (ob_asks b)"
    using book_run_models [OF book_new_models, of ops] assms
    by (auto simp: book_models_def book_inv_def option_rel_Some1)
  show ?thesis
    using bids.best_None [OF inv(1)] bids.best_Some [OF inv(1)]
      asks.best_None [OF inv(2)] asks.best_Some [OF inv(2)]
    by (simp add: best_bid_level best_ask_level book_view_def level_quote_def
        word_sless_alt word_sle_eq not_less split: if_splits)
qed

theorem book_best_quotes_witness:
  "case book_run [BookAdd True 100 5, BookAdd True 102 7, BookAdd False 105 1, BookExecute False 105 9]
     book_new of
     None \<Rightarrow> False
   | Some b \<Rightarrow> best_bid b = \<lparr>bl_price = 102, bl_quantity = 7, bl_valid = True\<rparr>
       \<and> book_view True b 102 = Some 7 \<and> book_view False b = Map.empty"
proof -
  define ops where "ops = [BookAdd True 100 5, BookAdd True 102 7, BookAdd False 105 1, BookExecute False 105 9]"
  have "\<exists>b. book_run ops book_new = Some b \<and> best_bid b = \<lparr>bl_price = 102, bl_quantity = 7, bl_valid = True\<rparr>
      \<and> \<not> bl_valid (best_ask b)"
    by (simp add: ops_def book_new_def levels_def numeral_eq_Suc level_empty_def book_add_def
        side_add_def i32_add_def i32_sub_def fits_i32_def Let_def book_execute_def best_bid_def best_ask_def
        word_sle_eq word_sless_alt)
  then obtain b where "book_run ops book_new = Some b"
    "best_bid b = \<lparr>bl_price = 102, bl_quantity = 7, bl_valid = True\<rparr>" "\<not> bl_valid (best_ask b)" by blast
  with book_best_quotes [of ops b] show ?thesis by (simp add: ops_def)
qed

text \<open>
  C17. Quantities are conserved: if every quantity is positive and the quantities added sum to
  less than \<open>2 ^ 31\<close>, the history is defined, every resting level is positive, and unless an
  add was dropped (\<open>overflow_count\<close> counts them) each price holds what was added there less
  what was executed there, an execution never taking more than rests.
\<close>

theorem book_conserves_quantity:
  assumes "\<forall>op \<in> set ops. 0 < op_quantity op" "(\<Sum>op \<leftarrow> ops. op_added op) < 2 ^ 31"
    "length ops < 2 ^ 64"
  shows "\<exists>b. book_run ops book_new = Some b
    \<and> (\<forall>bid. ladder_positive (book_view bid b))
    \<and> (ob_overflow b = 0 \<longrightarrow>
         (\<forall>bid p. resting (book_view bid b) p = expected_quantity bid p 0 ops))"
proof -
  have new: "resting (book_view bid book_new) p = 0" "ob_overflow book_new = 0" for bid p
    by (simp_all add: book_view_def book_new_def resting_def)
  obtain b k where b: "book_run ops book_new = Some b" "book_positive b" "k \<le> length ops"
    "ob_overflow b = of_nat k"
    "k = 0 \<longrightarrow> (\<forall>bid p. resting (book_view bid b) p = expected_quantity bid p 0 ops)"
    using book_run_accounts [OF book_new_positive assms(1)] assms(2) new by auto
  have "k = 0" if "ob_overflow b = 0"
  proof -
    have "unat (of_nat k :: u64) = k" using b(3) assms(3) by (simp add: unat_of_nat)
    then show ?thesis using that b(4) by (metis unat_0)
  qed
  with b show ?thesis by (auto simp: book_positive_def book_view_def)
qed

theorem book_conserves_quantity_witness:
  "\<exists>b. book_run [BookAdd True 100 5, BookAdd True 100 7, BookExecute True 100 4, BookAdd False 105 1,
       BookExecute False 105 9] book_new = Some b
    \<and> (\<forall>bid. ladder_positive (book_view bid b))
    \<and> (ob_overflow b = 0 \<longrightarrow> resting (book_view True b) 100 = 8 \<and> resting (book_view False b) 105 = 0)"
  using book_conserves_quantity [of "[BookAdd True 100 5, BookAdd True 100 7, BookExecute True 100 4,
       BookAdd False 105 1, BookExecute False 105 9]"]
  by auto

end
