(* ===== verification/Ofi_Dsp.thy ===== *)
theory Ofi_Dsp
  imports Fpga_Prelude "HOL-Library.Signed_Division"
begin

text \<open>
  \<open>MicroPriceLut\<close> and \<open>OfiDsp\<close> of \<open>include/modules/ofi_dsp.hpp\<close>: the micro-price table and the
  three-stage pipeline that computes the order-flow imbalance of consecutive best quotes. The
  \<open>int64_t\<close> intermediates are integers; \<open>ofi_value_fits\<close> shows that none of them leaves 64 bits.
\<close>

subsection \<open>The micro-price table\<close>

definition imbalance_min :: int where "imbalance_min = - 16"
definition imbalance_max :: int where "imbalance_max = 16"
definition spread_levels :: nat where "spread_levels = 8"

text \<open>C++ division truncates towards zero, as \<open>sdiv\<close> does.\<close>

definition lut_table :: "i32 list list" where
  "lut_table = map (\<lambda>i. map (\<lambda>s. word_of_int (((int i - 16) * int (s + 1) * 1000) sdiv 16))
     [0..<spread_levels]) [0..<33]"

definition lut_lookup :: "int \<Rightarrow> nat \<Rightarrow> i32" where
  "lut_lookup imbalance spread_ticks =
     (let clamped = (if imbalance < imbalance_min then imbalance_min
                     else if imbalance > imbalance_max then imbalance_max else imbalance);
          spread = (if spread_ticks = 0 then 1
                    else if spread_ticks > spread_levels then spread_levels else spread_ticks)
      in lut_table ! nat (clamped - imbalance_min) ! (spread - 1))"

lemma sdiv_bounds: "- (16 * 8000) \<le> x \<Longrightarrow> x \<le> 16 * 8000 \<Longrightarrow> \<bar>(x::int) sdiv 16\<bar> \<le> 8000"
  by (auto simp: signed_divide_int_def sgn_if abs_if)

lemma sdiv_minus: "(- x) sdiv 16 = - (x sdiv (16 :: int))"
  by (simp add: signed_divide_int_def sgn_if)

subsection \<open>Order-flow imbalance\<close>

record book_quote =
  bq_bid_price :: i32
  bq_bid_qty :: i32
  bq_ask_price :: i32
  bq_ask_qty :: i32

record ofi_stage =
  os_valid :: bool
  os_value :: i32

record ofi_dsp =
  od_previous :: book_quote
  od_valid_previous :: bool
  od_pipeline :: "ofi_stage list"
  od_output :: ofi_stage

definition quote_empty :: book_quote where
  "quote_empty = \<lparr>bq_bid_price = 0, bq_bid_qty = 0, bq_ask_price = 0, bq_ask_qty = 0\<rparr>"

definition stage_empty :: ofi_stage where
  "stage_empty = \<lparr>os_valid = False, os_value = 0\<rparr>"

definition pipeline_stages :: nat where "pipeline_stages = 3"

definition ofi_new :: ofi_dsp where
  "ofi_new = \<lparr>od_previous = quote_empty, od_valid_previous = False,
     od_pipeline = replicate pipeline_stages stage_empty, od_output = stage_empty\<rparr>"

definition ofi_reset :: "ofi_dsp \<Rightarrow> ofi_dsp" where
  "ofi_reset d = d\<lparr>od_previous := quote_empty, od_valid_previous := False,
     od_pipeline := map (\<lambda>_. stage_empty) (od_pipeline d), od_output := stage_empty\<rparr>"

definition ofi_side_bid :: "ofi_dsp \<Rightarrow> book_quote \<Rightarrow> int" where
  "ofi_side_bid d q =
     (if \<not> od_valid_previous d \<or> bq_bid_price (od_previous d) <s bq_bid_price q then sint (bq_bid_qty q)
      else if bq_bid_price q = bq_bid_price (od_previous d)
      then sint (bq_bid_qty q) - sint (bq_bid_qty (od_previous d))
      else - sint (bq_bid_qty (od_previous d)))"

definition ofi_side_ask :: "ofi_dsp \<Rightarrow> book_quote \<Rightarrow> int" where
  "ofi_side_ask d q =
     (if \<not> od_valid_previous d \<or> bq_ask_price q <s bq_ask_price (od_previous d) then - sint (bq_ask_qty q)
      else if bq_ask_price q = bq_ask_price (od_previous d)
      then sint (bq_ask_qty (od_previous d)) - sint (bq_ask_qty q)
      else sint (bq_ask_qty (od_previous d)))"

definition saturate :: "int \<Rightarrow> i32" where
  "saturate v = (if v > 2 ^ 31 - 1 then word_of_int (2 ^ 31 - 1)
     else if v < - (2 ^ 31) then word_of_int (- (2 ^ 31)) else word_of_int v)"

text \<open>The loop that advances the pipeline, from the last stage down.\<close>

definition ofi_shift :: "ofi_stage list \<Rightarrow> ofi_stage list" where
  "ofi_shift p = foldl (\<lambda>p i. p[i := p ! (i - 1)]) p (rev [1..<length p])"

definition ofi_posedge :: "book_quote \<Rightarrow> ofi_dsp \<Rightarrow> ofi_dsp" where
  "ofi_posedge q d =
     (let v = ofi_side_bid d q + ofi_side_ask d q;
          p = (ofi_shift (od_pipeline d))[0 := \<lparr>os_valid = True, os_value = saturate v\<rparr>]
      in d\<lparr>od_pipeline := p, od_previous := q, od_valid_previous := True\<rparr>)"

definition ofi_posedge_idle :: "ofi_dsp \<Rightarrow> ofi_dsp" where
  "ofi_posedge_idle d = d\<lparr>od_pipeline := (ofi_shift (od_pipeline d))[0 := stage_empty]\<rparr>"

definition ofi_negedge :: "ofi_dsp \<Rightarrow> ofi_dsp" where
  "ofi_negedge d = d\<lparr>od_output := last (od_pipeline d)\<rparr>"

lemma sint_i32_range: "- (2 ^ 31) \<le> sint (a :: i32)" "sint (a :: i32) < 2 ^ 31"
  using sint_greater_eq [of a] sint_less [of a] by simp_all

lemma ofi_value_fits:
  "fits_i64 (ofi_side_bid d q)" "fits_i64 (ofi_side_ask d q)"
  "fits_i64 (ofi_side_bid d q + ofi_side_ask d q)"
proof -
  note r = sint_i32_range [of "bq_bid_qty q"] sint_i32_range [of "bq_ask_qty q"]
    sint_i32_range [of "bq_bid_qty (od_previous d)"] sint_i32_range [of "bq_ask_qty (od_previous d)"]
  have "\<bar>ofi_side_bid d q\<bar> \<le> 2 ^ 32" "\<bar>ofi_side_ask d q\<bar> \<le> 2 ^ 32"
    using r by (auto simp: ofi_side_bid_def ofi_side_ask_def)
  then show "fits_i64 (ofi_side_bid d q)" "fits_i64 (ofi_side_ask d q)"
    "fits_i64 (ofi_side_bid d q + ofi_side_ask d q)" by (auto simp: fits_i64_def)
qed

lemma saturate_value: "sint (saturate v) = max (- (2 ^ 31)) (min (2 ^ 31 - 1) v)"
proof -
  have "fits_i32 (max (- (2 ^ 31)) (min (2 ^ 31 - 1) v))" by (auto simp: fits_i32_def)
  moreover have "saturate v = word_of_int (max (- (2 ^ 31)) (min (2 ^ 31 - 1) v))"
    by (auto simp: saturate_def max_def min_def)
  ultimately show ?thesis by (simp only: sint_of_int_i32)
qed

lemma ofi_shift_three [simp]: "ofi_shift [a, b, c] = [a, a, b]"
  by (simp add: ofi_shift_def upt_rec numeral_eq_Suc)

text \<open>The formula of Cont, Kukanov and Stoikov; the first quote counts as new on both sides.\<close>

fun cks :: "book_quote option \<Rightarrow> book_quote \<Rightarrow> int" where
  "cks None q = sint (bq_bid_qty q) - sint (bq_ask_qty q)"
| "cks (Some q') q =
     of_bool (bq_bid_price q' <=s bq_bid_price q) * sint (bq_bid_qty q)
     - of_bool (bq_bid_price q <=s bq_bid_price q') * sint (bq_bid_qty q')
     - of_bool (bq_ask_price q <=s bq_ask_price q') * sint (bq_ask_qty q)
     + of_bool (bq_ask_price q' <=s bq_ask_price q) * sint (bq_ask_qty q')"

lemma ofi_sides_cks:
  "ofi_side_bid d q + ofi_side_ask d q
   = cks (if od_valid_previous d then Some (od_previous d) else None) q"
  by (auto simp: ofi_side_bid_def ofi_side_ask_def word_sless_alt word_sle_eq sint_inject_i32 [symmetric])

text \<open>One clock cycle with an optional new quote, and what a sequence of cycles puts out.\<close>

definition ofi_cycle :: "book_quote option \<Rightarrow> ofi_dsp \<Rightarrow> ofi_dsp" where
  "ofi_cycle i d = ofi_negedge (case i of None \<Rightarrow> ofi_posedge_idle d | Some q \<Rightarrow> ofi_posedge q d)"

fun ofi_outputs :: "ofi_dsp \<Rightarrow> book_quote option list \<Rightarrow> ofi_stage list" where
  "ofi_outputs d [] = []"
| "ofi_outputs d (i # ins) = (let d' = ofi_cycle i d in od_output d' # ofi_outputs d' ins)"

fun ofi_expected :: "book_quote option \<Rightarrow> book_quote option list \<Rightarrow> ofi_stage list" where
  "ofi_expected prev [] = []"
| "ofi_expected prev (None # ins) = stage_empty # ofi_expected prev ins"
| "ofi_expected prev (Some q # ins) =
     \<lparr>os_valid = True, os_value = saturate (cks prev q)\<rparr> # ofi_expected (Some q) ins"

lemma ofi_outputs_expected:
  "od_pipeline d = [a, b, c] \<Longrightarrow>
   ofi_outputs d ins = take (length ins)
     (b # a # ofi_expected (if od_valid_previous d then Some (od_previous d) else None) ins)"
proof (induction ins arbitrary: d a b c)
  case (Cons i ins)
  define s where "s = (case i of None \<Rightarrow> stage_empty | Some q \<Rightarrow>
    \<lparr>os_valid = True,
     os_value = saturate (cks (if od_valid_previous d then Some (od_previous d) else None) q)\<rparr>)"
  have pipe: "od_pipeline (ofi_cycle i d) = [s, a, b]" and out: "od_output (ofi_cycle i d) = b"
    using Cons.prems
    by (simp_all add: ofi_cycle_def ofi_negedge_def ofi_posedge_def ofi_posedge_idle_def Let_def
        s_def ofi_sides_cks split: option.split)
  have prev: "(if od_valid_previous (ofi_cycle i d) then Some (od_previous (ofi_cycle i d)) else None)
      = (case i of None \<Rightarrow> if od_valid_previous d then Some (od_previous d) else None | Some q \<Rightarrow> Some q)"
    by (simp add: ofi_cycle_def ofi_negedge_def ofi_posedge_def ofi_posedge_idle_def Let_def
        split: option.split)
  have "ofi_expected (if od_valid_previous d then Some (od_previous d) else None) (i # ins)
      = s # ofi_expected (if od_valid_previous (ofi_cycle i d) then Some (od_previous (ofi_cycle i d)) else None) ins"
    unfolding prev by (cases i) (simp_all add: s_def)
  with Cons.IH [OF pipe] out show ?case by (simp add: Let_def)
qed simp

subsection \<open>Properties\<close>

text \<open>
  C37. The micro-price adjustment: for every imbalance and every spread, in or out of range, the
  lookup is inside the table, equals \<open>imbalance * spread * 1000 / 16\<close> (truncated towards zero)
  at the clamped arguments, ins odd in the imbalance and never exceeds 8000.
\<close>

theorem lut_lookup_value:
  "sint (lut_lookup i s) = (max (- 16) (min 16 i) * int (max 1 (min 8 s)) * 1000) sdiv 16
   \<and> sint (lut_lookup (- i) s) = - sint (lut_lookup i s) \<and> \<bar>sint (lut_lookup i s)\<bar> \<le> 8000"
proof -
  have entry: "sint (lut_lookup i s) = (max (- 16) (min 16 i) * int (max 1 (min 8 s)) * 1000) sdiv 16
      \<and> \<bar>sint (lut_lookup i s)\<bar> \<le> 8000" for i
  proof -
    define c where "c = max (- 16) (min 16 i)"
    define k where "k = max 1 (min 8 s)"
    have c: "- 16 \<le> c" "c \<le> 16" and k: "1 \<le> k" "k \<le> 8" by (auto simp: c_def k_def)
    have "lut_lookup i s = lut_table ! nat (c + 16) ! (k - 1)"
      by (auto simp: lut_lookup_def Let_def imbalance_min_def imbalance_max_def spread_levels_def
          c_def k_def)
    also have "\<dots> = word_of_int ((c * int k * 1000) sdiv 16)"
    proof -
      have "nat (c + 16) < 33" "int (nat (c + 16)) - 16 = c" "k - 1 < 8" "k - 1 + 1 = k"
        using c k by auto
      then show ?thesis by (simp only: lut_table_def spread_levels_def nth_map length_map length_upt
          nth_upt add_0 diff_zero)
    qed
    finally have look: "lut_lookup i s = word_of_int ((c * int k * 1000) sdiv 16)" .
    have "\<bar>c * int k\<bar> \<le> 16 * 8"
      using c k mult_mono [of "\<bar>c\<bar>" 16 "int k" 8] by (simp add: abs_mult)
    then have "\<bar>(c * int k * 1000) sdiv 16\<bar> \<le> 8000" by (intro sdiv_bounds) auto
    moreover from this have "fits_i32 ((c * int k * 1000) sdiv 16)" by (auto simp: fits_i32_def abs_le_iff)
    ultimately show ?thesis using look by (simp add: sint_of_int_i32 c_def k_def)
  qed
  have "max (- 16) (min 16 (- i)) = - max (- 16) (min 16 i)" by auto
  then have "sint (lut_lookup (- i) s) = - sint (lut_lookup i s)"
    using entry [of i] entry [of "- i"] by (simp only: mult_minus_left sdiv_minus)
  then show ?thesis using entry [of i] by blast
qed

text \<open>
  C21. The pipeline has a latency of exactly three stages: over any sequence of quotes and idle
  cycles, the output of a cycle is the value of the cycle two before, a bubble stays a bubble,
  and the value of a quote is the order-flow imbalance against the previous quote, idle cycles
  in between not counting, saturated to \<open>int32_t\<close>.
\<close>

theorem ofi_three_stages:
  "ofi_outputs ofi_new ins = take (length ins) (stage_empty # stage_empty # ofi_expected None ins)"
  using ofi_outputs_expected [of ofi_new stage_empty stage_empty stage_empty ins]
  by (simp add: ofi_new_def pipeline_stages_def numeral_eq_Suc)

lemma ofi_expected_values:
  assumes "\<forall>x \<in> set (q # qs). 0 \<le> sint (bq_bid_qty x) \<and> sint (bq_bid_qty x) < 2 ^ 30
      \<and> 0 \<le> sint (bq_ask_qty x) \<and> sint (bq_ask_qty x) < 2 ^ 30"
    and "\<forall>x \<in> set qs. bq_bid_price x = bq_bid_price q \<and> bq_ask_price x = bq_ask_price q"
  shows "(\<Sum>s \<leftarrow> ofi_expected (Some q) (map Some qs). sint (os_value s))
    = (sint (bq_bid_qty (last (q # qs))) - sint (bq_ask_qty (last (q # qs))))
      - (sint (bq_bid_qty q) - sint (bq_ask_qty q))"
  using assms
proof (induction qs arbitrary: q)
  case (Cons q' qs)
  let ?d = "(sint (bq_bid_qty q') - sint (bq_bid_qty q)) - (sint (bq_ask_qty q') - sint (bq_ask_qty q))"
  have "- (2 ^ 31) \<le> ?d" "?d \<le> 2 ^ 31 - 1" using Cons.prems(1) by auto
  moreover have "cks (Some q) q' = ?d" using Cons.prems(2) by (simp add: word_sle_eq)
  ultimately have "sint (saturate (cks (Some q) q')) = ?d"
    by (simp only: saturate_value max_def min_def) simp
  moreover have "(\<Sum>s \<leftarrow> ofi_expected (Some q') (map Some qs). sint (os_value s))
    = (sint (bq_bid_qty (last (q' # qs))) - sint (bq_ask_qty (last (q' # qs))))
      - (sint (bq_bid_qty q') - sint (bq_ask_qty q'))"
  proof (rule Cons.IH)
    show "\<forall>x \<in> set (q' # qs). 0 \<le> sint (bq_bid_qty x) \<and> sint (bq_bid_qty x) < 2 ^ 30
      \<and> 0 \<le> sint (bq_ask_qty x) \<and> sint (bq_ask_qty x) < 2 ^ 30"
      using Cons.prems(1) by (metis list.set_intros(2))
    show "\<forall>x \<in> set qs. bq_bid_price x = bq_bid_price q' \<and> bq_ask_price x = bq_ask_price q'"
      using Cons.prems(2) by (metis list.set_intros)
  qed
  moreover have "(\<Sum>s \<leftarrow> ofi_expected (Some q) (map Some (q' # qs)). sint (os_value s))
    = sint (saturate (cks (Some q) q')) + (\<Sum>s \<leftarrow> ofi_expected (Some q') (map Some qs). sint (os_value s))"
    by (simp only: list.map ofi_expected.simps sum_list.Cons ofi_stage.simps)
  ultimately show ?case by (simp only: last_ConsR list.distinct) simp
qed simp

lemma ofi_outputs_drain:
  "(\<Sum>s \<leftarrow> ofi_outputs ofi_new (ins @ [None, None]). sint (os_value s))
   = (\<Sum>s \<leftarrow> ofi_expected None ins. sint (os_value s))"
proof -
  have app: "ofi_expected p (ins @ [None, None]) = ofi_expected p ins @ [stage_empty, stage_empty]" for p
    by (induction p ins rule: ofi_expected.induct) simp_all
  have len: "length (ofi_expected p ins) = length ins" for p
    by (induction p ins rule: ofi_expected.induct) simp_all
  show ?thesis
    using ofi_outputs_expected [of ofi_new stage_empty stage_empty stage_empty "ins @ [None, None]"]
    by (simp add: ofi_new_def pipeline_stages_def numeral_eq_Suc app len stage_empty_def)
qed

text \<open>
  Cumulative order-flow imbalance telescopes: while the best prices do not move, the outputs
  of a stream of quotes, drained by two idle cycles, sum to the final bid quantity less the final
  ask quantity (for quantities below \<open>2 ^ 30\<close>, where no output saturates).
\<close>

lemma ofi_telescopes:
  assumes "\<forall>x \<in> set (q # qs). 0 \<le> sint (bq_bid_qty x) \<and> sint (bq_bid_qty x) < 2 ^ 30
      \<and> 0 \<le> sint (bq_ask_qty x) \<and> sint (bq_ask_qty x) < 2 ^ 30"
    and "\<forall>x \<in> set qs. bq_bid_price x = bq_bid_price q \<and> bq_ask_price x = bq_ask_price q"
  shows "(\<Sum>s \<leftarrow> ofi_outputs ofi_new (map Some (q # qs) @ [None, None]). sint (os_value s))
    = sint (bq_bid_qty (last (q # qs))) - sint (bq_ask_qty (last (q # qs)))"
proof -
  have "sint (saturate (cks None q)) = sint (bq_bid_qty q) - sint (bq_ask_qty q)"
    using assms(1) by (simp add: saturate_value)
  with ofi_expected_values [OF assms] show ?thesis
    unfolding ofi_outputs_drain by (simp del: cks.simps)
qed

lemma ofi_telescopes_example:
  "(\<Sum>s \<leftarrow> ofi_outputs ofi_new (map Some [\<lparr>bq_bid_price = 100, bq_bid_qty = 7, bq_ask_price = 101, bq_ask_qty = 3\<rparr>,
       \<lparr>bq_bid_price = 100, bq_bid_qty = 9, bq_ask_price = 101, bq_ask_qty = 1\<rparr>] @ [None, None]).
       sint (os_value s)) = 8"
  using ofi_telescopes [of "\<lparr>bq_bid_price = 100, bq_bid_qty = 7, bq_ask_price = 101, bq_ask_qty = 3\<rparr>"
      "[\<lparr>bq_bid_price = 100, bq_bid_qty = 9, bq_ask_price = 101, bq_ask_qty = 1\<rparr>]"]
  by simp

end
