(* ===== verification/Message_Stream.thy ===== *)
theory Message_Stream
  imports Itch_Parser
begin

text \<open>
  The message sources of the pipeline. A stream has the members its template argument must have
  (the comment above \<open>BasicTickToTradePipeline\<close> in \<open>include/pipeline/tick_to_trade.hpp\<close>): the
  capacities, the number of messages present, and each message's bytes, length and arrival
  cycle. \<open>ReplayStream\<close> of \<open>include/pipeline/real_itch.hpp\<close> is the one filled by a caller.
\<close>

record sim_message =
  sm_bytes :: "u8 list"
  sm_length :: u8
  sm_type :: u8
  sm_arrival :: u64

record itch_stream =
  is_capacity :: nat
  is_order_capacity :: nat
  is_empty_ask :: i32
  is_messages :: "sim_message list"
  is_count :: nat

text \<open>The bytes a receiver of message \<open>i\<close> gets, its length and its arrival.\<close>

definition message :: "itch_stream \<Rightarrow> nat \<Rightarrow> sim_message" where
  "message st i = is_messages st ! i"

definition message_size :: "itch_stream \<Rightarrow> nat \<Rightarrow> nat" where
  "message_size st i = unat (sm_length (message st i))"

definition message_bytes :: "itch_stream \<Rightarrow> nat \<Rightarrow> u8 list" where
  "message_bytes st i = take (message_size st i) (sm_bytes (message st i))"

definition message_arrival :: "itch_stream \<Rightarrow> nat \<Rightarrow> nat" where
  "message_arrival st i = unat (sm_arrival (message st i))"

definition max_i32 :: i32 where
  "max_i32 = word_of_int (2 ^ 31 - 1)"

subsection \<open>The replay stream\<close>

definition replay_empty :: sim_message where
  "replay_empty = \<lparr>sm_bytes = replicate 40 0, sm_length = 0, sm_type = 0, sm_arrival = 0\<rparr>"

definition replay_new :: "nat \<Rightarrow> nat \<Rightarrow> itch_stream" where
  "replay_new capacity order_capacity =
     \<lparr>is_capacity = capacity, is_order_capacity = order_capacity, is_empty_ask = max_i32,
      is_messages = replicate capacity replay_empty, is_count = 0\<rparr>"

definition replay_push :: "u8 list \<Rightarrow> u64 \<Rightarrow> itch_stream \<Rightarrow> bool \<times> itch_stream" where
  "replay_push bytes arrival_cycle st =
     (if is_capacity st \<le> is_count st \<or> length bytes = 0 \<or> 40 < length bytes then (False, st)
      else
        let m = is_messages st ! is_count st;
            m' = m\<lparr>sm_bytes := bytes @ drop (length bytes) (sm_bytes m),
                   sm_length := of_nat (length bytes), sm_type := bytes ! 0,
                   sm_arrival := arrival_cycle\<rparr>
        in (True, st\<lparr>is_messages := (is_messages st)[is_count st := m'],
                    is_count := is_count st + 1\<rparr>))"

fun replay_push_all :: "(u8 list \<times> u64) list \<Rightarrow> itch_stream \<Rightarrow> itch_stream" where
  "replay_push_all [] st = st"
| "replay_push_all ((bytes, arrival) # ms) st = replay_push_all ms (snd (replay_push bytes arrival st))"

definition replay_inv :: "itch_stream \<Rightarrow> bool" where
  "replay_inv st \<longleftrightarrow> length (is_messages st) = is_capacity st \<and> is_count st \<le> is_capacity st
     \<and> (\<forall>m \<in> set (is_messages st). length (sm_bytes m) = 40 \<and> unat (sm_length m) \<le> 40)"

text \<open>The messages present, as a caller pushed them.\<close>

definition replay_contents :: "itch_stream \<Rightarrow> (u8 list \<times> u64) list" where
  "replay_contents st = map (\<lambda>i. (message_bytes st i, sm_arrival (message st i))) [0..<is_count st]"

definition replayable :: "u8 list \<times> u64 \<Rightarrow> bool" where
  "replayable m \<longleftrightarrow> fst m \<noteq> [] \<and> length (fst m) \<le> 40"

lemma replay_new_inv [inv_intros]: "replay_inv (replay_new c oc)"
  by (simp add: replay_inv_def replay_new_def replay_empty_def)

lemma replay_new_contents [simp]: "replay_contents (replay_new c oc) = []"
  by (simp add: replay_contents_def replay_new_def)

lemma replay_push_refused:
  "\<not> (is_count st < is_capacity st \<and> replayable (bytes, a)) \<Longrightarrow> replay_push bytes a st = (False, st)"
  by (auto simp: replay_push_def replayable_def)

lemma replay_push_accepted:
  assumes "replay_inv st" "is_count st < is_capacity st" "replayable (bytes, a)"
  shows "\<exists>st'. replay_push bytes a st = (True, st') \<and> replay_inv st'
    \<and> is_capacity st' = is_capacity st \<and> replay_contents st' = replay_contents st @ [(bytes, a)]"
proof -
  let ?c = "is_count st"
  define m where "m = is_messages st ! ?c"
  define m' where "m' = m\<lparr>sm_bytes := bytes @ drop (length bytes) (sm_bytes m),
    sm_length := of_nat (length bytes), sm_type := bytes ! 0, sm_arrival := a\<rparr>"
  define st' where "st' = st\<lparr>is_messages := (is_messages st)[?c := m'], is_count := ?c + 1\<rparr>"
  have c: "?c < length (is_messages st)" using assms by (simp add: replay_inv_def)
  have bytes: "bytes \<noteq> []" "length bytes \<le> 40" using assms(3) by (auto simp: replayable_def)
  then have push: "replay_push bytes a st = (True, st')"
    using assms(2) by (simp add: replay_push_def st'_def m'_def m_def Let_def)
  have "length (sm_bytes m) = 40" using assms(1) c by (simp add: replay_inv_def m_def)
  moreover have size: "unat (of_nat (length bytes) :: u8) = length bytes"
    using bytes(2) by (simp add: unat_of_nat)
  ultimately have "length (sm_bytes m') = 40" "unat (sm_length m') \<le> 40"
    using bytes by (simp_all add: m'_def)
  then have inv: "replay_inv st'"
    using assms(1,2) by (auto simp: replay_inv_def st'_def dest: set_update_subset_insert [THEN subsetD])
  from size have new: "message_bytes st' ?c = bytes" "sm_arrival (message st' ?c) = a"
    using c by (simp_all add: message_bytes_def message_size_def message_def st'_def m'_def)
  have old: "message_bytes st' i = message_bytes st i" "message st' i = message st i" if "i < ?c" for i
    using that by (simp_all add: message_bytes_def message_size_def message_def st'_def)
  have "replay_contents st' = map (\<lambda>i. (message_bytes st' i, sm_arrival (message st' i))) [0..<?c]
      @ [(bytes, a)]"
    using new by (simp add: replay_contents_def st'_def)
  then have "replay_contents st' = replay_contents st @ [(bytes, a)]"
    by (simp add: replay_contents_def old)
  with push inv show ?thesis by (auto simp: st'_def)
qed

lemma length_replay_contents [simp]: "length (replay_contents st) = is_count st"
  by (simp add: replay_contents_def)

lemma replay_push_all_contents:
  "replay_inv st \<Longrightarrow> replay_inv (replay_push_all ms st)
    \<and> replay_contents (replay_push_all ms st)
        = take (is_capacity st) (replay_contents st @ filter replayable ms)"
proof (induction ms arbitrary: st)
  case Nil
  then show ?case by (simp add: replay_inv_def)
next
  case (Cons m ms)
  obtain bytes a where m: "m = (bytes, a)" by (cases m)
  show ?case
  proof (cases "is_count st < is_capacity st \<and> replayable (bytes, a)")
    case True
    with replay_push_accepted [OF Cons.prems] Cons.IH m show ?thesis by fastforce
  next
    case False
    have "is_count st \<le> is_capacity st" using Cons.prems by (simp add: replay_inv_def)
    with False replay_push_refused [OF False] Cons m show ?thesis by (cases "replayable (bytes, a)") auto
  qed
qed

subsection \<open>Property\<close>

text \<open>
  C36. The replay stream holds, byte for byte and in order, the first \<open>Capacity\<close> of the pushed
  messages that have between 1 and 40 bytes, each with its arrival cycle: pushes beyond the
  capacity, empty messages and messages that do not fit are refused and change nothing.
\<close>

theorem replay_stream_contents:
  "replay_contents (replay_push_all ms (replay_new c oc)) = take c (filter replayable ms)"
  using replay_push_all_contents [OF replay_new_inv, of ms c oc]
  by simp (simp add: replay_new_def)

end
