(* ===== verification/Tick_To_Trade.thy ===== *)
theory Tick_To_Trade
  imports Message_Stream Pcie_Dma Mac_Framer Bram Phy_Pcs Order_Table Order_Book Ofi_Dsp
begin

text \<open>
  \<open>BasicTickToTradePipeline\<close> of \<open>include/pipeline/tick_to_trade.hpp\<close>, stage by stage in the
  order of \<open>posedge\<close> and \<open>negedge\<close>. The \<open>stream_\<close> reference is a parameter of the functions.

  A slot's \<open>msg\<close> is \<open>None\<close> for \<open>-1\<close>; its work count \<open>left\<close> is a \<open>nat\<close>, since it is loaded with
  small counts and only decremented when positive. A read outside an array, a signed overflow
  and a failing assertion of the RAM are \<open>None\<close>.
\<close>

subsection \<open>State\<close>

instantiation nat :: default
begin
definition default_nat :: nat where "default_nat = 0"
instance ..
end

instantiation book_quote_ext :: (default) default
begin
definition default_book_quote_ext :: "'a book_quote_scheme" where
  "default_book_quote_ext = book_quote.extend quote_empty default"
instance ..
end

definition parser_cycles :: nat where "parser_cycles = 2"
definition book_cycles :: nat where "book_cycles = 1"
definition dma_post_cycles :: nat where "dma_post_cycles = 2"
definition mac_ipg_idle_bytes :: nat where "mac_ipg_idle_bytes = 12"
definition quote_ram_latency :: nat where "quote_ram_latency = 1"

record tick_slot =
  sl_msg :: "nat option"
  sl_avail :: u64
  sl_left :: nat

definition tick_slot_empty :: tick_slot where
  "tick_slot_empty = \<lparr>sl_msg = None, sl_avail = 0, sl_left = 0\<rparr>"

definition slot_free :: "tick_slot \<Rightarrow> bool" where
  "slot_free s \<longleftrightarrow> sl_msg s = None"

definition slot_ready :: "u64 \<Rightarrow> tick_slot \<Rightarrow> bool" where
  "slot_ready cycle s \<longleftrightarrow> sl_msg s \<noteq> None \<and> sl_avail s \<le> cycle"

definition slot_work :: "u64 \<Rightarrow> tick_slot \<Rightarrow> bool \<times> tick_slot" where
  "slot_work cycle s =
     (if sl_msg s \<noteq> None \<and> sl_avail s \<le> cycle \<and> 0 < sl_left s
      then (True, s\<lparr>sl_left := sl_left s - 1\<rparr>) else (False, s))"

definition slot_finished :: "u64 \<Rightarrow> tick_slot \<Rightarrow> bool" where
  "slot_finished cycle s \<longleftrightarrow> sl_msg s \<noteq> None \<and> sl_avail s \<le> cycle \<and> sl_left s = 0"

definition slot_load :: "nat \<Rightarrow> u64 \<Rightarrow> nat \<Rightarrow> tick_slot" where
  "slot_load m a l = \<lparr>sl_msg = Some m, sl_avail = a, sl_left = l\<rparr>"

record msg_state =
  ms_blocks :: "u64 list"
  ms_block_count :: nat
  ms_payload :: "u8 list"
  ms_frame :: "u8 list"
  ms_frame_len :: nat
  ms_event :: itch_event
  ms_quote :: book_quote
  ms_ofi :: i32

definition msg_empty :: msg_state where
  "msg_empty = \<lparr>ms_blocks = replicate 8 0, ms_block_count = 0, ms_payload = replicate 48 0,
     ms_frame = replicate 128 0, ms_frame_len = 0, ms_event = event_empty, ms_quote = quote_empty,
     ms_ofi = 0\<rparr>"

record tick_pipeline =
  tt_framer :: mac_framer
  tt_parser :: itch_parser
  tt_orders :: order_table
  tt_book :: order_book
  tt_bram :: "book_quote bram"
  tt_ofi :: ofi_dsp
  tt_dma :: tick_slot
  tt_engine :: pcie_dma
  tt_pcs :: tick_slot
  tt_mac :: tick_slot
  tt_parse :: tick_slot
  tt_book_slot :: tick_slot
  tt_rd :: tick_slot
  tt_ofi_in :: tick_slot
  tt_mac_beats :: nat
  tt_bram_ring :: "nat ring_buffer"
  tt_ofi_ring :: "nat ring_buffer"
  tt_dma_q :: "nat ring_buffer"
  tt_state :: "msg_state list"
  tt_latency :: "u32 list"
  tt_next :: nat
  tt_completed :: nat
  tt_cumulative :: i64
  tt_last_ofi :: i32
  tt_error :: bool

definition tick_new :: "itch_stream \<Rightarrow> tick_pipeline" where
  "tick_new st =
     \<lparr>tt_framer = mac_new, tt_parser = parser_new, tt_orders = table_new (is_order_capacity st),
      tt_book = book_new, tt_bram = bram_new 32 quote_ram_latency, tt_ofi = ofi_new,
      tt_dma = tick_slot_empty, tt_engine = dma_new, tt_pcs = tick_slot_empty, tt_mac = tick_slot_empty,
      tt_parse = tick_slot_empty, tt_book_slot = tick_slot_empty, tt_rd = tick_slot_empty, tt_ofi_in = tick_slot_empty,
      tt_mac_beats = 0, tt_bram_ring = rb_new 16, tt_ofi_ring = rb_new 16, tt_dma_q = rb_new 64,
      tt_state = replicate (is_capacity st) msg_empty, tt_latency = replicate (is_capacity st) 0,
      tt_next = 0, tt_completed = 0, tt_cumulative = 0, tt_last_ofi = 0, tt_error = False\<rparr>"

definition tick_done :: "itch_stream \<Rightarrow> tick_pipeline \<Rightarrow> bool" where
  "tick_done st p \<longleftrightarrow> tt_completed p = is_count st \<or> tt_error p"

definition tick_ok :: "itch_stream \<Rightarrow> tick_pipeline \<Rightarrow> bool" where
  "tick_ok st p \<longleftrightarrow> \<not> tt_error p \<and> tt_completed p = is_count st"

definition fail_if :: "bool \<Rightarrow> tick_pipeline \<Rightarrow> tick_pipeline" where
  "fail_if c p = (if c then p\<lparr>tt_error := True\<rparr> else p)"

text \<open>Checked array access.\<close>

definition at :: "nat \<Rightarrow> 'b list \<Rightarrow> 'b option" where
  "at i xs = (if i < length xs then Some (xs ! i) else None)"

definition set_state :: "nat \<Rightarrow> msg_state \<Rightarrow> tick_pipeline \<Rightarrow> tick_pipeline" where
  "set_state i s p = p\<lparr>tt_state := (tt_state p)[i := s]\<rparr>"

text \<open>Subtraction of \<open>std::size_t\<close> values.\<close>

definition size_sub :: "nat \<Rightarrow> nat \<Rightarrow> nat" where
  "size_sub a b = (if b \<le> a then a - b else 2 ^ 64 + a - b)"

subsection \<open>DMA\<close>

definition put_be32 :: "nat \<Rightarrow> u32 \<Rightarrow> u8 list \<Rightarrow> u8 list" where
  "put_be32 off v payload =
     foldl (\<lambda>p i. p[off + i := ucast (drop_bit ((3 - i) * 8) v)]) payload [0..<4]"

definition decision_tlp :: "nat \<Rightarrow> msg_state \<Rightarrow> pcie_tlp" where
  "decision_tlp i s =
     \<lparr>tlp_address = 0x10000000 + 64 * of_nat i, tlp_byte_count = 16, tlp_tag = of_nat i,
      tlp_payload = put_be32 12 (bq_ask_price (ms_quote s)) (put_be32 8 (bq_bid_price (ms_quote s))
        (put_be32 4 (ms_ofi s) (put_be32 0 (of_nat i) (tlp_payload tlp_empty))))\<rparr>"

text \<open>Posting and draining, with the short-circuit of the condition; the flag says it failed.\<close>

definition post_and_drain :: "pcie_tlp \<Rightarrow> pcie_dma \<Rightarrow> bool \<times> pcie_dma" where
  "post_and_drain tlp e =
     (case dma_post_write tlp e of (posted, e1) \<Rightarrow>
        if \<not> (posted \<and> dma_msix e1) then (True, e1)
        else (case dma_consume e1 of (drained, e2) \<Rightarrow>
                (case drained of None \<Rightarrow> True | Some d \<Rightarrow> tlp_tag d \<noteq> tlp_tag tlp, dma_clear_msix e2)))"

definition post_decision :: "itch_stream \<Rightarrow> u64 \<Rightarrow> tick_pipeline \<Rightarrow> tick_pipeline option" where
  "post_decision st cycle p = do {
     i \<leftarrow> sl_msg (tt_dma p);
     s \<leftarrow> at i (tt_state p);
     m \<leftarrow> at i (is_messages st);
     _ \<leftarrow> at i (tt_latency p);
     let (bad, e) = post_and_drain (decision_tlp i s) (tt_engine p);
     Some (fail_if bad (p\<lparr>tt_engine := e,
       tt_latency := (tt_latency p)[i := ucast (cycle - sm_arrival m + 1)],
       tt_dma := (tt_dma p)\<lparr>sl_msg := None\<rparr>,
       tt_completed := tt_completed p + 1\<rparr>)) }"

definition dma_stage :: "itch_stream \<Rightarrow> u64 \<Rightarrow> tick_pipeline \<Rightarrow> tick_pipeline option" where
  "dma_stage st cycle p =
     (let p1 = (if slot_free (tt_dma p)
                then (case rb_pop (tt_dma_q p) of
                        (None, q) \<Rightarrow> p\<lparr>tt_dma_q := q\<rparr>
                      | (Some i, q) \<Rightarrow> p\<lparr>tt_dma_q := q, tt_dma := slot_load i cycle dma_post_cycles\<rparr>)
                else p);
          (worked, s) = slot_work cycle (tt_dma p1);
          p2 = p1\<lparr>tt_dma := s\<rparr>
      in if worked \<and> sl_left s = 0 then post_decision st cycle p2 else Some p2)"

subsection \<open>OFI issue and quote RAM read-back\<close>

definition ofi_stage_step :: "u64 \<Rightarrow> tick_pipeline \<Rightarrow> tick_pipeline option" where
  "ofi_stage_step cycle p =
     (if slot_ready cycle (tt_ofi_in p) then do {
        i \<leftarrow> sl_msg (tt_ofi_in p);
        s \<leftarrow> at i (tt_state p);
        let (ok, r) = rb_push i (tt_ofi_ring p);
        Some (fail_if (\<not> ok) (p\<lparr>tt_ofi := ofi_posedge (ms_quote s) (tt_ofi p), tt_ofi_ring := r,
          tt_ofi_in := (tt_ofi_in p)\<lparr>sl_msg := None\<rparr>\<rparr>)) }
      else Some (p\<lparr>tt_ofi := ofi_posedge_idle (tt_ofi p)\<rparr>))"

definition read_stage ::
  "u64 \<Rightarrow> tick_pipeline \<Rightarrow> (book_quote port_request \<times> tick_pipeline) option" where
  "read_stage cycle p =
     (if slot_ready cycle (tt_rd p) then do {
        i \<leftarrow> sl_msg (tt_rd p);
        let (ok, r) = rb_push i (tt_bram_ring p);
        Some (no_request\<lparr>rq_read := True, rq_address := i mod 32\<rparr>,
              fail_if (\<not> ok) (p\<lparr>tt_bram_ring := r, tt_rd := (tt_rd p)\<lparr>sl_msg := None\<rparr>\<rparr>)) }
      else Some (no_request, p))"

subsection \<open>Book\<close>

text \<open>\<open>apply_to_book\<close> on the order table and the book: the flag says that nothing failed.\<close>

definition apply_reduce ::
  "u64 \<Rightarrow> i32 \<Rightarrow> order_table \<Rightarrow> order_book \<Rightarrow> ((bool \<times> bool) \<times> order_table \<times> order_book) option" where
  "apply_reduce r shares orders book = do {
     (res, orders1) \<leftarrow> table_reduce r shares orders;
     case res of
       None \<Rightarrow> Some ((False, False), orders1, book)
     | Some (bid, price, applied) \<Rightarrow> do {
         book1 \<leftarrow> book_execute bid price applied book;
         Some ((True, bid), orders1, book1) } }"

definition apply_insert ::
  "u64 \<Rightarrow> bool \<Rightarrow> i32 \<Rightarrow> i32 \<Rightarrow> order_table \<Rightarrow> order_book \<Rightarrow> (bool \<times> order_table \<times> order_book) option" where
  "apply_insert r bid price shares orders book =
     (case table_insert r bid price shares orders of (ok, orders1) \<Rightarrow> do {
        book1 \<leftarrow> book_add bid price shares book;
        Some (ok, orders1, book1) })"

definition apply_event ::
  "itch_event \<Rightarrow> order_table \<Rightarrow> order_book \<Rightarrow> (bool \<times> order_table \<times> order_book) option" where
  "apply_event e orders book =
     (let shares = ev_shares e in
      if ev_type e = Add \<or> ev_type e = Add_Mpid then
        apply_insert (order_reference e) (ev_side e = ascii CHR ''B'') (price_ticks e) shares orders book
      else if ev_type e = Executed \<or> ev_type e = Executed_Price \<or> ev_type e = Cancel then
        map_option (apfst fst) (apply_reduce (order_reference e) shares orders book)
      else if ev_type e = Delete_Order then
        map_option (apfst fst) (apply_reduce (order_reference e) max_i32 orders book)
      else if ev_type e = Replace then do {
        ((ok, bid), orders1, book1) \<leftarrow> apply_reduce (order_reference e) max_i32 orders book;
        if \<not> ok then Some (False, orders1, book1)
        else apply_insert (new_reference e) bid (price_ticks e) shares orders1 book1 }
      else Some (False, orders, book))"

definition quote_of :: "i32 \<Rightarrow> order_book \<Rightarrow> book_quote" where
  "quote_of empty_ask book =
     (let b = best_bid book; a = best_ask book in
      \<lparr>bq_bid_price = if bl_valid b then bl_price b else 0,
       bq_bid_qty = if bl_valid b then bl_quantity b else 0,
       bq_ask_price = if bl_valid a then bl_price a else empty_ask,
       bq_ask_qty = if bl_valid a then bl_quantity a else 0\<rparr>)"

definition apply_to_book :: "itch_stream \<Rightarrow> nat \<Rightarrow> tick_pipeline \<Rightarrow> tick_pipeline option" where
  "apply_to_book st i p = do {
     s \<leftarrow> at i (tt_state p);
     (ok, orders, book) \<leftarrow> apply_event (ms_event s) (tt_orders p) (tt_book p);
     Some (fail_if (\<not> ok) (set_state i (s\<lparr>ms_quote := quote_of (is_empty_ask st) book\<rparr>)
       (p\<lparr>tt_orders := orders, tt_book := book\<rparr>))) }"

definition book_stage ::
  "itch_stream \<Rightarrow> u64 \<Rightarrow> tick_pipeline \<Rightarrow> (book_quote port_request \<times> tick_pipeline) option" where
  "book_stage st cycle p =
     (let p1 = p\<lparr>tt_book_slot := snd (slot_work cycle (tt_book_slot p))\<rparr> in
      if slot_finished cycle (tt_book_slot p1) \<and> slot_free (tt_rd p1) then do {
        i \<leftarrow> sl_msg (tt_book_slot p1);
        p2 \<leftarrow> apply_to_book st i p1;
        s \<leftarrow> at i (tt_state p2);
        Some (no_request\<lparr>rq_write := True, rq_address := i mod 32, rq_data := ms_quote s\<rparr>,
              p2\<lparr>tt_rd := slot_load i (cycle + 1) 1,
                 tt_book_slot := (tt_book_slot p2)\<lparr>sl_msg := None\<rparr>\<rparr>) }
      else Some (no_request, p1))"

subsection \<open>Parse, MAC and PCS\<close>

definition parse_stage :: "u64 \<Rightarrow> tick_pipeline \<Rightarrow> tick_pipeline option" where
  "parse_stage cycle p =
     (let p1 = p\<lparr>tt_parse := snd (slot_work cycle (tt_parse p))\<rparr> in
      if slot_finished cycle (tt_parse p1) \<and> slot_free (tt_book_slot p1) then do {
        i \<leftarrow> sl_msg (tt_parse p1);
        s \<leftarrow> at i (tt_state p1);
        if length (ms_frame s) < ms_frame_len s then None
        else do {
          let (n, parser) = itch_parse (take (ms_frame_len s) (ms_frame s)) (tt_parser p1);
          let bad = (n \<noteq> 1 \<or> ps_status parser \<noteq> Parse_Ok \<or> ps_consumed parser \<noteq> ms_frame_len s);
          e \<leftarrow> at 0 (ps_events parser);
          Some (fail_if bad (set_state i (s\<lparr>ms_event := e\<rparr>)
            (p1\<lparr>tt_parser := parser, tt_book_slot := slot_load i (cycle + 1) book_cycles,
                tt_parse := (tt_parse p1)\<lparr>sl_msg := None\<rparr>\<rparr>))) } }
      else Some p1)"

text \<open>One beat: the bytes sent, and what \<open>memcpy\<close> leaves in the frame buffer.\<close>

definition mac_beat :: "msg_state \<Rightarrow> nat \<Rightarrow> nat \<Rightarrow> bool \<Rightarrow> axi_beat" where
  "mac_beat s offset n final =
     \<lparr>tdata = take n (drop offset (ms_payload s)) @ replicate (64 - n) 0,
      tkeep = (if n = 64 then - 1 else push_bit n 1 - 1),
      tvalid = True, tready = True, tlast = final\<rparr>"

definition mac_send :: "u64 \<Rightarrow> tick_pipeline \<Rightarrow> tick_pipeline option" where
  "mac_send cycle p =
     (if slot_ready cycle (tt_mac p) \<and> 0 < sl_left (tt_mac p) then do {
        i \<leftarrow> sl_msg (tt_mac p);
        s \<leftarrow> at i (tt_state p);
        let offset = size_sub (tt_mac_beats p) (sl_left (tt_mac p)) * 64;
        let remaining = size_sub (ms_frame_len s) offset;
        let n = (if remaining < 64 then remaining else 64);
        if length (ms_payload s) < offset + n \<or> length (ms_frame s) < offset + n then None
        else do {
          let beat = mac_beat s offset n (sl_left (tt_mac p) = 1);
          let (ok, framer) = mac_accept beat (tt_framer p);
          let frame = take offset (ms_frame s) @ take n (tdata beat) @ drop (offset + n) (ms_frame s);
          Some (fail_if (\<not> ok) (set_state i (s\<lparr>ms_frame := frame\<rparr>)
            (p\<lparr>tt_framer := framer,
               tt_mac := (tt_mac p)\<lparr>sl_left := sl_left (tt_mac p) - 1\<rparr>\<rparr>))) } }
      else Some p)"

definition mac_stage :: "u64 \<Rightarrow> tick_pipeline \<Rightarrow> tick_pipeline option" where
  "mac_stage cycle p = do {
     p1 \<leftarrow> mac_send cycle p;
     if slot_finished cycle (tt_mac p1) \<and> slot_free (tt_parse p1) then do {
       i \<leftarrow> sl_msg (tt_mac p1);
       Some (p1\<lparr>tt_parse := slot_load i (cycle + 1) parser_cycles,
                tt_mac := (tt_mac p1)\<lparr>sl_msg := None\<rparr>\<rparr>) }
     else Some p1 }"

definition pcs_pick :: "itch_stream \<Rightarrow> u64 \<Rightarrow> tick_pipeline \<Rightarrow> tick_pipeline option" where
  "pcs_pick st cycle p =
     (if slot_free (tt_pcs p) \<and> tt_next p < is_count st then do {
        m \<leftarrow> at (tt_next p) (is_messages st);
        if cycle < sm_arrival m then Some p
        else do {
          s \<leftarrow> at (tt_next p) (tt_state p);
          if length (sm_bytes m) < unat (sm_length m) then None
          else (case pcs_encode (Some (take (unat (sm_length m)) (sm_bytes m))) (Some (ms_blocks s)) of
                  (count, blocks) \<Rightarrow>
                    Some (fail_if (count = 0)
                      (set_state (tt_next p) (s\<lparr>ms_blocks := the blocks, ms_block_count := count\<rparr>)
                        (p\<lparr>tt_pcs := slot_load (tt_next p) cycle count, tt_next := tt_next p + 1\<rparr>)))) } }
      else Some p)"

definition pcs_stage :: "itch_stream \<Rightarrow> u64 \<Rightarrow> tick_pipeline \<Rightarrow> tick_pipeline option" where
  "pcs_stage st cycle p = do {
     p0 \<leftarrow> pcs_pick st cycle p;
     let p1 = p0\<lparr>tt_pcs := snd (slot_work cycle (tt_pcs p0))\<rparr>;
     if slot_finished cycle (tt_pcs p1) \<and> slot_free (tt_mac p1) then do {
       i \<leftarrow> sl_msg (tt_pcs p1);
       s \<leftarrow> at i (tt_state p1);
       m \<leftarrow> at i (is_messages st);
       let len = unat (sm_length m);
       if length (ms_blocks s) < ms_block_count s then None
       else do {
         let (r, payload) = pcs_decode (Some (take (ms_block_count s) (ms_blocks s))) (Some (ms_payload s)) len;
         let (gap_ok, framer) = verify_ipg mac_ipg_idle_bytes (tt_framer p1);
         let beats = (len + 63) div 64;
         Some (fail_if (\<not> block_lock r \<or> \<not> crc_valid r \<or> payload_length r \<noteq> len \<or> \<not> gap_ok)
           (set_state i (s\<lparr>ms_payload := the payload, ms_frame_len := len\<rparr>)
             (p1\<lparr>tt_framer := framer, tt_mac_beats := beats,
                 tt_mac := slot_load i (cycle + 1) beats,
                 tt_pcs := (tt_pcs p1)\<lparr>sl_msg := None\<rparr>\<rparr>))) } }
     else Some p1 }"

subsection \<open>The two clock edges\<close>

text \<open>A RAM request that fails an assertion aborts a debug build; it is \<open>None\<close> here.\<close>

definition ram_posedge ::
  "book_quote port_request \<Rightarrow> book_quote port_request \<Rightarrow> tick_pipeline \<Rightarrow> tick_pipeline option" where
  "ram_posedge a b p = do {
     ram \<leftarrow> bram_posedge_debug a b (tt_bram p);
     Some (p\<lparr>tt_bram := ram\<rparr>) }"

definition tick_posedge :: "itch_stream \<Rightarrow> u64 \<Rightarrow> tick_pipeline \<Rightarrow> tick_pipeline option" where
  "tick_posedge st cycle p =
     (if tt_error p
      then ram_posedge no_request no_request (p\<lparr>tt_ofi := ofi_posedge_idle (tt_ofi p)\<rparr>)
      else do {
        p1 \<leftarrow> dma_stage st cycle p;
        p2 \<leftarrow> ofi_stage_step cycle p1;
        (b, p3) \<leftarrow> read_stage cycle p2;
        (a, p4) \<leftarrow> book_stage st cycle p3;
        p5 \<leftarrow> parse_stage cycle p4;
        p6 \<leftarrow> mac_stage cycle p5;
        p7 \<leftarrow> pcs_stage st cycle p6;
        ram_posedge a b p7 })"

text \<open>\<open>negedge\<close>: the response of the RAM, then the output of the OFI pipeline; each may return
  early after a failure.\<close>

definition ram_response :: "u64 \<Rightarrow> tick_pipeline \<Rightarrow> tick_pipeline option" where
  "ram_response cycle p =
     (let r = br_response_b (tt_bram p) in
      if rs_valid r then
        (case rb_pop (tt_bram_ring p) of
           (None, ring) \<Rightarrow> Some (fail_if True (p\<lparr>tt_bram_ring := ring\<rparr>))
         | (Some i, ring) \<Rightarrow>
             let p1 = p\<lparr>tt_bram_ring := ring\<rparr> in
             if \<not> slot_free (tt_ofi_in p1) then Some (fail_if True p1)
             else do {
               s \<leftarrow> at i (tt_state p1);
               Some (set_state i (s\<lparr>ms_quote := rs_data r\<rparr>)
                 (p1\<lparr>tt_ofi_in := slot_load i (cycle + 1) 0\<rparr>)) })
      else Some p)"

definition ofi_output :: "tick_pipeline \<Rightarrow> tick_pipeline option" where
  "ofi_output p =
     (let out = od_output (tt_ofi p) in
      if os_valid out then
        (case rb_pop (tt_ofi_ring p) of
           (None, ring) \<Rightarrow> Some (fail_if True (p\<lparr>tt_ofi_ring := ring\<rparr>))
         | (Some i, ring) \<Rightarrow>
             (case rb_push i (tt_dma_q p) of
                (False, q) \<Rightarrow> Some (fail_if True (p\<lparr>tt_ofi_ring := ring, tt_dma_q := q\<rparr>))
              | (True, q) \<Rightarrow> do {
                  s \<leftarrow> at i (tt_state p);
                  total \<leftarrow> i64_add (tt_cumulative p) (scast (os_value out));
                  Some (set_state i (s\<lparr>ms_ofi := os_value out\<rparr>)
                    (p\<lparr>tt_ofi_ring := ring, tt_dma_q := q, tt_last_ofi := os_value out,
                       tt_cumulative := total\<rparr>)) }))
      else Some p)"

definition tick_negedge :: "u64 \<Rightarrow> tick_pipeline \<Rightarrow> tick_pipeline option" where
  "tick_negedge cycle p =
     (if tt_error p then Some p
      else do {
        p1 \<leftarrow> ram_response cycle (p\<lparr>tt_bram := bram_negedge (tt_bram p), tt_ofi := ofi_negedge (tt_ofi p)\<rparr>);
        if tt_error p1 then Some p1 else ofi_output p1 })"

definition tick_cycle :: "itch_stream \<Rightarrow> u64 \<Rightarrow> tick_pipeline \<Rightarrow> tick_pipeline option" where
  "tick_cycle st cycle p = do { p1 \<leftarrow> tick_posedge st cycle p; tick_negedge cycle p1 }"

fun tick_cycles :: "itch_stream \<Rightarrow> nat \<Rightarrow> tick_pipeline option" where
  "tick_cycles st 0 = Some (tick_new st)"
| "tick_cycles st (Suc n) = do { p \<leftarrow> tick_cycles st n; tick_cycle st (of_nat n) p }"

end
