(* ===== verification/Schedule.thy ===== *)
theory Schedule
  imports Tick_To_Trade
begin

text \<open>
  The abstract account of a run of the pipeline on a stream it can process: when the wire
  starts and ends each message, what the book shows after it, and what the pipeline should
  report. The wire is a single server: a message starts when it has arrived and the previous
  one has been received; everything behind the wire takes a fixed number of cycles.
\<close>

subsection \<open>The promise\<close>

definition wire_blocks :: "itch_stream \<Rightarrow> nat \<Rightarrow> nat" where
  "wire_blocks st k = encoded_count (message_size st k)"

fun wire_start :: "itch_stream \<Rightarrow> nat \<Rightarrow> nat" where
  "wire_start st 0 = message_arrival st 0"
| "wire_start st (Suc k) = max (message_arrival st (Suc k)) (wire_start st k + wire_blocks st k)"

definition received :: "itch_stream \<Rightarrow> nat \<Rightarrow> nat" where
  "received st k = wire_start st k + wire_blocks st k"

text \<open>Cycles from arrival to the decision record, both counted: waiting for the wire, one cycle
  per block, and ten for the stages behind it.\<close>

definition expected_latency :: "itch_stream \<Rightarrow> nat \<Rightarrow> nat" where
  "expected_latency st k = (wire_start st k - message_arrival st k) + wire_blocks st k + 10"

text \<open>The order table and the book after the first messages; \<open>None\<close> if one of them cannot be
  applied.\<close>

fun book_after :: "itch_stream \<Rightarrow> nat \<Rightarrow> (order_table \<times> order_book) option" where
  "book_after st 0 = Some (table_new (is_order_capacity st), book_new)"
| "book_after st (Suc k) = do {
     (orders, book) \<leftarrow> book_after st k;
     (ok, orders', book') \<leftarrow> apply_event (decoded (message_bytes st k)) orders book;
     if ok then Some (orders', book') else None }"

definition expected_quote :: "itch_stream \<Rightarrow> nat \<Rightarrow> book_quote" where
  "expected_quote st k = quote_of (is_empty_ask st) (snd (the (book_after st (Suc k))))"

definition previous_quote :: "itch_stream \<Rightarrow> nat \<Rightarrow> book_quote option" where
  "previous_quote st k = (if k = 0 then None else Some (expected_quote st (k - 1)))"

definition expected_ofi :: "itch_stream \<Rightarrow> nat \<Rightarrow> i32" where
  "expected_ofi st k = saturate (cks (previous_quote st k) (expected_quote st k))"

text \<open>A stream the pipeline can process.\<close>

definition wf_stream :: "itch_stream \<Rightarrow> bool" where
  "wf_stream st \<longleftrightarrow> length (is_messages st) = is_capacity st \<and> is_count st \<le> is_capacity st
     \<and> is_capacity st < 2 ^ 31
     \<and> (\<forall>k < is_count st. message_size st k \<le> length (sm_bytes (message st k))
          \<and> wf_message (message_bytes st k))
     \<and> book_after st (is_count st) \<noteq> None"

text \<open>
  What the pipeline's timing rests on: the messages fit the buffers and take at least two blocks
  each, whatever they contain. A stream of supported, applicable messages is such a stream.
\<close>

definition sized_stream :: "itch_stream \<Rightarrow> bool" where
  "sized_stream st \<longleftrightarrow> length (is_messages st) = is_capacity st \<and> is_count st \<le> is_capacity st
     \<and> is_capacity st < 2 ^ 31
     \<and> (\<forall>k < is_count st. message_size st k \<le> length (sm_bytes (message st k))
          \<and> 4 \<le> message_size st k \<and> message_size st k \<le> 40)"

subsection \<open>Order on the wire\<close>

lemma length_for_bounds: "length_for t \<noteq> 0 \<Longrightarrow> 19 \<le> length_for t \<and> length_for t \<le> 40"
  by (auto simp: length_for_def split: if_splits)

lemma wf_message_bounds: "wf_message m \<Longrightarrow> 19 \<le> length m \<and> length m \<le> 40"
  using length_for_bounds [of "m ! 0"] by (cases "length_for (m ! 0) = 0") (auto simp: wf_message_def)

lemma wf_stream_message:
  assumes "wf_stream st" "k < is_count st"
  shows "length (message_bytes st k) = message_size st k" "wf_message (message_bytes st k)"
    "message_size st k \<le> length (sm_bytes (message st k))"
    "19 \<le> message_size st k" "message_size st k \<le> 40"
proof -
  show wf: "wf_message (message_bytes st k)" and le: "message_size st k \<le> length (sm_bytes (message st k))"
    using assms by (auto simp: wf_stream_def)
  then show len: "length (message_bytes st k) = message_size st k" by (simp add: message_bytes_def)
  with wf_message_bounds [OF wf] show "19 \<le> message_size st k" "message_size st k \<le> 40" by auto
qed

lemma wire_blocks_bounds:
  assumes "wf_stream st" "k < is_count st"
  shows "4 \<le> wire_blocks st k" "wire_blocks st k \<le> 7"
  using wf_stream_message(4,5) [OF assms]
  by (auto simp: wire_blocks_def encoded_count_def bytes_per_block_def)

lemma wf_sized:
  assumes "wf_stream st"
  shows "sized_stream st"
proof -
  have "message_size st k \<le> length (sm_bytes (message st k)) \<and> 4 \<le> message_size st k \<and> message_size st k \<le> 40"
    if "k < is_count st" for k
    using wf_stream_message(3-5) [OF assms that] by simp
  then show ?thesis using assms by (simp add: wf_stream_def sized_stream_def)
qed

lemma sized_message:
  assumes "sized_stream st" "k < is_count st"
  shows "length (message_bytes st k) = message_size st k"
    "message_size st k \<le> length (sm_bytes (message st k))"
    "4 \<le> message_size st k" "message_size st k \<le> 40"
  using assms by (simp_all add: sized_stream_def message_bytes_def)

lemma sized_blocks:
  assumes "sized_stream st" "k < is_count st"
  shows "2 \<le> wire_blocks st k" "wire_blocks st k \<le> 7"
  using sized_message(3,4) [OF assms]
  by (auto simp: wire_blocks_def encoded_count_def bytes_per_block_def)

lemma wire_start_arrival: "message_arrival st k \<le> wire_start st k"
  by (cases k) auto

lemma received_before_start: "j < k \<Longrightarrow> received st j \<le> wire_start st k"
proof (induction k)
  case (Suc k)
  show ?case
  proof (cases "j = k")
    case True
    then show ?thesis by (simp add: received_def)
  next
    case False
    with Suc have "received st j \<le> wire_start st k" by simp
    then show ?thesis by simp
  qed
qed simp

lemma start_le_received: "wire_start st k \<le> received st k"
  by (simp add: received_def)

lemma wire_start_mono: "j \<le> k \<Longrightarrow> wire_start st j \<le> wire_start st k"
  using received_before_start [of j k st] start_le_received [of st j] by (cases "j = k") auto

lemma received_gap:
  assumes "sized_stream st" "k < is_count st" "j < k"
  shows "received st j + 2 \<le> received st k"
  using received_before_start [OF assms(3), of st] sized_blocks(1) [OF assms(1,2)]
  by (simp add: received_def)

lemma received_inj:
  assumes "sized_stream st" "j < is_count st" "k < is_count st" "received st j = received st k"
  shows "j = k"
  using received_gap [OF assms(1,3), of j] received_gap [OF assms(1,2), of k] assms(4)
  by (cases j k rule: linorder_cases) auto

subsection \<open>Where a message is\<close>

text \<open>The message that was received \<open>d\<close> cycles before cycle \<open>t\<close>.\<close>

definition occupant :: "itch_stream \<Rightarrow> nat \<Rightarrow> nat \<Rightarrow> nat option" where
  "occupant st d t = find (\<lambda>k. received st k + d = t) [0..<is_count st]"

text \<open>The message on the wire during cycle \<open>t\<close> that started earlier.\<close>

definition on_wire :: "itch_stream \<Rightarrow> nat \<Rightarrow> nat option" where
  "on_wire st t = find (\<lambda>k. wire_start st k < t \<and> t < received st k) [0..<is_count st]"

text \<open>How many messages were received more than \<open>d\<close> cycles before \<open>t\<close>, and how many started.\<close>

definition passed :: "itch_stream \<Rightarrow> nat \<Rightarrow> nat \<Rightarrow> nat" where
  "passed st d t = card {k. k < is_count st \<and> received st k + d < t}"

definition started :: "itch_stream \<Rightarrow> nat \<Rightarrow> nat" where
  "started st t = card {k. k < is_count st \<and> wire_start st k < t}"

lemma find_unique:
  assumes "\<And>j k. j < n \<Longrightarrow> k < n \<Longrightarrow> P j \<Longrightarrow> P k \<Longrightarrow> j = k"
  shows "find P [0..<n] = Some k \<longleftrightarrow> k < n \<and> P k"
proof
  assume "find P [0..<n] = Some k"
  then show "k < n \<and> P k" by (auto simp: find_Some_iff)
next
  assume k: "k < n \<and> P k"
  then obtain j where j: "find P [0..<n] = Some j"
    by (cases "find P [0..<n]") (auto simp: find_None_iff)
  then have "j < n \<and> P j" by (auto simp: find_Some_iff)
  with assms k j show "find P [0..<n] = Some k" by blast
qed

lemma occupant_Some:
  "sized_stream st \<Longrightarrow> occupant st d t = Some k \<longleftrightarrow> k < is_count st \<and> received st k + d = t"
  unfolding occupant_def by (rule find_unique) (auto intro: received_inj)

lemma occupant_None:
  "occupant st d t = None \<longleftrightarrow> (\<forall>k < is_count st. received st k + d \<noteq> t)"
  by (auto simp: occupant_def find_None_iff)

lemma occupant_Suc [simp]: "occupant st (Suc d) (Suc t) = occupant st d t"
  by (simp add: occupant_def)

text \<open>Messages are at least two cycles apart, so they never meet.\<close>

lemma occupant_apart:
  assumes "sized_stream st" "occupant st d t = Some k" "d' \<noteq> d" "d' < d + 2" "d < d' + 2"
  shows "occupant st d' t = None"
proof (rule ccontr)
  assume "occupant st d' t \<noteq> None"
  then obtain k' where "occupant st d' t = Some k'" by auto
  with assms(1,2) have k: "k < is_count st" "received st k + d = t" "k' < is_count st"
    "received st k' + d' = t" by (simp_all add: occupant_Some)
  with assms(3-5) received_gap [OF assms(1) k(1), of k'] received_gap [OF assms(1) k(3), of k]
  show False by (cases k k' rule: linorder_cases) auto
qed

lemma card_initial:
  assumes "\<And>j k. j \<le> k \<Longrightarrow> k < n \<Longrightarrow> P k \<Longrightarrow> P j"
  shows "k < card {k. k < n \<and> P k} \<longleftrightarrow> k < n \<and> P k"
proof -
  let ?S = "{k. k < n \<and> P k}"
  have fin: "finite ?S" by simp
  obtain m where m: "?S = {..<m}"
  proof (cases "?S = {}")
    case True
    then show ?thesis using that [of 0] by simp
  next
    case False
    with fin obtain m where m: "m \<in> ?S" "\<forall>x \<in> ?S. x \<le> m" by (meson Max_ge Max_in)
    have "j \<in> ?S \<longleftrightarrow> j < Suc m" for j
      using m assms [of j m] by (auto simp: less_Suc_eq_le)
    then have "?S = {..<Suc m}" by (intro set_eqI) (simp only: lessThan_iff)
    then show ?thesis by (rule that)
  qed
  then have "card ?S = m" by simp
  moreover have "k \<in> ?S \<longleftrightarrow> k < m" using m by simp
  ultimately show ?thesis by simp
qed

lemma received_mono: "sized_stream st \<Longrightarrow> k < is_count st \<Longrightarrow> j \<le> k \<Longrightarrow> received st j \<le> received st k"
  using received_gap [of st k j] by (cases "j = k") auto

lemma passed_less:
  assumes "sized_stream st"
  shows "k < passed st d t \<longleftrightarrow> k < is_count st \<and> received st k + d < t"
  unfolding passed_def
proof (rule card_initial)
  fix j k assume "j \<le> k" "k < is_count st" "received st k + d < t"
  with received_mono [OF assms, of k j] show "received st j + d < t" by simp
qed

lemma started_less: "k < started st t \<longleftrightarrow> k < is_count st \<and> wire_start st k < t"
  unfolding started_def
proof (rule card_initial)
  fix j k assume "j \<le> k" "wire_start st k < t"
  with wire_start_mono [of j k st] show "wire_start st j < t" by simp
qed

lemma nat_eq_by_less: "(\<And>k. k < a \<longleftrightarrow> k < b) \<Longrightarrow> a = (b :: nat)"
  by (meson less_irrefl linorder_neqE_nat)

lemma passed_le: "passed st d t \<le> is_count st" and started_le: "started st t \<le> is_count st"
  unfolding passed_def started_def
  by (rule order_trans [OF card_mono [of "{..<is_count st}"]]; auto)+

lemma passed_occupant:
  assumes "sized_stream st" "occupant st d t = Some k"
  shows "passed st d t = k" "passed st d (Suc t) = Suc k"
proof -
  have k: "k < is_count st" "received st k + d = t" using assms by (simp_all add: occupant_Some)
  have below: "j < is_count st \<and> received st j + d < t \<longleftrightarrow> j < k" for j
    using k received_gap [OF assms(1) k(1), of j] received_mono [OF assms(1), of j k] by fastforce
  show "passed st d t = k"
    by (rule nat_eq_by_less) (simp only: passed_less [OF assms(1)] below)
  have "j < is_count st \<and> received st j + d < Suc t \<longleftrightarrow> j < Suc k" for j
    using below [of j] k received_inj [OF assms(1), of j k] by (auto simp: less_Suc_eq)
  then show "passed st d (Suc t) = Suc k"
    by (intro nat_eq_by_less) (simp only: passed_less [OF assms(1)])
qed

lemma passed_vacant:
  assumes "sized_stream st" "occupant st d t = None"
  shows "passed st d (Suc t) = passed st d t"
  using assms(2) by (intro nat_eq_by_less) (auto simp: passed_less [OF assms(1)] occupant_None less_Suc_eq)

lemma passed_Suc_Suc [simp]: "passed st (Suc d) (Suc t) = passed st d t"
  by (simp add: passed_def)

lemma passed_0 [simp]: "passed st d 0 = 0" and started_0 [simp]: "started st 0 = 0"
  by (simp_all add: passed_def started_def)

lemma occupant_0:
  assumes "sized_stream st" shows "occupant st d 0 = None"
proof -
  have "received st k \<noteq> 0" if "k < is_count st" for k
    using sized_blocks(1) [OF assms that] by (simp add: received_def)
  then show ?thesis by (auto simp: occupant_None)
qed

lemma on_wire_Some:
  assumes "sized_stream st"
  shows "on_wire st t = Some k \<longleftrightarrow> k < is_count st \<and> wire_start st k < t \<and> t < received st k"
  unfolding on_wire_def
proof (rule find_unique)
  fix j k assume "wire_start st j < t \<and> t < received st j" "wire_start st k < t \<and> t < received st k"
  then show "j = k"
    using received_before_start [of j k st] received_before_start [of k j st]
    by (cases j k rule: linorder_cases) auto
qed

lemma on_wire_0 [simp]: "on_wire st 0 = None"
  by (simp add: on_wire_def find_None_iff)

text \<open>The book after each message.\<close>

lemma book_after_prefix: "k \<le> n \<Longrightarrow> book_after st n \<noteq> None \<Longrightarrow> book_after st k \<noteq> None"
  by (induction rule: inc_induct) (auto split: bind_splits prod.splits if_splits)

lemma book_after_step:
  assumes "book_after st (Suc k) \<noteq> None" "book_after st k = Some (orders, book)"
  shows "\<exists>orders' book'. apply_event (decoded (message_bytes st k)) orders book = Some (True, orders', book')
    \<and> book_after st (Suc k) = Some (orders', book')
    \<and> expected_quote st k = quote_of (is_empty_ask st) book'"
  using assms by (auto simp: expected_quote_def split: bind_splits prod.splits if_splits)

lemma wf_book_after: "wf_stream st \<Longrightarrow> k \<le> is_count st \<Longrightarrow> book_after st k \<noteq> None"
  using book_after_prefix [of k "is_count st" st] by (simp add: wf_stream_def)

end
