(* ===== verification/Tick_Stages.thy ===== *)
theory Tick_Stages
  imports Schedule
begin

text \<open>
  What one cycle of each pipeline stage does on a stream it can process, stage by stage in the
  order of \<open>posedge\<close> and \<open>negedge\<close>. Before cycle \<open>t\<close> a stage holds the message received a
  fixed number of cycles earlier, if there is one; each lemma says what the stage makes of it.
\<close>

subsection \<open>What the parts of the state hold\<close>

definition opt_list :: "'b option \<Rightarrow> 'b list" where
  "opt_list x = (case x of None \<Rightarrow> [] | Some v \<Rightarrow> [v])"

lemma opt_list_simps [simp]: "opt_list None = []" "opt_list (Some v) = [v]"
  by (simp_all add: opt_list_def)

definition slot_holds :: "tick_slot \<Rightarrow> nat option \<Rightarrow> nat \<Rightarrow> nat \<Rightarrow> bool" where
  "slot_holds s m left avail \<longleftrightarrow>
     sl_msg s = m \<and> (m \<noteq> None \<longrightarrow> sl_left s = left \<and> sl_avail s = of_nat avail)"

definition ring_holds :: "'b ring_buffer \<Rightarrow> nat \<Rightarrow> 'b list \<Rightarrow> bool" where
  "ring_holds r c xs \<longleftrightarrow> rb_inv r \<and> rb_capacity r = c \<and> rb_contents r = xs"

lemma ring_holds_push:
  assumes "ring_holds r c xs" "length xs < c"
  obtains r' where "rb_push x r = (True, r')" "ring_holds r' c (xs @ [x])"
  using ring.push_room [of r x] assms by (auto simp: ring_holds_def)

lemma ring_holds_pop:
  assumes "ring_holds r c (x # xs)"
  obtains r' where "rb_pop r = (Some x, r')" "ring_holds r' c xs"
  using ring.pop_front [of r x xs] assms by (auto simp: ring_holds_def)

lemma ring_holds_empty: "ring_holds r c [] \<Longrightarrow> rb_pop r = (None, r)"
  using ring.pop_empty [of r] by (simp add: ring_holds_def)

lemma ring_holds_new: "0 < c \<Longrightarrow> ring_holds (rb_new c) c []"
  by (simp add: ring_holds_def rb_new_inv)

text \<open>The record of message \<open>k\<close>: each field is filled by the time its stage is done.\<close>

definition msg_ok ::
  "itch_stream \<Rightarrow> nat \<Rightarrow> nat \<Rightarrow> nat \<Rightarrow> nat \<Rightarrow> nat \<Rightarrow> nat \<Rightarrow> nat \<Rightarrow> msg_state \<Rightarrow> bool" where
  "msg_ok st k tb tp tf te tq to s \<longleftrightarrow>
     length (ms_blocks s) = 8 \<and> length (ms_payload s) = 48 \<and> length (ms_frame s) = 128
     \<and> (wire_start st k < tb \<longrightarrow> ms_block_count s = wire_blocks st k
          \<and> take (wire_blocks st k) (ms_blocks s)
            = map (encode_block (message_bytes st k) (crc32_compute (message_bytes st k)))
                [0..<wire_blocks st k])
     \<and> (received st k \<le> tp \<longrightarrow> ms_frame_len s = message_size st k
          \<and> take (message_size st k) (ms_payload s) = message_bytes st k)
     \<and> (received st k < tf \<longrightarrow> take (message_size st k) (ms_frame s) = message_bytes st k)
     \<and> (received st k + 2 < te \<longrightarrow> ms_event s = decoded (message_bytes st k))
     \<and> (received st k + 3 < tq \<longrightarrow> ms_quote s = expected_quote st k)
     \<and> (received st k + 7 < to \<longrightarrow> ms_ofi s = expected_ofi st k)"

definition states_ok ::
  "itch_stream \<Rightarrow> nat \<Rightarrow> nat \<Rightarrow> nat \<Rightarrow> nat \<Rightarrow> nat \<Rightarrow> nat \<Rightarrow> msg_state list \<Rightarrow> bool" where
  "states_ok st tb tp tf te tq to xs \<longleftrightarrow> length xs = is_capacity st
     \<and> (\<forall>k < is_count st. msg_ok st k tb tp tf te tq to (xs ! k))"

lemma states_ok_at:
  assumes "sized_stream st" "states_ok st tb tp tf te tq to xs" "k < is_count st"
  shows "at k xs = Some (xs ! k)" "k < length xs" "msg_ok st k tb tp tf te tq to (xs ! k)"
  using assms by (auto simp: at_def states_ok_def sized_stream_def)

lemma states_ok_update:
  assumes "states_ok st tb tp tf te tq to xs" "k < length xs" "msg_ok st k tb' tp' tf' te' tq' to' s"
    and "\<And>j s. j < is_count st \<Longrightarrow> j \<noteq> k \<Longrightarrow> msg_ok st j tb tp tf te tq to s
      \<Longrightarrow> msg_ok st j tb' tp' tf' te' tq' to' s"
  shows "states_ok st tb' tp' tf' te' tq' to' (xs[k := s])"
  using assms(1-3) assms(4) by (simp add: states_ok_def nth_list_update)

lemma states_ok_weaken:
  assumes "states_ok st tb tp tf te tq to xs"
    and "\<And>j s. j < is_count st \<Longrightarrow> msg_ok st j tb tp tf te tq to s
      \<Longrightarrow> msg_ok st j tb' tp' tf' te' tq' to' s"
  shows "states_ok st tb' tp' tf' te' tq' to' xs"
  using assms by (auto simp: states_ok_def)

subsection \<open>Cycle numbers\<close>

lemma cycle_le: "t < 2 ^ 64 \<Longrightarrow> a \<le> t \<Longrightarrow> (of_nat a :: u64) \<le> of_nat t"
  by (simp add: word_le_nat_alt unat_of_nat)

lemma arrival_after: "t < 2 ^ 64 \<Longrightarrow> (of_nat t :: u64) < a \<longleftrightarrow> t < unat a"
  by (simp add: word_less_nat_alt unat_of_nat)

lemma latency_value:
  assumes "t < 2 ^ 64" "unat a \<le> t"
  shows "(ucast ((of_nat t :: u64) - a + 1) :: u32) = of_nat (t - unat a + 1)"
proof -
  have "(of_nat t :: u64) - a + 1 = of_nat (t - unat a + 1)"
    using assms(2) by (simp add: of_nat_diff)
  moreover have "(ucast (of_nat n :: u64) :: u32) = of_nat n" for n
    by (simp add: unsigned_of_nat word_of_nat_eq_iff min_def)
  ultimately show ?thesis by (simp only:)
qed

lemma slot_holds_None [simp]: "slot_holds s None l a \<longleftrightarrow> sl_msg s = None"
  by (simp add: slot_holds_def)

lemma slot_holds_load [simp]: "slot_holds (slot_load k (of_nat a) l) (Some k) l a"
  by (simp add: slot_holds_def slot_load_def)

lemma slot_vacant:
  assumes "sl_msg s = None"
  shows "slot_free s" "slot_work c s = (False, s)" "\<not> slot_finished c s" "\<not> slot_ready c s"
  using assms by (simp_all add: slot_free_def slot_work_def slot_finished_def slot_ready_def)

lemma slot_busy:
  assumes "slot_holds s (Some k) l a" "t < 2 ^ 64" "a \<le> t"
  shows "\<not> slot_free s" "sl_msg s = Some k" "slot_ready (of_nat t) s"
    "slot_work (of_nat t) s = (0 < l, s\<lparr>sl_left := l - 1\<rparr>)"
    "slot_finished (of_nat t) s \<longleftrightarrow> l = 0"
  using assms cycle_le [OF assms(2,3)]
  by (auto simp: slot_holds_def slot_free_def slot_work_def slot_finished_def slot_ready_def)

subsection \<open>DMA\<close>

definition dma_part :: "itch_stream \<Rightarrow> nat \<Rightarrow> tick_pipeline \<Rightarrow> bool" where
  "dma_part st t p \<longleftrightarrow> slot_holds (tt_dma p) (occupant st 9 t) 1 (t - 1)
     \<and> dma_inv (tt_engine p) \<and> dma_contents (tt_engine p) = []
     \<and> tt_completed p = passed st 9 t \<and> dma_posted (tt_engine p) = of_nat (passed st 9 t)
     \<and> length (tt_latency p) = is_capacity st
     \<and> (\<forall>k < passed st 9 t. tt_latency p ! k = of_nat (expected_latency st k))"

lemma post_and_drain_empty:
  assumes "dma_inv e" "dma_contents e = []"
  shows "\<exists>e'. post_and_drain tlp e = (False, e') \<and> dma_inv e' \<and> dma_contents e' = []
    \<and> dma_posted e' = dma_posted e + 1"
proof -
  obtain b e1 where e1: "dma_post_write tlp e = (b, e1)" by fastforce
  note post = dma_post_write_cases [OF assms(1) e1]
  have b: "b" and c1: "dma_contents e1 = [tlp]" using post assms(2) by (auto simp: ring_depth_def)
  obtain v e2 where e2: "dma_consume e1 = (v, e2)" by fastforce
  note con = dma_consume_cases [OF post(2) e2]
  from b c1 con post show ?thesis
    by (intro exI [of _ "dma_clear_msix e2"]) (simp add: post_and_drain_def e1 e2)
qed

lemma expected_latency_received:
  "k < is_count st \<Longrightarrow> received st k + 9 - message_arrival st k + 1 = expected_latency st k"
  using wire_start_arrival [of st k] by (simp add: expected_latency_def received_def)

text \<open>The first of the two cycles of the DMA stage takes a message from its ring, the second one
  posts the decision.\<close>

lemma dma_stage_take:
  assumes "sl_msg (tt_dma p) = None" and q: "ring_holds (tt_dma_q p) 64 [k]"
  shows "\<exists>q'. dma_stage st (of_nat t) p = Some (p\<lparr>tt_dma := slot_load k (of_nat t) 1, tt_dma_q := q'\<rparr>)
    \<and> ring_holds q' 64 []"
proof -
  obtain q' where q': "rb_pop (tt_dma_q p) = (Some k, q')" "ring_holds q' 64 []"
    using ring_holds_pop [of "tt_dma_q p" 64 k "[]"] q by auto
  have "slot_work (of_nat t) (slot_load k (of_nat t) 2) = (True, slot_load k (of_nat t) 1)"
    by (simp add: slot_work_def slot_load_def)
  then show ?thesis
    using q' assms(1)
    by (intro exI [of _ q']) (simp add: dma_stage_def slot_vacant dma_post_cycles_def slot_load_def Let_def)
qed

lemma dma_stage_post:
  assumes wf: "sized_stream st" and t: "t < 2 ^ 64" and part: "dma_part st t p" and some: "occupant st 9 t = Some k"
    and states: "states_ok st tb tp tf te tq to (tt_state p)"
  shows "\<exists>e. dma_stage st (of_nat t) p
      = Some (p\<lparr>tt_dma := (tt_dma p)\<lparr>sl_left := 0, sl_msg := None\<rparr>, tt_engine := e,
          tt_latency := (tt_latency p)[k := of_nat (expected_latency st k)], tt_completed := tt_completed p + 1\<rparr>)
    \<and> dma_inv e \<and> dma_contents e = [] \<and> dma_posted e = dma_posted (tt_engine p) + 1"
proof -
  have k: "k < is_count st" "received st k + 9 = t" using some wf by (simp_all add: occupant_Some)
  have slot: "slot_holds (tt_dma p) (Some k) 1 (t - 1)" using part some by (simp add: dma_part_def)
  note busy = slot_busy [OF slot t diff_le_self]
  have cap: "k < is_capacity st" "length (is_messages st) = is_capacity st"
    using wf k(1) by (auto simp: sized_stream_def)
  obtain e where e: "post_and_drain (decision_tlp k (tt_state p ! k)) (tt_engine p) = (False, e)"
    "dma_inv e" "dma_contents e = []" "dma_posted e = dma_posted (tt_engine p) + 1"
    using post_and_drain_empty [of "tt_engine p" "decision_tlp k (tt_state p ! k)"] part
    by (auto simp: dma_part_def)
  have arrival: "unat (sm_arrival (is_messages st ! k)) \<le> t"
    using wire_start_arrival [of st k] k(2) by (simp add: received_def message_arrival_def message_def)
  have lat: "(ucast ((of_nat t :: u64) - sm_arrival (is_messages st ! k) + 1) :: u32)
      = of_nat (expected_latency st k)"
    unfolding latency_value [OF t arrival] expected_latency_received [OF k(1), symmetric]
    using k(2) by (simp only: message_arrival_def message_def)
  show ?thesis
    using states_ok_at [OF wf states k(1)] cap part e
    by (intro exI [of _ e]) (simp add: dma_stage_def busy post_decision_def Let_def fail_if_def lat at_def dma_part_def)
qed

lemma dma_stage_step:
  assumes wf: "sized_stream st" and t: "t < 2 ^ 64" and part: "dma_part st t p"
    and q: "ring_holds (tt_dma_q p) 64 (opt_list (occupant st 8 t))"
    and states: "states_ok st tb tp tf te tq to (tt_state p)"
  shows "\<exists>s q' e l c. dma_stage st (of_nat t) p
      = Some (p\<lparr>tt_dma := s, tt_dma_q := q', tt_engine := e, tt_latency := l, tt_completed := c\<rparr>)
    \<and> dma_part st (Suc t) (p\<lparr>tt_dma := s, tt_dma_q := q', tt_engine := e, tt_latency := l, tt_completed := c\<rparr>)
    \<and> ring_holds q' 64 []"
proof (cases "occupant st 9 t")
  case None
  have shift: "occupant st 9 (Suc t) = occupant st 8 t" using occupant_Suc [of st 8 t] by simp
  have pass: "passed st 9 (Suc t) = passed st 9 t" by (rule passed_vacant [OF wf None])
  have free: "sl_msg (tt_dma p) = None" using part None by (simp add: dma_part_def)
  show ?thesis
  proof (cases "occupant st 8 t")
    case None
    have "dma_stage st (of_nat t) p = Some p"
      using q None by (simp add: dma_stage_def slot_vacant free ring_holds_empty)
    moreover have "dma_part st (Suc t) p" using part pass shift None free by (simp add: dma_part_def)
    ultimately show ?thesis using q None
      by (intro exI [of _ "tt_dma p"] exI [of _ "tt_dma_q p"] exI [of _ "tt_engine p"]
          exI [of _ "tt_latency p"] exI [of _ "tt_completed p"]) simp
  next
    case (Some k)
    then obtain q' where q': "dma_stage st (of_nat t) p
        = Some (p\<lparr>tt_dma := slot_load k (of_nat t) 1, tt_dma_q := q'\<rparr>)" "ring_holds q' 64 []"
      using dma_stage_take [OF free, of k st t] q by auto
    moreover have "dma_part st (Suc t) (p\<lparr>tt_dma := slot_load k (of_nat t) 1, tt_dma_q := q'\<rparr>)"
      using part pass shift Some by (simp add: dma_part_def)
    ultimately show ?thesis
      by (intro exI [of _ "slot_load k (of_nat t) 1"] exI [of _ q'] exI [of _ "tt_engine p"]
          exI [of _ "tt_latency p"] exI [of _ "tt_completed p"]) simp
  qed
next
  case (Some k)
  obtain e where e: "dma_stage st (of_nat t) p
      = Some (p\<lparr>tt_dma := (tt_dma p)\<lparr>sl_left := 0, sl_msg := None\<rparr>, tt_engine := e,
          tt_latency := (tt_latency p)[k := of_nat (expected_latency st k)], tt_completed := tt_completed p + 1\<rparr>)"
    "dma_inv e" "dma_contents e = []" "dma_posted e = dma_posted (tt_engine p) + 1"
    using dma_stage_post [OF wf t part Some states] by blast
  have none: "occupant st 8 t = None" by (rule occupant_apart [OF wf Some]) simp_all
  have shift: "occupant st 9 (Suc t) = None" using occupant_Suc [of st 8 t] none by simp
  have pass: "passed st 9 t = k" "passed st 9 (Suc t) = Suc k" by (rule passed_occupant [OF wf Some])+
  have "k < is_capacity st" using wf Some by (auto simp: sized_stream_def occupant_Some)
  then have "dma_part st (Suc t) (p\<lparr>tt_dma := (tt_dma p)\<lparr>sl_left := 0, sl_msg := None\<rparr>, tt_engine := e,
      tt_latency := (tt_latency p)[k := of_nat (expected_latency st k)], tt_completed := tt_completed p + 1\<rparr>)"
    using part e(2-4) shift pass by (auto simp: dma_part_def nth_list_update less_Suc_eq)
  with e(1) q none show ?thesis
    by (intro exI [of _ "(tt_dma p)\<lparr>sl_left := 0, sl_msg := None\<rparr>"] exI [of _ "tt_dma_q p"] exI [of _ e]
        exI [of _ "(tt_latency p)[k := of_nat (expected_latency st k)]"] exI [of _ "tt_completed p + 1"]) simp
qed

subsection \<open>OFI issue\<close>

definition ofi_slot :: "itch_stream \<Rightarrow> nat option \<Rightarrow> ofi_stage" where
  "ofi_slot st m = (case m of None \<Rightarrow> stage_empty
     | Some k \<Rightarrow> \<lparr>os_valid = True, os_value = expected_ofi st k\<rparr>)"

definition ofi_part :: "itch_stream \<Rightarrow> nat \<Rightarrow> ofi_dsp \<Rightarrow> bool" where
  "ofi_part st t d \<longleftrightarrow>
     od_pipeline d = [ofi_slot st (occupant st 6 t), ofi_slot st (occupant st 7 t), ofi_slot st (occupant st 8 t)]
     \<and> (if od_valid_previous d then Some (od_previous d) else None) = previous_quote st (passed st 5 t)"

lemma ofi_stage_step:
  assumes wf: "sized_stream st" and t: "t < 2 ^ 64"
    and slot: "slot_holds (tt_ofi_in p) (occupant st 5 t) 0 t"
    and dsp: "ofi_part st t (tt_ofi p)"
    and ring: "ring_holds (tt_ofi_ring p) 16 (opt_list (occupant st 7 t) @ opt_list (occupant st 6 t))"
    and states: "states_ok st tb tp tf te t to (tt_state p)"
  shows "\<exists>d r s. ofi_stage_step (of_nat t) p = Some (p\<lparr>tt_ofi := d, tt_ofi_ring := r, tt_ofi_in := s\<rparr>)
    \<and> ofi_part st (Suc t) d \<and> sl_msg s = None
    \<and> ring_holds r 16 (opt_list (occupant st 7 t) @ opt_list (occupant st 6 t) @ opt_list (occupant st 5 t))"
proof -
  have shift: "occupant st 6 (Suc t) = occupant st 5 t" "occupant st 7 (Suc t) = occupant st 6 t"
    "occupant st 8 (Suc t) = occupant st 7 t"
    using occupant_Suc [of st 5 t] occupant_Suc [of st 6 t] occupant_Suc [of st 7 t] by simp_all
  show ?thesis
  proof (cases "occupant st 5 t")
    case None
    have idle: "sl_msg (tt_ofi_in p) = None" using slot None by simp
    have "ofi_part st (Suc t) (ofi_posedge_idle (tt_ofi p))"
      using dsp None passed_vacant [OF wf None]
      by (auto simp: ofi_part_def ofi_posedge_idle_def shift ofi_slot_def)
    moreover have "ofi_stage_step (of_nat t) p = Some (p\<lparr>tt_ofi := ofi_posedge_idle (tt_ofi p)\<rparr>)"
      using idle by (simp add: ofi_stage_step_def slot_vacant)
    ultimately show ?thesis using idle ring None
      by (intro exI [of _ "ofi_posedge_idle (tt_ofi p)"] exI [of _ "tt_ofi_ring p"] exI [of _ "tt_ofi_in p"])
        simp
  next
    case (Some k)
    have k: "k < is_count st" "received st k + 5 = t" using Some wf by (simp_all add: occupant_Some)
    note busy = slot_busy [OF slot [unfolded Some] t order_refl]
    have pass: "passed st 5 t = k" "passed st 5 (Suc t) = Suc k" by (rule passed_occupant [OF wf Some])+
    define q where "q = ms_quote (tt_state p ! k)"
    have q: "q = expected_quote st k"
      using states_ok_at(3) [OF wf states k(1)] k(2) by (simp add: msg_ok_def q_def)
    obtain r where r: "rb_push k (tt_ofi_ring p) = (True, r)"
      "ring_holds r 16 ((opt_list (occupant st 7 t) @ opt_list (occupant st 6 t)) @ [k])"
      using ring by (rule ring_holds_push) (auto simp: opt_list_def split: option.split)
    have "ofi_part st (Suc t) (ofi_posedge q (tt_ofi p))"
      using dsp Some pass
      by (simp add: ofi_part_def ofi_posedge_def shift ofi_slot_def ofi_sides_cks q expected_ofi_def
          previous_quote_def Let_def)
    moreover have "ofi_stage_step (of_nat t) p = Some (p\<lparr>tt_ofi := ofi_posedge q (tt_ofi p),
        tt_ofi_ring := r, tt_ofi_in := (tt_ofi_in p)\<lparr>sl_msg := None\<rparr>\<rparr>)"
      using states_ok_at(1) [OF wf states k(1)] r
      by (simp add: ofi_stage_step_def busy fail_if_def q_def)
    ultimately show ?thesis using r Some
      by (intro exI [of _ "ofi_posedge q (tt_ofi p)"] exI [of _ r]
          exI [of _ "(tt_ofi_in p)\<lparr>sl_msg := None\<rparr>"]) simp
  qed
qed

subsection \<open>Quote RAM read-back\<close>

definition read_request :: "nat option \<Rightarrow> book_quote port_request" where
  "read_request m = (case m of None \<Rightarrow> no_request
     | Some k \<Rightarrow> no_request\<lparr>rq_read := True, rq_address := k mod 32\<rparr>)"

lemma read_stage_step:
  assumes t: "t < 2 ^ 64" and slot: "slot_holds (tt_rd p) (occupant st 4 t) 1 t"
    and ring: "ring_holds (tt_bram_ring p) 16 []"
  shows "\<exists>r s. read_stage (of_nat t) p
      = Some (read_request (occupant st 4 t), p\<lparr>tt_bram_ring := r, tt_rd := s\<rparr>)
    \<and> sl_msg s = None \<and> ring_holds r 16 (opt_list (occupant st 4 t))"
proof (cases "occupant st 4 t")
  case None
  with slot ring show ?thesis
    by (intro exI [of _ "tt_bram_ring p"] exI [of _ "tt_rd p"])
      (simp add: read_stage_def slot_vacant read_request_def)
next
  case (Some k)
  note busy = slot_busy [OF slot [unfolded Some] t order_refl]
  obtain r where r: "rb_push k (tt_bram_ring p) = (True, r)" "ring_holds r 16 ([] @ [k])"
    using ring by (rule ring_holds_push) simp
  have "read_stage (of_nat t) p
      = Some (read_request (Some k), p\<lparr>tt_bram_ring := r, tt_rd := (tt_rd p)\<lparr>sl_msg := None\<rparr>\<rparr>)"
    by (simp add: read_stage_def busy r(1) fail_if_def read_request_def)
  with Some r(2) show ?thesis
    by (intro exI [of _ r] exI [of _ "(tt_rd p)\<lparr>sl_msg := None\<rparr>"]) simp
qed

subsection \<open>Book\<close>

definition book_part :: "itch_stream \<Rightarrow> nat \<Rightarrow> tick_pipeline \<Rightarrow> bool" where
  "book_part st t p \<longleftrightarrow> book_after st (passed st 3 t) = Some (tt_orders p, tt_book p)"

definition write_request :: "itch_stream \<Rightarrow> nat option \<Rightarrow> book_quote port_request" where
  "write_request st m = (case m of None \<Rightarrow> no_request
     | Some k \<Rightarrow> no_request\<lparr>rq_write := True, rq_address := k mod 32, rq_data := expected_quote st k\<rparr>)"

lemma msg_ok_quote:
  assumes "msg_ok st k tb tp tf te t to s" "received st k + 3 = t"
  shows "msg_ok st k tb tp tf te (Suc t) to (s\<lparr>ms_quote := expected_quote st k\<rparr>)"
  using assms by (simp add: msg_ok_def)

lemma msg_ok_quote_other:
  assumes "sized_stream st" "k < is_count st" "received st k + 3 = t" "j < is_count st" "j \<noteq> k"
    "msg_ok st j tb tp tf te t to s"
  shows "msg_ok st j tb tp tf te (Suc t) to s"
proof -
  have "received st j + 3 \<noteq> t" using received_inj [OF assms(1,4,2)] assms(3,5) by auto
  with assms(6) show ?thesis by (simp add: msg_ok_def less_Suc_eq)
qed

lemma msg_ok_quote_vacant:
  "occupant st 3 t = None \<Longrightarrow> j < is_count st \<Longrightarrow> msg_ok st j tb tp tf te t to s \<Longrightarrow>
   msg_ok st j tb tp tf te (Suc t) to s"
  by (auto simp: msg_ok_def occupant_None less_Suc_eq)

lemma book_stage_apply:
  assumes wf: "sized_stream st" and t: "t < 2 ^ 64"
    and slot: "slot_holds (tt_book_slot p) (Some k) 1 t" and rd: "sl_msg (tt_rd p) = None"
    and part: "book_part st t p" and some: "occupant st 3 t = Some k" and go: "book_after st (Suc k) \<noteq> None"
    and states: "states_ok st tb tp tf t t to (tt_state p)"
  shows "\<exists>orders book. book_stage st (of_nat t) p = Some (write_request st (Some k),
      p\<lparr>tt_orders := orders, tt_book := book,
        tt_state := (tt_state p)[k := (tt_state p ! k)\<lparr>ms_quote := expected_quote st k\<rparr>],
        tt_book_slot := (tt_book_slot p)\<lparr>sl_left := 0, sl_msg := None\<rparr>, tt_rd := slot_load k (of_nat (Suc t)) 1\<rparr>)
    \<and> book_after st (Suc k) = Some (orders, book)"
proof -
  have k: "k < is_count st" "received st k + 3 = t" using some wf by (simp_all add: occupant_Some)
  note busy = slot_busy [OF slot t order_refl]
  note at_k = states_ok_at [OF wf states k(1)]
  have event: "ms_event (tt_state p ! k) = decoded (message_bytes st k)"
    using at_k(3) k(2) by (simp add: msg_ok_def)
  have "passed st 3 t = k" by (rule passed_occupant [OF wf some])
  then obtain orders book where step:
    "apply_event (decoded (message_bytes st k)) (tt_orders p) (tt_book p) = Some (True, orders, book)"
    "book_after st (Suc k) = Some (orders, book)"
    "expected_quote st k = quote_of (is_empty_ask st) book"
    using book_after_step [OF go] part by (auto simp: book_part_def)
  have "slot_finished (of_nat t) ((tt_book_slot p)\<lparr>sl_left := 0\<rparr>)"
    using busy(2,3) by (simp add: slot_finished_def slot_ready_def)
  then show ?thesis
    using rd busy(2,4) at_k(1,2) step
    by (intro exI [of _ orders] exI [of _ book]) (simp add: book_stage_def Let_def slot_free_def apply_to_book_def
        event fail_if_def set_state_def at_def write_request_def add.commute)
qed

lemma book_stage_step:
  assumes wf: "sized_stream st" and t: "t < 2 ^ 64"
    and slot: "slot_holds (tt_book_slot p) (occupant st 3 t) 1 t" and rd: "sl_msg (tt_rd p) = None"
    and part: "book_part st t p"
    and go: "\<And>k. occupant st 3 t = Some k \<Longrightarrow> book_after st (Suc k) \<noteq> None"
    and states: "states_ok st tb tp tf t t to (tt_state p)"
  shows "\<exists>o' b xs s r. book_stage st (of_nat t) p = Some (write_request st (occupant st 3 t),
      p\<lparr>tt_orders := o', tt_book := b, tt_state := xs, tt_book_slot := s, tt_rd := r\<rparr>)
    \<and> book_after st (passed st 3 (Suc t)) = Some (o', b)
    \<and> states_ok st tb tp tf t (Suc t) to xs \<and> sl_msg s = None
    \<and> slot_holds r (occupant st 4 (Suc t)) 1 (Suc t)"
proof -
  have shift: "occupant st 4 (Suc t) = occupant st 3 t" using occupant_Suc [of st 3 t] by simp
  show ?thesis
  proof (cases "occupant st 3 t")
    case None
    have "book_stage st (of_nat t) p = Some (no_request, p)"
      using slot None by (simp add: book_stage_def slot_vacant Let_def)
    moreover have "states_ok st tb tp tf t (Suc t) to (tt_state p)"
      using states by (rule states_ok_weaken) (rule msg_ok_quote_vacant [OF None])
    ultimately show ?thesis
      using slot rd part passed_vacant [OF wf None]
      by (intro exI [of _ "tt_orders p"] exI [of _ "tt_book p"] exI [of _ "tt_state p"]
          exI [of _ "tt_book_slot p"] exI [of _ "tt_rd p"])
        (simp add: None shift write_request_def book_part_def)
  next
    case (Some k)
    have k: "k < is_count st" "received st k + 3 = t" using Some wf by (simp_all add: occupant_Some)
    obtain orders book where "book_stage st (of_nat t) p = Some (write_request st (Some k),
      p\<lparr>tt_orders := orders, tt_book := book,
        tt_state := (tt_state p)[k := (tt_state p ! k)\<lparr>ms_quote := expected_quote st k\<rparr>],
        tt_book_slot := (tt_book_slot p)\<lparr>sl_left := 0, sl_msg := None\<rparr>, tt_rd := slot_load k (of_nat (Suc t)) 1\<rparr>)"
      "book_after st (Suc k) = Some (orders, book)"
      using book_stage_apply [OF wf t slot [unfolded Some] rd part Some go [OF Some] states] by blast
    moreover note at_k = states_ok_at [OF wf states k(1)]
    have "states_ok st tb tp tf t (Suc t) to
        ((tt_state p)[k := (tt_state p ! k)\<lparr>ms_quote := expected_quote st k\<rparr>])"
      by (rule states_ok_update [OF states at_k(2) msg_ok_quote [OF at_k(3) k(2)]])
        (rule msg_ok_quote_other [OF wf k])
    moreover have "passed st 3 (Suc t) = Suc k" by (rule passed_occupant [OF wf Some])
    ultimately show ?thesis unfolding Some shift by (intro exI conjI) (assumption, simp_all del: of_nat_Suc)
  qed
qed

subsection \<open>Parse\<close>

definition parse_holds :: "itch_stream \<Rightarrow> nat \<Rightarrow> tick_slot \<Rightarrow> bool" where
  "parse_holds st t s \<longleftrightarrow>
     (case occupant st 2 t of
        Some k \<Rightarrow> slot_holds s (Some k) 1 (t - 1)
      | None \<Rightarrow> slot_holds s (occupant st 1 t) 2 t)"

lemma parse_one_message:
  assumes "wf_message m" "length (ps_events ps) = max_events"
  shows "\<exists>ps'. itch_parse m ps = (1, ps') \<and> ps_status ps' = Parse_Ok \<and> ps_consumed ps' = length m
    \<and> at 0 (ps_events ps') = Some (decoded m) \<and> length (ps_events ps') = max_events"
proof -
  have "stop_status (length [m]) [] = Some Parse_Ok" by (simp add: stop_status_def)
  with itch_parse_run [of "[m]" "[]" Parse_Ok ps] assms show ?thesis
    by (simp add: max_events_def at_def)
qed

lemma msg_ok_event:
  assumes "msg_ok st k tb tp tf t tq to s" "received st k + 2 = t"
  shows "msg_ok st k tb tp tf (Suc t) tq to (s\<lparr>ms_event := decoded (message_bytes st k)\<rparr>)"
  using assms by (simp add: msg_ok_def)

lemma msg_ok_event_other:
  assumes "sized_stream st" "k < is_count st" "received st k + 2 = t" "j < is_count st" "j \<noteq> k"
    "msg_ok st j tb tp tf t tq to s"
  shows "msg_ok st j tb tp tf (Suc t) tq to s"
proof -
  have "received st j + 2 \<noteq> t" using received_inj [OF assms(1,4,2)] assms(3,5) by auto
  with assms(6) show ?thesis by (simp add: msg_ok_def less_Suc_eq)
qed

lemma msg_ok_event_vacant:
  "occupant st 2 t = None \<Longrightarrow> j < is_count st \<Longrightarrow> msg_ok st j tb tp tf t tq to s \<Longrightarrow>
   msg_ok st j tb tp tf (Suc t) tq to s"
  by (auto simp: msg_ok_def occupant_None less_Suc_eq)

lemma parse_stage_work:
  assumes "t < 2 ^ 64" and slot: "slot_holds (tt_parse p) (occupant st 1 t) 2 t"
  shows "\<exists>s. parse_stage (of_nat t) p = Some (p\<lparr>tt_parse := s\<rparr>) \<and> slot_holds s (occupant st 1 t) 1 t"
proof -
  define s where "s = snd (slot_work (of_nat t) (tt_parse p))"
  have "slot_holds s (occupant st 1 t) 1 t \<and> \<not> slot_finished (of_nat t) s"
  proof (cases "occupant st 1 t")
    case None
    with slot show ?thesis by (simp add: s_def slot_vacant)
  next
    case (Some k)
    with slot_busy [OF slot [unfolded Some] assms(1) order_refl] slot show ?thesis
      by (simp add: s_def slot_holds_def slot_finished_def)
  qed
  then show ?thesis by (intro exI [of _ s]) (simp add: parse_stage_def Let_def s_def)
qed

lemma parse_stage_decode:
  assumes wf: "sized_stream st" and t: "t < 2 ^ 64" and slot: "parse_holds st t (tt_parse p)"
    and book: "sl_msg (tt_book_slot p) = None"
    and parser: "length (ps_events (tt_parser p)) = max_events"
    and some: "occupant st 2 t = Some k" and go: "wf_message (message_bytes st k)"
    and states: "states_ok st tb t t t tq to (tt_state p)"
  shows "\<exists>pr. parse_stage (of_nat t) p = Some (p\<lparr>tt_parser := pr,
        tt_state := (tt_state p)[k := (tt_state p ! k)\<lparr>ms_event := decoded (message_bytes st k)\<rparr>],
        tt_parse := (tt_parse p)\<lparr>sl_left := 0, sl_msg := None\<rparr>, tt_book_slot := slot_load k (of_nat (Suc t)) 1\<rparr>)
    \<and> length (ps_events pr) = max_events"
proof -
  have k: "k < is_count st" "received st k + 2 = t" using some wf by (simp_all add: occupant_Some)
  have slot2: "slot_holds (tt_parse p) (Some k) 1 (t - 1)" using slot some by (simp add: parse_holds_def)
  note busy = slot_busy [OF slot2 t diff_le_self]
  note at_k = states_ok_at [OF wf states k(1)]
  let ?m = "message_bytes st k" and ?s = "tt_state p ! k"
  have frame: "take (ms_frame_len ?s) (ms_frame ?s) = ?m" "ms_frame_len ?s = length ?m"
    "\<not> length (ms_frame ?s) < ms_frame_len ?s"
    using at_k(3) k(2) sized_message(1,4) [OF wf k(1)] by (simp_all add: msg_ok_def)
  obtain pr where pr: "itch_parse ?m (tt_parser p) = (1, pr)" "ps_status pr = Parse_Ok"
    "ps_consumed pr = length ?m" "at 0 (ps_events pr) = Some (decoded ?m)"
    "length (ps_events pr) = max_events"
    using parse_one_message [OF go parser] by blast
  have fin: "slot_finished (of_nat t) ((tt_parse p)\<lparr>sl_left := 0\<rparr>)"
    using busy(2,3) by (simp add: slot_finished_def slot_ready_def)
  show ?thesis
    using book busy(2,4) fin at_k(1) pr frame(3)
    by (intro exI [of _ pr]) (simp add: parse_stage_def Let_def slot_free_def fail_if_def set_state_def frame(1)
        frame(2) [symmetric] book_cycles_def add.commute)
qed

lemma parse_stage_step:
  assumes wf: "sized_stream st" and t: "t < 2 ^ 64" and slot: "parse_holds st t (tt_parse p)"
    and book: "sl_msg (tt_book_slot p) = None"
    and parser: "length (ps_events (tt_parser p)) = max_events"
    and go: "\<And>k. occupant st 2 t = Some k \<Longrightarrow> wf_message (message_bytes st k)"
    and states: "states_ok st tb t t t tq to (tt_state p)"
  shows "\<exists>pr xs s b. parse_stage (of_nat t) p
      = Some (p\<lparr>tt_parser := pr, tt_state := xs, tt_parse := s, tt_book_slot := b\<rparr>)
    \<and> length (ps_events pr) = max_events \<and> states_ok st tb t t (Suc t) tq to xs
    \<and> slot_holds s (occupant st 1 t) 1 t \<and> slot_holds b (occupant st 3 (Suc t)) 1 (Suc t)"
proof (cases "occupant st 2 t")
  case None
  obtain s where "parse_stage (of_nat t) p = Some (p\<lparr>tt_parse := s\<rparr>)" "slot_holds s (occupant st 1 t) 1 t"
    using parse_stage_work [OF t, of p st] slot None by (auto simp: parse_holds_def)
  moreover have "states_ok st tb t t (Suc t) tq to (tt_state p)"
    using states by (rule states_ok_weaken) (rule msg_ok_event_vacant [OF None])
  moreover have "occupant st 3 (Suc t) = None" using occupant_Suc [of st 2 t] None by simp
  ultimately show ?thesis using book parser
    by (intro exI [of _ "tt_parser p"] exI [of _ "tt_state p"] exI [of _ s] exI [of _ "tt_book_slot p"]) simp
next
  case (Some k)
  have k: "k < is_count st" "received st k + 2 = t" using Some wf by (simp_all add: occupant_Some)
  obtain pr where "parse_stage (of_nat t) p = Some (p\<lparr>tt_parser := pr,
        tt_state := (tt_state p)[k := (tt_state p ! k)\<lparr>ms_event := decoded (message_bytes st k)\<rparr>],
        tt_parse := (tt_parse p)\<lparr>sl_left := 0, sl_msg := None\<rparr>, tt_book_slot := slot_load k (of_nat (Suc t)) 1\<rparr>)"
    "length (ps_events pr) = max_events"
    using parse_stage_decode [OF wf t slot book parser Some go [OF Some] states] by blast
  moreover note at_k = states_ok_at [OF wf states k(1)]
  have "states_ok st tb t t (Suc t) tq to
      ((tt_state p)[k := (tt_state p ! k)\<lparr>ms_event := decoded (message_bytes st k)\<rparr>])"
    by (rule states_ok_update [OF states at_k(2) msg_ok_event [OF at_k(3) k(2)]])
      (rule msg_ok_event_other [OF wf k])
  moreover have "occupant st 1 t = None" by (rule occupant_apart [OF wf Some]) simp_all
  moreover have "occupant st 3 (Suc t) = Some k" using occupant_Suc [of st 2 t] Some by simp
  ultimately show ?thesis by (intro exI conjI) (assumption, simp_all del: of_nat_Suc)
qed

subsection \<open>MAC\<close>

definition mac_ready :: "itch_stream \<Rightarrow> nat \<Rightarrow> tick_pipeline \<Rightarrow> bool" where
  "mac_ready st t p \<longleftrightarrow> slot_holds (tt_mac p) (occupant st 0 t) 1 t
     \<and> (occupant st 0 t \<noteq> None \<longrightarrow> tt_mac_beats p = 1 \<and> ipg_valid (tt_framer p))"

lemma msg_ok_frame:
  assumes "msg_ok st k tb t t te tq to s" "received st k = t"
    and "take (message_size st k) frame = message_bytes st k" "length frame = 128"
  shows "msg_ok st k tb t (Suc t) te tq to (s\<lparr>ms_frame := frame\<rparr>)"
  using assms by (simp add: msg_ok_def)

lemma msg_ok_frame_other:
  assumes "sized_stream st" "k < is_count st" "received st k = t" "j < is_count st" "j \<noteq> k"
    "msg_ok st j tb t t te tq to s"
  shows "msg_ok st j tb t (Suc t) te tq to s"
proof -
  have "received st j \<noteq> t" using received_inj [OF assms(1,4,2)] assms(3,5) by auto
  with assms(6) show ?thesis by (simp add: msg_ok_def less_Suc_eq)
qed

lemma msg_ok_frame_vacant:
  "occupant st 0 t = None \<Longrightarrow> j < is_count st \<Longrightarrow> msg_ok st j tb t t te tq to s \<Longrightarrow>
   msg_ok st j tb t (Suc t) te tq to s"
  by (auto simp: msg_ok_def occupant_None less_Suc_eq)

lemma mac_send_step:
  assumes wf: "sized_stream st" and t: "t < 2 ^ 64" and ready: "mac_ready st t p"
    and occ: "occupant st 0 t = Some k"
    and states: "states_ok st tb t t te tq to (tt_state p)"
  shows "\<exists>f xs. mac_send (of_nat t) p
      = Some (p\<lparr>tt_framer := f, tt_state := xs, tt_mac := (tt_mac p)\<lparr>sl_left := 0\<rparr>\<rparr>)
    \<and> states_ok st tb t (Suc t) te tq to xs"
proof -
  have k: "k < is_count st" "received st k = t" using occ wf by (simp_all add: occupant_Some)
  have slot: "slot_holds (tt_mac p) (Some k) 1 t" and one: "tt_mac_beats p = 1" and ipg: "ipg_valid (tt_framer p)"
    using ready occ by (auto simp: mac_ready_def)
  note busy = slot_busy [OF slot t order_refl] and at_k = states_ok_at [OF wf states k(1)]
  have left: "sl_left (tt_mac p) = 1" using slot by (simp add: slot_holds_def)
  let ?s = "tt_state p ! k" and ?n = "message_size st k"
  have n: "?n \<le> 40" using sized_message(4) [OF wf k(1)] .
  have s: "ms_frame_len ?s = ?n" "take ?n (ms_payload ?s) = message_bytes st k"
    "length (ms_payload ?s) = 48" "length (ms_frame ?s) = 128"
    using at_k(3) k(2) by (simp_all add: msg_ok_def)
  define frame where "frame = message_bytes st k @ drop ?n (ms_frame ?s)"
  have len: "length (message_bytes st k) = ?n" by (rule sized_message(1) [OF wf k(1)])
  have frame: "take ?n frame = message_bytes st k" "length frame = 128"
    using n s(4) len by (simp_all add: frame_def)
  have beat: "take ?n (tdata (mac_beat ?s 0 ?n True)) = message_bytes st k"
    using s(2,3) n len by (simp add: mac_beat_def)
  obtain f where f: "mac_accept (mac_beat ?s 0 ?n True) (tt_framer p) = (True, f)"
    using ipg by (simp add: mac_accept_def mac_beat_def beat_transfer_def)
  have "mac_send (of_nat t) p = Some (p\<lparr>tt_framer := f,
      tt_state := (tt_state p)[k := ?s\<lparr>ms_frame := frame\<rparr>], tt_mac := (tt_mac p)\<lparr>sl_left := 0\<rparr>\<rparr>)"
    using busy(2,3) left one at_k(1) s(1,3,4) n f beat
    by (simp add: mac_send_def size_sub_def Let_def fail_if_def set_state_def frame_def)
  moreover have "states_ok st tb t (Suc t) te tq to ((tt_state p)[k := ?s\<lparr>ms_frame := frame\<rparr>])"
    by (rule states_ok_update [OF states at_k(2) msg_ok_frame [OF at_k(3) k(2) frame]])
      (rule msg_ok_frame_other [OF wf k])
  ultimately show ?thesis by blast
qed

lemma mac_stage_step:
  assumes wf: "sized_stream st" and t: "t < 2 ^ 64" and ready: "mac_ready st t p"
    and parse: "slot_holds (tt_parse p) (occupant st 1 t) 1 t"
    and states: "states_ok st tb t t te tq to (tt_state p)"
  shows "\<exists>f xs s m. mac_stage (of_nat t) p
      = Some (p\<lparr>tt_framer := f, tt_state := xs, tt_parse := s, tt_mac := m\<rparr>)
    \<and> states_ok st tb t (Suc t) te tq to xs
    \<and> parse_holds st (Suc t) s \<and> sl_msg m = None"
proof -
  have shift: "occupant st 2 (Suc t) = occupant st 1 t" "occupant st 1 (Suc t) = occupant st 0 t"
    using occupant_Suc [of st 1 t] occupant_Suc [of st 0 t] by (simp_all add: numeral_2_eq_2)
  show ?thesis
  proof (cases "occupant st 0 t")
    case None
    have idle: "sl_msg (tt_mac p) = None" using ready None by (simp add: mac_ready_def)
    have "mac_stage (of_nat t) p = Some p"
      using idle by (simp add: mac_stage_def mac_send_def slot_vacant)
    moreover have "states_ok st tb t (Suc t) te tq to (tt_state p)"
      using states by (rule states_ok_weaken) (rule msg_ok_frame_vacant [OF None])
    moreover have "parse_holds st (Suc t) (tt_parse p)"
      using parse None by (cases "occupant st 1 t") (simp_all add: parse_holds_def shift)
    ultimately show ?thesis using idle
      by (intro exI [of _ "tt_framer p"] exI [of _ "tt_state p"] exI [of _ "tt_parse p"] exI [of _ "tt_mac p"])
        simp
  next
    case (Some k)
    have none: "occupant st 1 t = None" by (rule occupant_apart [OF wf Some]) simp_all
    from mac_send_step [OF wf t ready Some states] obtain f xs where send:
      "mac_send (of_nat t) p
        = Some (p\<lparr>tt_framer := f, tt_state := xs, tt_mac := (tt_mac p)\<lparr>sl_left := 0\<rparr>\<rparr>)"
      "states_ok st tb t (Suc t) te tq to xs" by blast
    have slot: "slot_holds (tt_mac p) (Some k) 1 t" using ready Some by (simp add: mac_ready_def)
    note busy = slot_busy [OF slot t order_refl]
    have fin: "slot_finished (of_nat t) ((tt_mac p)\<lparr>sl_left := 0\<rparr>)"
      using busy(2,3) by (simp add: slot_finished_def slot_ready_def)
    define s where "s = slot_load k (of_nat (Suc t)) 2"
    define m where "m = (tt_mac p)\<lparr>sl_left := 0, sl_msg := None\<rparr>"
    have "mac_stage (of_nat t) p
        = Some (p\<lparr>tt_framer := f, tt_state := xs, tt_parse := s, tt_mac := m\<rparr>)"
      using parse none fin busy(2)
      by (simp add: mac_stage_def send(1) slot_free_def s_def m_def parser_cycles_def add.commute)
    moreover have "parse_holds st (Suc t) s"
      by (simp add: parse_holds_def shift none Some s_def del: of_nat_Suc One_nat_def)
    ultimately show ?thesis using send(2)
      by (intro exI [of _ f] exI [of _ xs] exI [of _ s] exI [of _ m]) (simp add: m_def)
  qed
qed

subsection \<open>PCS\<close>

text \<open>The message on the wire in cycle \<open>t\<close>, its first block included.\<close>

definition transmitting :: "itch_stream \<Rightarrow> nat \<Rightarrow> nat option" where
  "transmitting st t = find (\<lambda>k. wire_start st k \<le> t \<and> t < received st k) [0..<is_count st]"

definition pcs_holds :: "itch_stream \<Rightarrow> nat \<Rightarrow> nat option \<Rightarrow> tick_slot \<Rightarrow> bool" where
  "pcs_holds st t m s \<longleftrightarrow> sl_msg s = m
     \<and> (\<forall>k. m = Some k \<longrightarrow> sl_left s = received st k - t \<and> sl_avail s = of_nat (wire_start st k))"

lemma transmitting_Some:
  "transmitting st t = Some k \<longleftrightarrow> k < is_count st \<and> wire_start st k \<le> t \<and> t < received st k"
  unfolding transmitting_def
proof (rule find_unique)
  fix j k assume "wire_start st j \<le> t \<and> t < received st j" "wire_start st k \<le> t \<and> t < received st k"
  then show "j = k"
    using received_before_start [of j k st] received_before_start [of k j st]
    by (cases j k rule: linorder_cases) auto
qed

lemma msg_ok_blocks_vacant:
  "wire_start st j \<noteq> t \<Longrightarrow> msg_ok st j t tp tf te tq to s \<Longrightarrow> msg_ok st j (Suc t) tp tf te tq to s"
  by (simp add: msg_ok_def less_Suc_eq)

lemma wire_start_less:
  assumes "sized_stream st" "j < k" "j < is_count st"
  shows "wire_start st j < wire_start st k"
  using received_before_start [OF assms(2), of st] sized_blocks(1) [OF assms(1,3)]
  by (simp add: received_def)

lemma started_vacant:
  "\<forall>k < is_count st. wire_start st k \<noteq> t \<Longrightarrow> started st (Suc t) = started st t"
  by (rule nat_eq_by_less) (auto simp: started_less less_Suc_eq)

lemma started_start:
  assumes wf: "sized_stream st" and k: "k < is_count st" "wire_start st k = t"
  shows "started st t = k" "started st (Suc t) = Suc k"
proof -
  have before: "j < is_count st \<and> wire_start st j < t \<longleftrightarrow> j < k" for j
  proof (cases "j < k")
    case True
    with wire_start_less [OF wf True] k show ?thesis by simp
  next
    case False
    with wire_start_mono [of k j st] k show ?thesis by simp
  qed
  then show "started st t = k" by (intro nat_eq_by_less) (simp only: started_less)
  have "j < is_count st \<and> wire_start st j < Suc t \<longleftrightarrow> j < Suc k" for j
  proof (cases j k rule: linorder_cases)
    case greater
    with wire_start_less [OF wf greater k(1)] k show ?thesis by simp
  qed (use before [of j] k in auto)
  then show "started st (Suc t) = Suc k" by (intro nat_eq_by_less) (simp only: started_less)
qed

text \<open>When the wire is idle the next message starts as soon as it has arrived.\<close>

lemma next_start:
  assumes wf: "sized_stream st" and idle: "on_wire st t = None" and k: "k = started st t" "k < is_count st"
  shows "wire_start st k = t \<longleftrightarrow> message_arrival st k \<le> t" "t \<le> wire_start st k"
proof -
  show later: "t \<le> wire_start st k" using started_less [of k st t] k by auto
  have "wire_start st k \<le> t" if "message_arrival st k \<le> t"
  proof (cases k)
    case 0
    with that show ?thesis by simp
  next
    case (Suc j)
    then have "j < is_count st" "wire_start st j < t" using started_less [of j st t] k by auto
    then have "received st j \<le> t" using idle on_wire_Some [OF wf, of t j] by auto
    with that Suc show ?thesis by (simp add: received_def)
  qed
  with later wire_start_arrival [of st k]
  show "wire_start st k = t \<longleftrightarrow> message_arrival st k \<le> t" by auto
qed

lemma msg_ok_blocks:
  assumes "msg_ok st k t tp tf te tq to s" "wire_start st k = t" "length blocks = 8"
    and "take (wire_blocks st k) blocks
      = map (encode_block (message_bytes st k) (crc32_compute (message_bytes st k))) [0..<wire_blocks st k]"
  shows "msg_ok st k (Suc t) tp tf te tq to (s\<lparr>ms_blocks := blocks, ms_block_count := wire_blocks st k\<rparr>)"
  using assms by (simp add: msg_ok_def)

lemma pcs_pick_start:
  assumes wf: "sized_stream st" and t: "t < 2 ^ 64" and idle: "sl_msg (tt_pcs p) = None"
    and nxt: "tt_next p = k" and k: "k < is_count st" "wire_start st k = t"
    and states: "states_ok st t t tf te tq to (tt_state p)"
  shows "\<exists>xs. pcs_pick st (of_nat t) p
      = Some (p\<lparr>tt_state := xs, tt_pcs := slot_load k (of_nat t) (wire_blocks st k), tt_next := Suc k\<rparr>)
    \<and> states_ok st (Suc t) t tf te tq to xs"
proof -
  note at_k = states_ok_at [OF wf states k(1)]
  let ?s = "tt_state p ! k" and ?m = "message_bytes st k" and ?n = "wire_blocks st k"
  let ?enc = "map (encode_block ?m (crc32_compute ?m)) [0..<?n]"
  have len: "length (ms_blocks ?s) = 8" using at_k(3) by (simp add: msg_ok_def)
  have n: "encoded_count (length ?m) = ?n" "?n \<le> 8" "0 < ?n"
    using sized_message(1) [OF wf k(1)] sized_blocks [OF wf k(1)] by (simp_all add: wire_blocks_def)
  define blocks where "blocks = ?enc @ drop ?n (ms_blocks ?s)"
  have enc: "pcs_encode (Some ?m) (Some (ms_blocks ?s)) = (?n, Some blocks)"
    using pcs_encode_Some [of ?m "ms_blocks ?s"] n len by (simp add: blocks_def)
  have blocks: "length blocks = 8" "take ?n blocks = ?enc" using n len by (simp_all add: blocks_def)
  have cap: "k < length (is_messages st)" using wf k(1) by (simp add: sized_stream_def)
  have arrived: "\<not> (of_nat t :: u64) < sm_arrival (is_messages st ! k)"
    using wire_start_arrival [of st k] k(2) arrival_after [OF t]
    by (simp add: message_arrival_def message_def)
  have size: "\<not> length (sm_bytes (is_messages st ! k)) < unat (sm_length (is_messages st ! k))"
    using sized_message(2) [OF wf k(1)] by (simp add: message_size_def message_def)
  have m: "take (unat (sm_length (is_messages st ! k))) (sm_bytes (is_messages st ! k)) = ?m"
    by (simp add: message_bytes_def message_size_def message_def)
  define xs where "xs = (tt_state p)[k := ?s\<lparr>ms_blocks := blocks, ms_block_count := ?n\<rparr>]"
  have "pcs_pick st (of_nat t) p
      = Some (p\<lparr>tt_state := xs, tt_pcs := slot_load k (of_nat t) ?n, tt_next := Suc k\<rparr>)"
    using idle k(1) cap arrived size at_k(1) n(3) enc
    by (simp add: pcs_pick_def slot_free_def nxt at_def m fail_if_def set_state_def xs_def)
  moreover have "states_ok st (Suc t) t tf te tq to xs"
    unfolding xs_def
  proof (rule states_ok_update [OF states at_k(2) msg_ok_blocks [OF at_k(3) k(2) blocks]])
    fix j s assume "j < is_count st" "j \<noteq> k" "msg_ok st j t t tf te tq to s"
    then show "msg_ok st j (Suc t) t tf te tq to s"
      using wire_start_less [OF wf, of j k] wire_start_less [OF wf _ k(1), of j] k(2)
      by (intro msg_ok_blocks_vacant) (cases j k rule: linorder_cases, auto)
  qed
  ultimately show ?thesis by blast
qed

lemma on_wire_start:
  assumes "sized_stream st" "k < is_count st" "wire_start st k = t"
  shows "on_wire st t = None"
proof (rule ccontr)
  assume "on_wire st t \<noteq> None"
  then obtain j where "j < is_count st" "wire_start st j < t" "t < received st j"
    using on_wire_Some [OF assms(1)] by auto
  then show False
    using received_before_start [of j k st] wire_start_mono [of k j st] assms by (cases "j < k") auto
qed

text \<open>When no message starts at \<open>t\<close>, the receiver keeps what it holds: the wire is busy, or no message
  is left, or the next one has not arrived.\<close>

lemma pcs_pick_wait:
  assumes wf: "sized_stream st" and t: "t < 2 ^ 64" and slot: "pcs_holds st t (on_wire st t) (tt_pcs p)"
    and nxt: "tt_next p = started st t" and none: "\<forall>j < is_count st. wire_start st j \<noteq> t"
  shows "pcs_pick st (of_nat t) p = Some p \<and> started st (Suc t) = started st t
    \<and> transmitting st t = on_wire st t"
proof -
  let ?k = "started st t"
  have "pcs_pick st (of_nat t) p = Some p"
  proof (cases "on_wire st t")
    case (Some j)
    then show ?thesis using slot by (simp add: pcs_pick_def slot_free_def pcs_holds_def)
  next
    case None
    show ?thesis
    proof (cases "?k < is_count st")
      case True
      with none next_start(1) [OF wf None refl True] have "t < message_arrival st ?k" by auto
      moreover have "?k < length (is_messages st)" using wf True by (simp add: sized_stream_def)
      ultimately show ?thesis using True slot None arrival_after [OF t]
        by (simp add: pcs_pick_def slot_free_def nxt at_def message_arrival_def message_def pcs_holds_def)
    qed (simp add: pcs_pick_def nxt)
  qed
  moreover have "transmitting st t = Some j \<longleftrightarrow> on_wire st t = Some j" for j
    using none by (auto simp: transmitting_Some on_wire_Some [OF wf] le_less)
  then have "transmitting st t = on_wire st t" by (metis not_None_eq)
  ultimately show ?thesis using started_vacant [OF none] by blast
qed

lemma pcs_pick_step:
  assumes wf: "sized_stream st" and t: "t < 2 ^ 64" and slot: "pcs_holds st t (on_wire st t) (tt_pcs p)"
    and nxt: "tt_next p = started st t"
    and states: "states_ok st t t tf te tq to (tt_state p)"
  shows "\<exists>xs s. pcs_pick st (of_nat t) p
      = Some (p\<lparr>tt_state := xs, tt_pcs := s, tt_next := started st (Suc t)\<rparr>)
    \<and> states_ok st (Suc t) t tf te tq to xs \<and> pcs_holds st t (transmitting st t) s"
proof (cases "\<exists>k < is_count st. wire_start st k = t")
  case True
  then have k: "started st t < is_count st" "wire_start st (started st t) = t" and next_k: "started st (Suc t) = Suc (started st t)"
    using started_start [OF wf] by auto
  let ?k = "started st t"
  have "on_wire st t = None" using on_wire_start [OF wf k] .
  then have "sl_msg (tt_pcs p) = None" using slot by (simp add: pcs_holds_def)
  then obtain xs where xs: "pcs_pick st (of_nat t) p
      = Some (p\<lparr>tt_state := xs, tt_pcs := slot_load ?k (of_nat t) (wire_blocks st ?k), tt_next := Suc ?k\<rparr>)"
    "states_ok st (Suc t) t tf te tq to xs"
    using pcs_pick_start [OF wf t _ nxt k states] by blast
  have "t < received st ?k" using sized_blocks(1) [OF wf k(1)] k(2) by (simp add: received_def)
  then have "transmitting st t = Some ?k" using k by (simp add: transmitting_Some)
  then show ?thesis using xs k(2) next_k
    by (intro exI [of _ xs] exI [of _ "slot_load ?k (of_nat t) (wire_blocks st ?k)"])
      (simp add: pcs_holds_def slot_load_def received_def)
next
  case False
  then have none: "\<forall>j < is_count st. wire_start st j \<noteq> t" by auto
  have "states_ok st (Suc t) t tf te tq to (tt_state p)"
    using states by (rule states_ok_weaken) (use none in \<open>auto intro: msg_ok_blocks_vacant\<close>)
  with pcs_pick_wait [OF wf t slot nxt none] slot nxt show ?thesis
    by (intro exI [of _ "tt_state p"] exI [of _ "tt_pcs p"]) simp
qed

lemma msg_ok_payload:
  assumes "msg_ok st k tb t tf te tq to s" "received st k = Suc t" "tf \<le> Suc t"
    and "take (message_size st k) payload = message_bytes st k" "length payload = 48"
  shows "msg_ok st k tb (Suc t) tf te tq to (s\<lparr>ms_payload := payload, ms_frame_len := message_size st k\<rparr>)"
  using assms by (simp add: msg_ok_def)

lemma msg_ok_payload_vacant:
  "received st j \<noteq> Suc t \<Longrightarrow> msg_ok st j tb t tf te tq to s \<Longrightarrow> msg_ok st j tb (Suc t) tf te tq to s"
  by (simp add: msg_ok_def le_Suc_eq)

lemma transmitting_received:
  assumes "sized_stream st" "j < is_count st" "received st j = Suc t"
  shows "transmitting st t = Some j"
  using sized_blocks(1) [OF assms(1,2)] assms(2,3) by (simp add: transmitting_Some received_def)

lemma transmitting_on_wire:
  "sized_stream st \<Longrightarrow> on_wire st (Suc t) = Some j \<Longrightarrow> transmitting st t = Some j"
  by (simp add: on_wire_Some transmitting_Some)

text \<open>Nothing is received at the end of the cycle.\<close>

lemma pcs_no_reception:
  assumes "\<forall>j < is_count st. received st j \<noteq> Suc t" "states_ok st tb t tf te tq to xs"
  shows "states_ok st tb (Suc t) tf te tq to xs" "occupant st 0 (Suc t) = None"
  using assms by (auto simp: occupant_None intro: states_ok_weaken msg_ok_payload_vacant)

text \<open>The last block of message \<open>k\<close> is in: decoding recovers the message.\<close>

lemma pcs_decoded:
  assumes wf: "sized_stream st" and k: "k < is_count st" "wire_start st k < tb"
    and ok: "msg_ok st k tb tp tf te tq to s"
  shows "\<exists>payload. pcs_decode (Some (take (ms_block_count s) (ms_blocks s))) (Some (ms_payload s))
        (message_size st k)
      = (\<lparr>block_lock = True, crc_valid = True, payload_length = message_size st k\<rparr>, Some payload)
    \<and> take (message_size st k) payload = message_bytes st k \<and> length payload = 48"
    and "\<not> length (ms_blocks s) < ms_block_count s"
proof -
  let ?m = "message_bytes st k"
  have m: "length ?m = message_size st k" "message_size st k \<le> 40" "?m \<noteq> []"
    using sized_message [OF wf k(1)] by auto
  have s: "length (ms_payload s) = 48" "length (ms_blocks s) = 8" "ms_block_count s = wire_blocks st k"
    "take (ms_block_count s) (ms_blocks s)
      = map (encode_block ?m (crc32_compute ?m)) [0..<encoded_count (length ?m)]"
    using ok k(2) m(1) by (simp_all add: msg_ok_def wire_blocks_def)
  then show "\<exists>payload. pcs_decode (Some (take (ms_block_count s) (ms_blocks s))) (Some (ms_payload s))
        (message_size st k)
      = (\<lparr>block_lock = True, crc_valid = True, payload_length = message_size st k\<rparr>, Some payload)
    \<and> take (message_size st k) payload = ?m \<and> length payload = 48"
    using pcs_decode_encoded [OF m(3), of "ms_payload s"] m(1,2) by auto
  show "\<not> length (ms_blocks s) < ms_block_count s"
    using s sized_blocks(2) [OF wf k(1)] by simp
qed

lemma pcs_stage_receive:
  assumes wf: "sized_stream st" and pick: "pcs_pick st c p = Some p0"
    and k: "k < is_count st" "received st k = Suc t" "wire_start st k \<le> t"
    and slot: "slot_work c (tt_pcs p0) = (True, s1)" "slot_finished c s1" "sl_msg s1 = Some k"
    and mac: "sl_msg (tt_mac p0) = None"
    and states: "states_ok st (Suc t) t (Suc t) te tq to (tt_state p0)"
  shows "\<exists>xs f. pcs_stage st c p = Some (p0\<lparr>tt_state := xs, tt_pcs := s1\<lparr>sl_msg := None\<rparr>,
        tt_framer := f, tt_mac_beats := 1, tt_mac := slot_load k (c + 1) 1\<rparr>)
    \<and> states_ok st (Suc t) (Suc t) (Suc t) te tq to xs \<and> ipg_valid f"
proof -
  note at_k = states_ok_at [OF wf states k(1)]
  let ?s = "tt_state p0 ! k" and ?n = "message_size st k"
  note dec = pcs_decoded [OF wf k(1) _ at_k(3)]
  obtain payload where payload: "pcs_decode (Some (take (ms_block_count ?s) (ms_blocks ?s)))
        (Some (ms_payload ?s)) ?n
      = (\<lparr>block_lock = True, crc_valid = True, payload_length = ?n\<rparr>, Some payload)"
    "take ?n payload = message_bytes st k" "length payload = 48"
    using dec(1) k(3) by auto
  have cap: "k < length (is_messages st)" using wf k(1) by (simp add: sized_stream_def)
  have size: "unat (sm_length (is_messages st ! k)) = ?n" by (simp add: message_size_def message_def)
  obtain f where f: "verify_ipg mac_ipg_idle_bytes (tt_framer p0) = (True, f)" "ipg_valid f"
    by (simp add: verify_ipg_def mac_ipg_idle_bytes_def minimum_ipg_bytes_def Let_def)
  have beats: "(?n + 63) div 64 = 1" using sized_message(3,4) [OF wf k(1)] by simp
  define xs where "xs = (tt_state p0)[k := ?s\<lparr>ms_payload := payload, ms_frame_len := ?n\<rparr>]"
  have "pcs_stage st c p = Some (p0\<lparr>tt_state := xs, tt_pcs := s1\<lparr>sl_msg := None\<rparr>,
        tt_framer := f, tt_mac_beats := 1, tt_mac := slot_load k (c + 1) 1\<rparr>)"
    using slot mac at_k(1) cap payload(1) f(1) dec(2) k(3)
    by (simp add: pcs_stage_def pick slot_free_def at_def size beats fail_if_def set_state_def
        xs_def Let_def)
  moreover have "states_ok st (Suc t) (Suc t) (Suc t) te tq to xs"
    unfolding xs_def
    by (rule states_ok_update [OF states at_k(2) msg_ok_payload [OF at_k(3) k(2) order_refl payload(2,3)]])
      (use received_inj [OF wf _ k(1)] k(2) in \<open>metis msg_ok_payload_vacant\<close>)
  ultimately show ?thesis using f(2) by blast
qed

text \<open>The slot of the receiver while it transmits message \<open>k\<close>: one block per cycle.\<close>

lemma pcs_transmit:
  assumes t: "t < 2 ^ 64" and slot: "pcs_holds st t (Some k) s" and k: "wire_start st k \<le> t" "t < received st k"
  shows "slot_work (of_nat t) s = (True, s\<lparr>sl_left := received st k - Suc t\<rparr>)
    \<and> (slot_finished (of_nat t) (s\<lparr>sl_left := received st k - Suc t\<rparr>) \<longleftrightarrow> received st k = Suc t)"
proof -
  have s: "sl_msg s = Some k" "sl_left s = received st k - t" "sl_avail s = of_nat (wire_start st k)"
    using slot by (simp_all add: pcs_holds_def)
  have avail: "sl_avail s \<le> of_nat t" using cycle_le [OF t k(1)] s(3) by simp
  then show ?thesis using s(1,2) k(2) by (auto simp: slot_work_def slot_finished_def)
qed

lemma pcs_stage_step:
  assumes wf: "sized_stream st" and t: "t < 2 ^ 64" and slot: "pcs_holds st t (on_wire st t) (tt_pcs p)"
    and nxt: "tt_next p = started st t" and mac: "sl_msg (tt_mac p) = None"
    and states: "states_ok st t t (Suc t) te tq to (tt_state p)"
  shows "\<exists>xs s f b m. pcs_stage st (of_nat t) p
      = Some (p\<lparr>tt_state := xs, tt_pcs := s, tt_next := started st (Suc t), tt_framer := f,
          tt_mac_beats := b, tt_mac := m\<rparr>)
    \<and> states_ok st (Suc t) (Suc t) (Suc t) te tq to xs
    \<and> pcs_holds st (Suc t) (on_wire st (Suc t)) s
    \<and> mac_ready st (Suc t) (p\<lparr>tt_mac := m, tt_mac_beats := b, tt_framer := f\<rparr>)"
proof -
  obtain xs s where pick: "pcs_pick st (of_nat t) p
      = Some (p\<lparr>tt_state := xs, tt_pcs := s, tt_next := started st (Suc t)\<rparr>)"
    "states_ok st (Suc t) t (Suc t) te tq to xs" "pcs_holds st t (transmitting st t) s"
    using pcs_pick_step [OF wf t slot nxt states] by blast
  note received = transmitting_received [OF wf] and wire = transmitting_on_wire [OF wf, of t]
  show ?thesis
  proof (cases "transmitting st t")
    case None
    then have none: "\<forall>j < is_count st. received st j \<noteq> Suc t" using received [of _ t] by auto
    have idle: "sl_msg s = None" using pick(3) None by (simp add: pcs_holds_def)
    then have "pcs_stage st (of_nat t) p
        = Some (p\<lparr>tt_state := xs, tt_pcs := s, tt_next := started st (Suc t)\<rparr>)"
      by (simp add: pcs_stage_def pick(1) slot_vacant)
    moreover have "on_wire st (Suc t) = None" using wire None by (metis not_None_eq)
    ultimately show ?thesis using idle mac pcs_no_reception [OF none pick(2)]
      by (intro exI [of _ xs] exI [of _ s] exI [of _ "tt_framer p"] exI [of _ "tt_mac_beats p"]
          exI [of _ "tt_mac p"]) (simp add: pcs_holds_def mac_ready_def)
  next
    case (Some k)
    have k: "k < is_count st" "wire_start st k \<le> t" "t < received st k"
      using Some by (simp_all add: transmitting_Some)
    have s: "pcs_holds st t (Some k) s" "sl_msg s = Some k" using pick(3) Some by (simp_all add: pcs_holds_def)
    define s1 where "s1 = s\<lparr>sl_left := received st k - Suc t\<rparr>"
    have work: "slot_work (of_nat t) s = (True, s1)" and fin: "slot_finished (of_nat t) s1 \<longleftrightarrow> received st k = Suc t"
      using pcs_transmit [OF t s(1) k(2,3)] by (simp_all add: s1_def)
    show ?thesis
    proof (cases "received st k = Suc t")
      case False
      then have none: "\<forall>j < is_count st. received st j \<noteq> Suc t"
        using received [of _ t] Some by fastforce
      have "pcs_stage st (of_nat t) p
          = Some (p\<lparr>tt_state := xs, tt_pcs := s1, tt_next := started st (Suc t)\<rparr>)"
        using fin False by (simp add: pcs_stage_def pick(1) work)
      moreover have "on_wire st (Suc t) = Some k" using k False by (simp add: on_wire_Some [OF wf])
      ultimately show ?thesis using mac s(1) pcs_no_reception [OF none pick(2)]
        by (intro exI [of _ xs] exI [of _ s1] exI [of _ "tt_framer p"] exI [of _ "tt_mac_beats p"]
            exI [of _ "tt_mac p"]) (simp add: pcs_holds_def mac_ready_def s1_def)
    next
      case True
      obtain ys f where "pcs_stage st (of_nat t) p
          = Some (p\<lparr>tt_next := started st (Suc t), tt_state := ys, tt_pcs := s1\<lparr>sl_msg := None\<rparr>,
              tt_framer := f, tt_mac_beats := 1, tt_mac := slot_load k (of_nat (Suc t)) 1\<rparr>)"
        "states_ok st (Suc t) (Suc t) (Suc t) te tq to ys" "ipg_valid f"
        using pcs_stage_receive [OF wf pick(1) k(1) True k(2), of s1 te tq to] work fin True s(2) mac pick(2)
        by (auto simp: s1_def add.commute)
      moreover have "on_wire st (Suc t) = None"
        using wire Some True on_wire_Some [OF wf, of "Suc t" k] by fastforce
      moreover have "occupant st 0 (Suc t) = Some k" using True k(1) by (simp add: occupant_Some [OF wf])
      ultimately show ?thesis
        by (intro exI [of _ ys] exI [of _ "s1\<lparr>sl_msg := None\<rparr>"] exI [of _ f] exI [of _ 1]
            exI [of _ "slot_load k (of_nat (Suc t)) 1"])
          (simp add: pcs_holds_def mac_ready_def del: of_nat_Suc)
    qed
  qed
qed

subsection \<open>The quote RAM over one cycle\<close>

definition ram_part :: "itch_stream \<Rightarrow> nat \<Rightarrow> book_quote bram \<Rightarrow> bool" where
  "ram_part st t m \<longleftrightarrow> bram_depth m = 32 \<and> bram_latency m = 1
     \<and> (\<forall>k. occupant st 4 t = Some k \<longrightarrow> br_memory m ! (k mod 32) = expected_quote st k)"

definition ram_answer :: "itch_stream \<Rightarrow> nat option \<Rightarrow> book_quote port_response" where
  "ram_answer st m = (case m of None \<Rightarrow> no_response
     | Some k \<Rightarrow> \<lparr>rs_valid = True, rs_data = expected_quote st k\<rparr>)"

lemma ram_step:
  assumes wf: "sized_stream st" and part: "ram_part st t m"
    and a: "a = write_request st (occupant st 3 t)" and b: "b = read_request (occupant st 4 t)"
  shows "bram_posedge_debug a b m = Some (bram_posedge a b m)"
    and "ram_part st (Suc t) (bram_negedge (bram_posedge a b m))"
    and "br_response_b (bram_negedge (bram_posedge a b m)) = ram_answer st (occupant st 4 t)"
proof -
  have shift: "occupant st 4 (Suc t) = occupant st 3 t" using occupant_Suc [of st 3 t] by simp
  have apart: "occupant st 4 t = None" if "occupant st 3 t = Some k" for k
    by (rule occupant_apart [OF wf that]) simp_all
  have depth: "length (br_memory m) = 32" and lat: "0 < bram_latency m"
    using part by (simp_all add: ram_part_def bram_depth_def)
  show "bram_posedge_debug a b m = Some (bram_posedge a b m)"
    using depth apart
    by (cases "occupant st 3 t"; cases "occupant st 4 t")
      (simp_all add: bram_posedge_debug_def bram_asserts_def same_cycle_collision_def bram_depth_def
        a b write_request_def read_request_def no_request_def)
  have mem: "port_write b (port_write a (br_memory m)) = (case occupant st 3 t of None \<Rightarrow> br_memory m
      | Some k \<Rightarrow> (br_memory m)[k mod 32 := expected_quote st k])"
    using depth by (simp add: a b port_write_def write_request_def read_request_def no_request_def
        split: option.split)
  note cyc = bram_cycle [OF lat, of a b, unfolded mem]
  show "ram_part st (Suc t) (bram_negedge (bram_posedge a b m))"
    using part depth by (auto simp: ram_part_def cyc(1) shift)
  have "port_read b (br_memory m) = ram_answer st (occupant st 4 t)"
    using part depth
    by (auto simp: ram_part_def b port_read_def read_request_def no_request_def ram_answer_def
        split: option.split)
  moreover have "port_read no_request mem' = no_response" for mem' :: "book_quote list"
    by (simp add: port_read_def no_request_def)
  ultimately have "port_read b (case occupant st 3 t of None \<Rightarrow> br_memory m
      | Some k \<Rightarrow> (br_memory m)[k mod 32 := expected_quote st k]) = ram_answer st (occupant st 4 t)"
    using apart by (auto simp: b read_request_def ram_answer_def split: option.split)
  then show "br_response_b (bram_negedge (bram_posedge a b m)) = ram_answer st (occupant st 4 t)"
    by (simp only: cyc(3))
qed

subsection \<open>The falling edge\<close>

lemma msg_ok_same_quote:
  "msg_ok st k tb tp tf te tq to s \<Longrightarrow> msg_ok st k tb tp tf te tq to (s\<lparr>ms_quote := expected_quote st k\<rparr>)"
  by (simp add: msg_ok_def)

lemma ram_response_step:
  assumes wf: "sized_stream st" and answer: "br_response_b (tt_bram p) = ram_answer st (occupant st 4 t)"
    and ring: "ring_holds (tt_bram_ring p) 16 (opt_list (occupant st 4 t))"
    and slot: "sl_msg (tt_ofi_in p) = None"
    and states: "states_ok st tb tp tf te tq to (tt_state p)"
  shows "\<exists>r xs s. ram_response (of_nat t) p
      = Some (p\<lparr>tt_bram_ring := r, tt_state := xs, tt_ofi_in := s\<rparr>)
    \<and> ring_holds r 16 [] \<and> states_ok st tb tp tf te tq to xs
    \<and> slot_holds s (occupant st 5 (Suc t)) 0 (Suc t)"
proof -
  have shift: "occupant st 5 (Suc t) = occupant st 4 t" using occupant_Suc [of st 4 t] by simp
  show ?thesis
  proof (cases "occupant st 4 t")
    case None
    with answer ring slot states show ?thesis
      by (intro exI [of _ "tt_bram_ring p"] exI [of _ "tt_state p"] exI [of _ "tt_ofi_in p"])
        (simp add: ram_response_def ram_answer_def no_response_def shift Let_def)
  next
    case (Some k)
    have k: "k < is_count st" using Some wf by (simp add: occupant_Some)
    note at_k = states_ok_at [OF wf states k]
    obtain r where r: "rb_pop (tt_bram_ring p) = (Some k, r)" "ring_holds r 16 []"
      using ring_holds_pop [of "tt_bram_ring p" 16 k "[]"] ring Some by auto
    define xs where "xs = (tt_state p)[k := (tt_state p ! k)\<lparr>ms_quote := expected_quote st k\<rparr>]"
    have "ram_response (of_nat t) p = Some (p\<lparr>tt_bram_ring := r, tt_state := xs,
        tt_ofi_in := slot_load k (of_nat (Suc t)) 0\<rparr>)"
      using answer Some r(1) slot at_k(1)
      by (simp add: ram_response_def ram_answer_def slot_free_def set_state_def xs_def add.commute Let_def)
    moreover have "states_ok st tb tp tf te tq to xs"
      unfolding xs_def
      by (rule states_ok_update [OF states at_k(2) msg_ok_same_quote [OF at_k(3)]])
    ultimately show ?thesis using r(2)
      by (intro exI [of _ r] exI [of _ xs] exI [of _ "slot_load k (of_nat (Suc t)) 0"])
        (simp add: Some shift del: of_nat_Suc)
  qed
qed

definition ofi_total :: "itch_stream \<Rightarrow> nat \<Rightarrow> int" where
  "ofi_total st n = (\<Sum>j < n. sint (expected_ofi st j))"

lemma ofi_total_bound: "\<bar>ofi_total st n\<bar> \<le> int n * 2 ^ 31"
proof (induction n)
  case (Suc n)
  have "\<bar>sint (expected_ofi st n)\<bar> \<le> 2 ^ 31" using sint_i32_range [of "expected_ofi st n"] by auto
  with Suc show ?case by (simp add: ofi_total_def)
qed (simp add: ofi_total_def)

lemma cumulative_step:
  assumes "n < 2 ^ 31"
  shows "i64_add (word_of_int (ofi_total st n)) (scast (expected_ofi st n))
    = Some (word_of_int (ofi_total st (Suc n)))"
proof -
  have fits: "fits_i64 (ofi_total st j)" if "j \<le> 2 ^ 31" for j
  proof -
    have "int j * 2 ^ 31 \<le> 2 ^ 31 * 2 ^ 31" using that by (intro mult_right_mono) auto
    with ofi_total_bound [of st j] show ?thesis by (simp add: fits_i64_def abs_le_iff)
  qed
  have total: "ofi_total st (Suc n) = ofi_total st n + sint (expected_ofi st n)"
    by (simp add: ofi_total_def)
  have wide: "sint (scast (expected_ofi st n) :: i64) = sint (expected_ofi st n)"
    by (simp add: sint_up_scast is_up)
  have "fits_i64 (sint (word_of_int (ofi_total st n) :: i64) + sint (scast (expected_ofi st n) :: i64))"
    using fits [of "Suc n"] assms by (simp add: wide total sint_of_int_i64 [OF fits])
  moreover have "(word_of_int (ofi_total st n) :: i64) + scast (expected_ofi st n)
      = word_of_int (ofi_total st (Suc n))"
    by (simp only: total of_int_add scast_eq)
  ultimately show ?thesis by (simp only: i64_add_def if_True)
qed

lemma msg_ok_ofi:
  assumes "msg_ok st k tb tp tf te tq t s" "received st k + 7 = t"
  shows "msg_ok st k tb tp tf te tq (Suc t) (s\<lparr>ms_ofi := expected_ofi st k\<rparr>)"
  using assms by (simp add: msg_ok_def)

lemma msg_ok_ofi_other:
  assumes "sized_stream st" "k < is_count st" "received st k + 7 = t" "j < is_count st" "j \<noteq> k"
    "msg_ok st j tb tp tf te tq t s"
  shows "msg_ok st j tb tp tf te tq (Suc t) s"
proof -
  have "received st j + 7 \<noteq> t" using received_inj [OF assms(1,4,2)] assms(3,5) by auto
  with assms(6) show ?thesis by (simp add: msg_ok_def less_Suc_eq)
qed

lemma msg_ok_ofi_vacant:
  "occupant st 7 t = None \<Longrightarrow> j < is_count st \<Longrightarrow> msg_ok st j tb tp tf te tq t s \<Longrightarrow>
   msg_ok st j tb tp tf te tq (Suc t) s"
  by (auto simp: msg_ok_def occupant_None less_Suc_eq)

text \<open>The OFI of the last message put out.\<close>

definition last_ofi :: "itch_stream \<Rightarrow> nat \<Rightarrow> i32" where
  "last_ofi st n = (if n = 0 then 0 else expected_ofi st (n - 1))"

lemma ofi_output_step:
  assumes wf: "sized_stream st" and out: "od_output (tt_ofi p) = ofi_slot st (occupant st 7 t)"
    and ring: "ring_holds (tt_ofi_ring p) 16
      (opt_list (occupant st 7 t) @ opt_list (occupant st 6 t) @ opt_list (occupant st 5 t))"
    and queue: "ring_holds (tt_dma_q p) 64 []"
    and total: "tt_cumulative p = word_of_int (ofi_total st (passed st 7 t))"
    and last: "tt_last_ofi p = last_ofi st (passed st 7 t)"
    and states: "states_ok st tb tp tf te tq t (tt_state p)"
  shows "\<exists>r q xs. ofi_output p = Some (p\<lparr>tt_ofi_ring := r, tt_dma_q := q, tt_state := xs,
        tt_last_ofi := last_ofi st (passed st 7 (Suc t)),
        tt_cumulative := word_of_int (ofi_total st (passed st 7 (Suc t)))\<rparr>)
    \<and> ring_holds r 16 (opt_list (occupant st 7 (Suc t)) @ opt_list (occupant st 6 (Suc t)))
    \<and> ring_holds q 64 (opt_list (occupant st 8 (Suc t)))
    \<and> states_ok st tb tp tf te tq (Suc t) xs"
proof -
  have shift: "occupant st 6 (Suc t) = occupant st 5 t" "occupant st 7 (Suc t) = occupant st 6 t"
    "occupant st 8 (Suc t) = occupant st 7 t"
    using occupant_Suc [of st 5 t] occupant_Suc [of st 6 t] occupant_Suc [of st 7 t] by simp_all
  show ?thesis
  proof (cases "occupant st 7 t")
    case None
    have "states_ok st tb tp tf te tq (Suc t) (tt_state p)"
      using states by (rule states_ok_weaken) (rule msg_ok_ofi_vacant [OF None])
    moreover have "ofi_output p = Some p"
      using out None by (simp add: ofi_output_def ofi_slot_def stage_empty_def Let_def)
    ultimately show ?thesis using ring queue total last None
      by (intro exI [of _ "tt_ofi_ring p"] exI [of _ "tt_dma_q p"] exI [of _ "tt_state p"])
        (simp add: shift passed_vacant [OF wf None])
  next
    case (Some k)
    have k: "k < is_count st" "received st k + 7 = t" using Some wf by (simp_all add: occupant_Some)
    note at_k = states_ok_at [OF wf states k(1)]
    have pass: "passed st 7 t = k" "passed st 7 (Suc t) = Suc k" by (rule passed_occupant [OF wf Some])+
    obtain r where r: "rb_pop (tt_ofi_ring p) = (Some k, r)"
      "ring_holds r 16 (opt_list (occupant st 6 t) @ opt_list (occupant st 5 t))"
      using ring_holds_pop [of "tt_ofi_ring p" 16 k] ring Some by auto
    obtain q where q: "rb_push k (tt_dma_q p) = (True, q)" "ring_holds q 64 ([] @ [k])"
      using queue by (rule ring_holds_push) simp
    have "k < 2 ^ 31" using k(1) wf by (simp add: sized_stream_def)
    note sum = cumulative_step [OF this, of st]
    define xs where "xs = (tt_state p)[k := (tt_state p ! k)\<lparr>ms_ofi := expected_ofi st k\<rparr>]"
    have "ofi_output p = Some (p\<lparr>tt_ofi_ring := r, tt_dma_q := q, tt_state := xs,
        tt_last_ofi := expected_ofi st k, tt_cumulative := word_of_int (ofi_total st (Suc k))\<rparr>)"
      using out Some r(1) q(1) at_k(1) total pass(1) sum
      by (simp add: ofi_output_def ofi_slot_def set_state_def xs_def Let_def)
    moreover have "states_ok st tb tp tf te tq (Suc t) xs"
      unfolding xs_def
      by (rule states_ok_update [OF states at_k(2) msg_ok_ofi [OF at_k(3) k(2)]])
        (rule msg_ok_ofi_other [OF wf k])
    ultimately show ?thesis using r(2) q(2)
      by (intro exI [of _ r] exI [of _ q] exI [of _ xs])
        (simp add: Some shift pass(2) last_ofi_def)
  qed
qed

end
