(* ===== verification/Tick_Run.thy ===== *)
theory Tick_Run
  imports Tick_Stages Discrete_Engine
begin

text \<open>
  The pipeline as a whole: the invariant of a run on a stream it can process, the main results
  (what it reports for each message and when), the drive loop of \<open>main.cpp\<close>, and what happens
  after a failure.
\<close>

subsection \<open>The invariant\<close>

text \<open>No message is refused in cycle \<open>t\<close>, neither by the parser nor by the book.\<close>

definition clear_at :: "itch_stream \<Rightarrow> nat \<Rightarrow> bool" where
  "clear_at st t \<longleftrightarrow> (\<forall>k. occupant st 2 t = Some k \<longrightarrow> wf_message (message_bytes st k))
     \<and> (\<forall>k. occupant st 3 t = Some k \<longrightarrow> book_after st (Suc k) \<noteq> None)"

lemma clear_atD:
  "clear_at st t \<Longrightarrow> occupant st 2 t = Some k \<Longrightarrow> wf_message (message_bytes st k)"
  "clear_at st t \<Longrightarrow> occupant st 3 t = Some k \<Longrightarrow> book_after st (Suc k) \<noteq> None"
  by (simp_all add: clear_at_def del: book_after.simps)

lemma wf_clear:
  assumes "wf_stream st"
  shows "clear_at st t"
proof -
  note sz = wf_sized [OF assms]
  have "wf_message (message_bytes st k)" if "occupant st 2 t = Some k" for k
    using that by (intro wf_stream_message(2) [OF assms]) (simp add: occupant_Some [OF sz])
  moreover have "book_after st (Suc k) \<noteq> None" if "occupant st 3 t = Some k" for k
    using that by (intro wf_book_after [OF assms]) (simp add: occupant_Some [OF sz] Suc_le_eq)
  ultimately show ?thesis by (simp add: clear_at_def del: book_after.simps)
qed

definition tick_inv :: "itch_stream \<Rightarrow> nat \<Rightarrow> tick_pipeline \<Rightarrow> bool" where
  "tick_inv st t p \<longleftrightarrow> \<not> tt_error p \<and> dma_part st t p
     \<and> ring_holds (tt_dma_q p) 64 (opt_list (occupant st 8 t))
     \<and> slot_holds (tt_ofi_in p) (occupant st 5 t) 0 t \<and> ofi_part st t (tt_ofi p)
     \<and> ring_holds (tt_ofi_ring p) 16 (opt_list (occupant st 7 t) @ opt_list (occupant st 6 t))
     \<and> slot_holds (tt_rd p) (occupant st 4 t) 1 t \<and> ring_holds (tt_bram_ring p) 16 []
     \<and> slot_holds (tt_book_slot p) (occupant st 3 t) 1 t \<and> book_part st t p
     \<and> parse_holds st t (tt_parse p) \<and> length (ps_events (tt_parser p)) = max_events
     \<and> mac_ready st t p \<and> pcs_holds st t (on_wire st t) (tt_pcs p) \<and> tt_next p = started st t
     \<and> ram_part st t (tt_bram p)
     \<and> tt_cumulative p = word_of_int (ofi_total st (passed st 7 t))
     \<and> tt_last_ofi p = last_ofi st (passed st 7 t)
     \<and> states_ok st t t t t t t (tt_state p)"

lemma tick_new_inv:
  assumes "sized_stream st"
  shows "tick_inv st 0 (tick_new st)"
proof -
  note occ = occupant_0 [OF assms]
  have "msg_ok st k 0 0 0 0 0 0 msg_empty" if "k < is_count st" for k
    using sized_blocks(1) [OF assms that] by (simp add: msg_ok_def msg_empty_def received_def)
  then have states: "states_ok st 0 0 0 0 0 0 (replicate (is_capacity st) msg_empty)"
    using assms by (simp add: states_ok_def sized_stream_def)
  have parts: "ram_part st 0 (bram_new 32 quote_ram_latency)" "ofi_part st 0 ofi_new"
    by (simp_all add: ram_part_def occ quote_ram_latency_def ofi_part_def ofi_new_def ofi_slot_def
        pipeline_stages_def previous_quote_def numeral_3_eq_3)
  moreover have "dma_posted dma_new = 0" by (simp add: dma_new_def)
  ultimately show ?thesis
    using states
    by (simp add: tick_inv_def tick_new_def occ dma_part_def book_part_def parse_holds_def mac_ready_def
        pcs_holds_def tick_slot_empty_def ring_holds_new parser_new_def ofi_total_def last_ofi_def)
qed

lemma dma_part_frame [simp]:
  "dma_part st t (p\<lparr>tt_ofi := x1\<rparr>) = dma_part st t p"
  "dma_part st t (p\<lparr>tt_ofi_ring := x2\<rparr>) = dma_part st t p"
  "dma_part st t (p\<lparr>tt_ofi_in := x3\<rparr>) = dma_part st t p"
  "dma_part st t (p\<lparr>tt_dma_q := x4\<rparr>) = dma_part st t p"
  by (simp_all add: dma_part_def)

subsection \<open>The rising edge\<close>

text \<open>The stages behind the book and those before the parser.\<close>

definition tick_front :: "itch_stream \<Rightarrow> u64 \<Rightarrow> tick_pipeline \<Rightarrow> (book_quote port_request \<times> tick_pipeline) option" where
  "tick_front st cycle p = do {
     p1 \<leftarrow> dma_stage st cycle p; p2 \<leftarrow> ofi_stage_step cycle p1; read_stage cycle p2 }"

definition tick_back :: "itch_stream \<Rightarrow> u64 \<Rightarrow> tick_pipeline \<Rightarrow> tick_pipeline option" where
  "tick_back st cycle p = do { p1 \<leftarrow> mac_stage cycle p; pcs_stage st cycle p1 }"

lemma tick_posedge_parts:
  "\<not> tt_error p \<Longrightarrow> tick_posedge st c p = do {
     (b, p3) \<leftarrow> tick_front st c p; (a, p4) \<leftarrow> book_stage st c p3; p5 \<leftarrow> parse_stage c p4;
     p7 \<leftarrow> tick_back st c p5; ram_posedge a b p7 }"
  by (simp add: tick_posedge_def tick_front_def tick_back_def)

definition front_done :: "itch_stream \<Rightarrow> nat \<Rightarrow> tick_pipeline \<Rightarrow> tick_pipeline \<Rightarrow> bool" where
  "front_done st t p p3 \<longleftrightarrow> dma_part st (Suc t) p3 \<and> ring_holds (tt_dma_q p3) 64 [] \<and> sl_msg (tt_ofi_in p3) = None
     \<and> ofi_part st (Suc t) (tt_ofi p3)
     \<and> ring_holds (tt_ofi_ring p3) 16
         (opt_list (occupant st 7 t) @ opt_list (occupant st 6 t) @ opt_list (occupant st 5 t))
     \<and> sl_msg (tt_rd p3) = None \<and> ring_holds (tt_bram_ring p3) 16 (opt_list (occupant st 4 t))
     \<and> tt_framer p3 = tt_framer p \<and> tt_parser p3 = tt_parser p \<and> tt_orders p3 = tt_orders p
     \<and> tt_book p3 = tt_book p \<and> tt_bram p3 = tt_bram p \<and> tt_pcs p3 = tt_pcs p \<and> tt_mac p3 = tt_mac p
     \<and> tt_parse p3 = tt_parse p \<and> tt_book_slot p3 = tt_book_slot p \<and> tt_mac_beats p3 = tt_mac_beats p
     \<and> tt_state p3 = tt_state p \<and> tt_next p3 = tt_next p \<and> tt_cumulative p3 = tt_cumulative p
     \<and> tt_last_ofi p3 = tt_last_ofi p \<and> tt_error p3 = tt_error p"

definition back_done ::
  "itch_stream \<Rightarrow> nat \<Rightarrow> nat \<Rightarrow> nat \<Rightarrow> nat \<Rightarrow> tick_pipeline \<Rightarrow> tick_pipeline \<Rightarrow> bool" where
  "back_done st t te tq to p p7 \<longleftrightarrow> states_ok st (Suc t) (Suc t) (Suc t) te tq to (tt_state p7)
     \<and> parse_holds st (Suc t) (tt_parse p7) \<and> mac_ready st (Suc t) p7
     \<and> pcs_holds st (Suc t) (on_wire st (Suc t)) (tt_pcs p7) \<and> tt_next p7 = started st (Suc t)
     \<and> tt_parser p7 = tt_parser p \<and> tt_orders p7 = tt_orders p \<and> tt_book p7 = tt_book p \<and> tt_bram p7 = tt_bram p
     \<and> tt_ofi p7 = tt_ofi p \<and> tt_dma p7 = tt_dma p \<and> tt_engine p7 = tt_engine p \<and> tt_book_slot p7 = tt_book_slot p
     \<and> tt_rd p7 = tt_rd p \<and> tt_ofi_in p7 = tt_ofi_in p \<and> tt_bram_ring p7 = tt_bram_ring p
     \<and> tt_ofi_ring p7 = tt_ofi_ring p \<and> tt_dma_q p7 = tt_dma_q p \<and> tt_latency p7 = tt_latency p
     \<and> tt_completed p7 = tt_completed p \<and> tt_cumulative p7 = tt_cumulative p
     \<and> tt_last_ofi p7 = tt_last_ofi p \<and> tt_error p7 = tt_error p"

lemma tick_front_step:
  assumes wf: "sized_stream st" and t: "t < 2 ^ 64" and inv: "tick_inv st t p"
  shows "\<exists>p3. tick_front st (of_nat t) p = Some (read_request (occupant st 4 t), p3) \<and> front_done st t p p3"
proof -
  obtain d q e l c where dma: "dma_stage st (of_nat t) p
      = Some (p\<lparr>tt_dma := d, tt_dma_q := q, tt_engine := e, tt_latency := l, tt_completed := c\<rparr>)"
    "dma_part st (Suc t) (p\<lparr>tt_dma := d, tt_dma_q := q, tt_engine := e, tt_latency := l, tt_completed := c\<rparr>)"
    "ring_holds q 64 []"
    using dma_stage_step [OF wf t, of p t t t t t t] inv by (auto simp: tick_inv_def)
  define p1 where "p1 = p\<lparr>tt_dma := d, tt_dma_q := q, tt_engine := e, tt_latency := l, tt_completed := c\<rparr>"
  obtain o' r i where ofi: "ofi_stage_step (of_nat t) p1 = Some (p1\<lparr>tt_ofi := o', tt_ofi_ring := r, tt_ofi_in := i\<rparr>)"
    "ofi_part st (Suc t) o'" "sl_msg i = None"
    "ring_holds r 16 (opt_list (occupant st 7 t) @ opt_list (occupant st 6 t) @ opt_list (occupant st 5 t))"
    using ofi_stage_step [OF wf t, of p1 t t t t t] inv by (auto simp: tick_inv_def p1_def)
  define p2 where "p2 = p1\<lparr>tt_ofi := o', tt_ofi_ring := r, tt_ofi_in := i\<rparr>"
  obtain br rd where read: "read_stage (of_nat t) p2
      = Some (read_request (occupant st 4 t), p2\<lparr>tt_bram_ring := br, tt_rd := rd\<rparr>)"
    "sl_msg rd = None" "ring_holds br 16 (opt_list (occupant st 4 t))"
    using read_stage_step [OF t, of p2 st] inv by (auto simp: tick_inv_def p1_def p2_def)
  have "tick_front st (of_nat t) p = Some (read_request (occupant st 4 t), p2\<lparr>tt_bram_ring := br, tt_rd := rd\<rparr>)"
    using dma(1) ofi(1) read(1) by (simp add: tick_front_def flip: p1_def p2_def)
  moreover have "dma_part st (Suc t) (p2\<lparr>tt_bram_ring := br, tt_rd := rd\<rparr>)"
    using dma(2) by (simp add: dma_part_def p2_def p1_def)
  ultimately show ?thesis using dma(3) ofi(2-4) read(2,3) by (auto simp: front_done_def p2_def p1_def)
qed

lemma tick_back_step:
  assumes wf: "sized_stream st" and t: "t < 2 ^ 64" and ready: "mac_ready st t p"
    and parse: "slot_holds (tt_parse p) (occupant st 1 t) 1 t"
    and pcs: "pcs_holds st t (on_wire st t) (tt_pcs p)" "tt_next p = started st t"
    and states: "states_ok st t t t te tq to (tt_state p)"
  shows "\<exists>p7. tick_back st (of_nat t) p = Some p7 \<and> back_done st t te tq to p p7"
proof -
  obtain f ys s m where mac: "mac_stage (of_nat t) p
      = Some (p\<lparr>tt_framer := f, tt_state := ys, tt_parse := s, tt_mac := m\<rparr>)"
    "states_ok st t t (Suc t) te tq to ys" "parse_holds st (Suc t) s" "sl_msg m = None"
    using mac_stage_step [OF wf t ready parse states] by blast
  define p6 where "p6 = p\<lparr>tt_framer := f, tt_state := ys, tt_parse := s, tt_mac := m\<rparr>"
  obtain zs s' f' n m' where pcs': "pcs_stage st (of_nat t) p6
      = Some (p6\<lparr>tt_state := zs, tt_pcs := s', tt_next := started st (Suc t), tt_framer := f',
          tt_mac_beats := n, tt_mac := m'\<rparr>)"
    "states_ok st (Suc t) (Suc t) (Suc t) te tq to zs"
    "pcs_holds st (Suc t) (on_wire st (Suc t)) s'"
    "mac_ready st (Suc t) (p6\<lparr>tt_mac := m', tt_mac_beats := n, tt_framer := f'\<rparr>)"
    using pcs_stage_step [OF wf t, of p6 te tq to] pcs mac(2,4) by (auto simp: p6_def)
  have "tick_back st (of_nat t) p = Some (p6\<lparr>tt_state := zs, tt_pcs := s', tt_next := started st (Suc t),
      tt_framer := f', tt_mac_beats := n, tt_mac := m'\<rparr>)"
    using mac(1) pcs'(1) by (simp add: tick_back_def flip: p6_def)
  moreover have "mac_ready st (Suc t) (p6\<lparr>tt_state := zs, tt_pcs := s', tt_next := started st (Suc t),
      tt_framer := f', tt_mac_beats := n, tt_mac := m'\<rparr>)"
    using pcs'(4) by (simp add: mac_ready_def)
  ultimately show ?thesis using mac(3) pcs'(2,3) by (auto simp: back_done_def p6_def)
qed

text \<open>The whole edge: each stage hands its message on.\<close>

lemma tick_posedge_step:
  assumes wf: "sized_stream st" and t: "t < 2 ^ 64" and inv: "tick_inv st t p" and go: "clear_at st t"
  shows "\<exists>p1. tick_posedge st (of_nat t) p = Some p1 \<and> \<not> tt_error p1 \<and> dma_part st (Suc t) p1
     \<and> ring_holds (tt_dma_q p1) 64 [] \<and> sl_msg (tt_ofi_in p1) = None \<and> ofi_part st (Suc t) (tt_ofi p1)
     \<and> ring_holds (tt_ofi_ring p1) 16
         (opt_list (occupant st 7 t) @ opt_list (occupant st 6 t) @ opt_list (occupant st 5 t))
     \<and> slot_holds (tt_rd p1) (occupant st 4 (Suc t)) 1 (Suc t)
     \<and> ring_holds (tt_bram_ring p1) 16 (opt_list (occupant st 4 t))
     \<and> slot_holds (tt_book_slot p1) (occupant st 3 (Suc t)) 1 (Suc t) \<and> book_part st (Suc t) p1
     \<and> parse_holds st (Suc t) (tt_parse p1) \<and> length (ps_events (tt_parser p1)) = max_events
     \<and> mac_ready st (Suc t) p1 \<and> pcs_holds st (Suc t) (on_wire st (Suc t)) (tt_pcs p1)
     \<and> tt_next p1 = started st (Suc t)
     \<and> ram_part st (Suc t) (bram_negedge (tt_bram p1))
     \<and> br_response_b (bram_negedge (tt_bram p1)) = ram_answer st (occupant st 4 t)
     \<and> tt_cumulative p1 = tt_cumulative p \<and> tt_last_ofi p1 = tt_last_ofi p
     \<and> states_ok st (Suc t) (Suc t) (Suc t) (Suc t) (Suc t) t (tt_state p1)"
proof -
  have err: "\<not> tt_error p" using inv by (simp add: tick_inv_def)
  obtain p3 where front: "tick_front st (of_nat t) p = Some (read_request (occupant st 4 t), p3)" "front_done st t p p3"
    using tick_front_step [OF wf t inv] by blast
  obtain od b xs bs rd where book: "book_stage st (of_nat t) p3 = Some (write_request st (occupant st 3 t),
      p3\<lparr>tt_orders := od, tt_book := b, tt_state := xs, tt_book_slot := bs, tt_rd := rd\<rparr>)"
    "book_after st (passed st 3 (Suc t)) = Some (od, b)" "states_ok st t t t t (Suc t) t xs"
    "sl_msg bs = None" "slot_holds rd (occupant st 4 (Suc t)) 1 (Suc t)"
    using book_stage_step [OF wf t _ _ _ clear_atD(2) [OF go], of p3 t t t t] inv front(2)
    by (auto simp: tick_inv_def book_part_def front_done_def)
  define p4 where "p4 = p3\<lparr>tt_orders := od, tt_book := b, tt_state := xs, tt_book_slot := bs, tt_rd := rd\<rparr>"
  obtain pr ys ps bs' where parse: "parse_stage (of_nat t) p4
      = Some (p4\<lparr>tt_parser := pr, tt_state := ys, tt_parse := ps, tt_book_slot := bs'\<rparr>)"
    "length (ps_events pr) = max_events" "states_ok st t t t (Suc t) (Suc t) t ys"
    "slot_holds ps (occupant st 1 t) 1 t" "slot_holds bs' (occupant st 3 (Suc t)) 1 (Suc t)"
    using parse_stage_step [OF wf t _ _ _ clear_atD(1) [OF go], of p4 t "Suc t" t] inv front(2) book(3,4)
    by (auto simp: tick_inv_def front_done_def p4_def)
  define p5 where "p5 = p4\<lparr>tt_parser := pr, tt_state := ys, tt_parse := ps, tt_book_slot := bs'\<rparr>"
  obtain p7 where rear: "tick_back st (of_nat t) p5 = Some p7" "back_done st t (Suc t) (Suc t) t p5 p7"
    using tick_back_step [OF wf t, of p5 "Suc t" "Suc t" t] inv front(2) parse(3,4)
    by (auto simp: tick_inv_def mac_ready_def front_done_def p4_def p5_def)
  let ?ram = "bram_posedge (write_request st (occupant st 3 t)) (read_request (occupant st 4 t)) (tt_bram p)"
  have same: "tt_bram p7 = tt_bram p" using front(2) rear(2) by (simp add: front_done_def back_done_def p4_def p5_def)
  have "ram_part st t (tt_bram p)" using inv by (simp add: tick_inv_def)
  note ram = ram_step [OF wf this refl refl]
  have "tick_posedge st (of_nat t) p = Some (p7\<lparr>tt_bram := ?ram\<rparr>)"
    using front(1) book(1) parse(1) rear(1) ram(1)
    by (simp add: tick_posedge_parts [OF err] ram_posedge_def same flip: p4_def p5_def)
  moreover have "mac_ready st (Suc t) (p7\<lparr>tt_bram := ?ram\<rparr>)" "dma_part st (Suc t) (p7\<lparr>tt_bram := ?ram\<rparr>)"
    using front(2) rear(2) by (simp_all add: mac_ready_def dma_part_def back_done_def front_done_def p4_def p5_def)
  ultimately show ?thesis
    using err front(2) book(2,5) parse(2,5) rear(2) ram(2,3)
    by (intro exI [of _ "p7\<lparr>tt_bram := ?ram\<rparr>"])
      (simp add: book_part_def front_done_def back_done_def p4_def p5_def)
qed

text \<open>The falling edge: the RAM answers and the OFI pipeline puts out a value.\<close>

lemma tick_cycle_step:
  assumes wf: "sized_stream st" and t: "t < 2 ^ 64" and inv: "tick_inv st t p" and go: "clear_at st t"
  shows "\<exists>p'. tick_cycle st (of_nat t) p = Some p' \<and> tick_inv st (Suc t) p'"
proof -
  from tick_posedge_step [OF wf t inv go] obtain p1 where
    pos: "tick_posedge st (of_nat t) p = Some p1" and err: "\<not> tt_error p1" and dma: "dma_part st (Suc t) p1"
    and q: "ring_holds (tt_dma_q p1) 64 []" and ofi_in: "sl_msg (tt_ofi_in p1) = None"
    and ofi: "ofi_part st (Suc t) (tt_ofi p1)"
    and ring: "ring_holds (tt_ofi_ring p1) 16
         (opt_list (occupant st 7 t) @ opt_list (occupant st 6 t) @ opt_list (occupant st 5 t))"
    and rd: "slot_holds (tt_rd p1) (occupant st 4 (Suc t)) 1 (Suc t)"
    and bring: "ring_holds (tt_bram_ring p1) 16 (opt_list (occupant st 4 t))"
    and book: "slot_holds (tt_book_slot p1) (occupant st 3 (Suc t)) 1 (Suc t)" "book_part st (Suc t) p1"
    and parse: "parse_holds st (Suc t) (tt_parse p1)" "length (ps_events (tt_parser p1)) = max_events"
    and mac: "mac_ready st (Suc t) p1"
    and pcs: "pcs_holds st (Suc t) (on_wire st (Suc t)) (tt_pcs p1)" "tt_next p1 = started st (Suc t)"
    and ram: "ram_part st (Suc t) (bram_negedge (tt_bram p1))"
      "br_response_b (bram_negedge (tt_bram p1)) = ram_answer st (occupant st 4 t)"
    and total: "tt_cumulative p1 = tt_cumulative p" "tt_last_ofi p1 = tt_last_ofi p"
    and states: "states_ok st (Suc t) (Suc t) (Suc t) (Suc t) (Suc t) t (tt_state p1)"
    by blast
  define p2 where "p2 = p1\<lparr>tt_bram := bram_negedge (tt_bram p1), tt_ofi := ofi_negedge (tt_ofi p1)\<rparr>"
  obtain br xs s where resp: "ram_response (of_nat t) p2
      = Some (p2\<lparr>tt_bram_ring := br, tt_state := xs, tt_ofi_in := s\<rparr>)" "ring_holds br 16 []"
    "states_ok st (Suc t) (Suc t) (Suc t) (Suc t) (Suc t) t xs" "slot_holds s (occupant st 5 (Suc t)) 0 (Suc t)"
    using ram_response_step [OF wf, of p2 t "Suc t" "Suc t" "Suc t" "Suc t" "Suc t" t] ram(2) bring ofi_in states by (auto simp: p2_def)
  define p3 where "p3 = p2\<lparr>tt_bram_ring := br, tt_state := xs, tt_ofi_in := s\<rparr>"
  have shift: "occupant st 8 (Suc t) = occupant st 7 t" using occupant_Suc [of st 7 t] by simp
  have out: "od_output (tt_ofi p3) = ofi_slot st (occupant st 7 t)"
    using ofi by (simp add: p3_def p2_def ofi_negedge_def ofi_part_def shift)
  obtain r q' ys where outp: "ofi_output p3 = Some (p3\<lparr>tt_ofi_ring := r, tt_dma_q := q', tt_state := ys,
        tt_last_ofi := last_ofi st (passed st 7 (Suc t)),
        tt_cumulative := word_of_int (ofi_total st (passed st 7 (Suc t)))\<rparr>)"
    "ring_holds r 16 (opt_list (occupant st 7 (Suc t)) @ opt_list (occupant st 6 (Suc t)))"
    "ring_holds q' 64 (opt_list (occupant st 8 (Suc t)))"
    "states_ok st (Suc t) (Suc t) (Suc t) (Suc t) (Suc t) (Suc t) ys"
    using ofi_output_step [OF wf out, of "Suc t" "Suc t" "Suc t" "Suc t" "Suc t"] ring q total resp(3) inv
    by (auto simp: tick_inv_def p3_def p2_def)
  define p4 where "p4 = p3\<lparr>tt_ofi_ring := r, tt_dma_q := q', tt_state := ys,
        tt_last_ofi := last_ofi st (passed st 7 (Suc t)),
        tt_cumulative := word_of_int (ofi_total st (passed st 7 (Suc t)))\<rparr>"
  have steps: "ram_response (of_nat t) p2 = Some p3" "ofi_output p3 = Some p4"
    using resp(1) outp(1) by (simp_all only: p3_def p4_def)
  have "\<not> tt_error p3" using err by (simp add: p3_def p2_def)
  with err steps have "tick_negedge (of_nat t) p1 = Some p4"
    by (simp add: tick_negedge_def flip: p2_def)
  with pos have "tick_cycle st (of_nat t) p = Some p4" by (simp add: tick_cycle_def)
  moreover have "dma_part st (Suc t) p4" using dma by (simp add: dma_part_def p4_def p3_def p2_def)
  moreover have "mac_ready st (Suc t) p4" using mac by (simp add: mac_ready_def p4_def p3_def p2_def)
  moreover have "ofi_part st (Suc t) (tt_ofi p4)"
    using ofi by (auto simp: ofi_part_def ofi_negedge_def p4_def p3_def p2_def)
  moreover have "book_part st (Suc t) p4" using book(2) by (simp add: book_part_def p4_def p3_def p2_def)
  ultimately show ?thesis
    using err rd book(1) parse pcs ram(1) resp(2,4) outp(2-4)
    by (intro exI [of _ p4]) (simp add: tick_inv_def p4_def p3_def p2_def)
qed

lemma tick_cycles_inv:
  assumes "sized_stream st"
  shows "t \<le> 2 ^ 64 \<Longrightarrow> \<forall>u < t. clear_at st u \<Longrightarrow> \<exists>p. tick_cycles st t = Some p \<and> tick_inv st t p"
proof (induction t)
  case 0
  show ?case by (simp add: tick_new_inv [OF assms])
next
  case (Suc t)
  then obtain p where "tick_cycles st t = Some p" "tick_inv st t p" by auto
  with tick_cycle_step [OF assms, of t p] Suc.prems show ?case by auto
qed

lemma fits_ofi_total:
  assumes "sized_stream st" "n \<le> is_count st"
  shows "fits_i64 (ofi_total st n)"
proof -
  have "n \<le> 2 ^ 31" using assms by (simp add: sized_stream_def)
  then have "int n * 2 ^ 31 \<le> 2 ^ 31 * 2 ^ 31" by (intro mult_right_mono) auto
  with ofi_total_bound [of st n] show ?thesis by (simp add: fits_i64_def abs_le_iff)
qed

text \<open>What the invariant says when everything has been received.\<close>

lemma tick_inv_complete:
  assumes wf: "sized_stream st" and inv: "tick_inv st t p" and k: "\<forall>k < is_count st. received st k + 9 < t"
  shows "tick_ok st p" "dma_posted (tt_engine p) = of_nat (is_count st)"
    "i < is_count st \<Longrightarrow> tt_latency p ! i = of_nat (expected_latency st i)
      \<and> ms_quote (tt_state p ! i) = expected_quote st i \<and> ms_ofi (tt_state p ! i) = expected_ofi st i"
    "sint (tt_cumulative p) = (\<Sum>j < is_count st. sint (expected_ofi st j))"
proof -
  have all: "passed st d t = is_count st" if "d \<le> 9" for d
  proof (rule nat_eq_by_less)
    fix j show "j < passed st d t \<longleftrightarrow> j < is_count st"
      using k that by (auto simp: passed_less [OF wf] dest: spec [of _ j])
  qed
  show "tick_ok st p" "dma_posted (tt_engine p) = of_nat (is_count st)"
    using inv all [of 9] by (simp_all add: tick_ok_def tick_inv_def dma_part_def)
  have "tt_cumulative p = word_of_int (ofi_total st (is_count st))"
    using inv all [of 7] by (simp add: tick_inv_def)
  then show "sint (tt_cumulative p) = (\<Sum>j < is_count st. sint (expected_ofi st j))"
    using sint_of_int_i64 [OF fits_ofi_total [OF wf order_refl]] by (simp add: ofi_total_def)
  assume "i < is_count st"
  moreover from this k have "received st i + 9 < t" by blast
  ultimately show "tt_latency p ! i = of_nat (expected_latency st i)
      \<and> ms_quote (tt_state p ! i) = expected_quote st i \<and> ms_ofi (tt_state p ! i) = expected_ofi st i"
    using inv all [of 9] by (auto simp: tick_inv_def dma_part_def states_ok_def msg_ok_def)
qed

subsection \<open>The drive loop\<close>

text \<open>The callbacks of the code: the context is the pipeline, a null pointer is undefined.\<close>

definition posedge_callback :: "itch_stream \<Rightarrow> (unit, tick_pipeline) callback" where
  "posedge_callback st context cycle p =
     (case context of None \<Rightarrow> None | Some _ \<Rightarrow> tick_posedge st cycle p)"

definition negedge_callback :: "itch_stream \<Rightarrow> (unit, tick_pipeline) callback" where
  "negedge_callback st context cycle p =
     (case context of None \<Rightarrow> None | Some _ \<Rightarrow> tick_negedge cycle p)"

definition replay_engine :: "itch_stream \<Rightarrow> (unit, tick_pipeline) engine" where
  "replay_engine st = snd (on_negedge (Some (negedge_callback st)) (Some ())
     (snd (on_posedge (Some (posedge_callback st)) (Some ()) engine_new)))"

lemma engine_step_advances: "engine_step e w = Some (e', w') \<Longrightarrow> en_cycle e' = en_cycle e + 1"
  by (auto simp: engine_step_def split: bind_splits)

lemma cycle_below: "c < limit \<Longrightarrow> unat (c + 1 :: u64) = Suc (unat c) \<and> unat c < unat limit"
  using unat_u64_less [of limit] by (simp add: word_less_nat_alt unat_word_ariths)

text \<open>\<open>while (!pipeline.done() && engine.cycle() < limit) engine.step()\<close>.\<close>

function drive ::
  "itch_stream \<Rightarrow> u64 \<Rightarrow> (unit, tick_pipeline) engine \<Rightarrow> tick_pipeline
     \<Rightarrow> ((unit, tick_pipeline) engine \<times> tick_pipeline) option" where
  "drive st limit e p =
     (if \<not> tick_done st p \<and> en_cycle e < limit then
        (case engine_step e p of None \<Rightarrow> None | Some (e', p') \<Rightarrow> drive st limit e' p')
      else Some (e, p))"
  by pat_completeness auto

termination
  by (relation "measure (\<lambda>(st, limit, e, p). unat limit - unat (en_cycle e))")
    (auto dest!: engine_step_advances dest: cycle_below)

declare drive.simps [simp del]

lemma replay_engine_step:
  "engine_step ((replay_engine st)\<lparr>en_cycle := c\<rparr>) p
   = map_option (\<lambda>p'. ((replay_engine st)\<lparr>en_cycle := c + 1\<rparr>, p')) (tick_cycle st c p)"
proof -
  have "take (en_count (replay_engine st)) (en_posedge (replay_engine st))
      = [\<lparr>slot_callback = Some (posedge_callback st), slot_context = Some ()\<rparr>]"
    "take (en_negedge_count (replay_engine st)) (en_negedge (replay_engine st))
      = [\<lparr>slot_callback = Some (negedge_callback st), slot_context = Some ()\<rparr>]"
    by (simp_all add: replay_engine_def on_posedge_def on_negedge_def engine_new_def max_callbacks_def
        numeral_eq_Suc)
  then show ?thesis
    by (simp add: engine_step_def tick_cycle_def posedge_callback_def negedge_callback_def
        split: bind_splits)
qed

text \<open>The cycle count when the last decision has been posted.\<close>

definition finish :: "itch_stream \<Rightarrow> nat" where
  "finish st = (if is_count st = 0 then 0 else received st (is_count st - 1) + 10)"

lemma finish_iff:
  assumes "sized_stream st"
  shows "passed st 9 t = is_count st \<longleftrightarrow> finish st \<le> t"
proof (cases "is_count st")
  case 0
  with passed_le [of st 9 t] show ?thesis by (simp add: finish_def)
next
  case (Suc n)
  have "passed st 9 t = is_count st \<longleftrightarrow> n < passed st 9 t"
    using passed_le [of st 9 t] Suc by auto
  also have "\<dots> \<longleftrightarrow> received st n + 9 < t" using passed_less [OF assms, of n 9 t] Suc by simp
  finally show ?thesis using Suc by (auto simp: finish_def)
qed

lemma tick_inv_done:
  "sized_stream st \<Longrightarrow> tick_inv st t p \<Longrightarrow> tick_done st p = (finish st \<le> t) \<and> tick_ok st p = (finish st \<le> t)"
  using finish_iff [of st t] by (auto simp: tick_done_def tick_ok_def tick_inv_def dma_part_def)

text \<open>While no message is refused the loop goes on to the last decision or the limit.\<close>

lemma drive_steps:
  assumes wf: "sized_stream st" and n: "n \<le> min (unat limit) (finish st)" and go: "\<forall>t < n. clear_at st t"
  shows "t \<le> n \<Longrightarrow> tick_cycles st t = Some p \<Longrightarrow> tick_inv st t p \<Longrightarrow>
    \<exists>p'. drive st limit ((replay_engine st)\<lparr>en_cycle := of_nat t\<rparr>) p
        = drive st limit ((replay_engine st)\<lparr>en_cycle := of_nat n\<rparr>) p'
      \<and> tick_cycles st n = Some p' \<and> tick_inv st n p'"
proof (induction "n - t" arbitrary: t p)
  case 0
  then show ?case by auto
next
  case (Suc d)
  then have less: "t < unat limit" "t < finish st" "t < n" using n by auto
  then have t: "t < 2 ^ 64" using unat_u64_less [of limit] by simp
  from tick_cycle_step [OF wf t Suc.prems(3)] go less(3) obtain p' where
    p': "tick_cycle st (of_nat t) p = Some p'" "tick_inv st (Suc t) p'" by blast
  then have cyc: "tick_cycles st (Suc t) = Some p'" using Suc.prems(2) by simp
  have "\<not> tick_done st p" using tick_inv_done [OF wf Suc.prems(3)] less by auto
  moreover have "(of_nat t :: u64) < limit" using less t by (simp add: word_less_nat_alt unat_of_nat)
  ultimately have "drive st limit ((replay_engine st)\<lparr>en_cycle := of_nat t\<rparr>) p
      = drive st limit ((replay_engine st)\<lparr>en_cycle := of_nat (Suc t)\<rparr>) p'"
    by (subst drive.simps) (simp add: replay_engine_step p'(1) add.commute)
  moreover have "d = n - Suc t" "Suc t \<le> n" using Suc.hyps(2) less by auto
  ultimately show ?case using Suc.hyps(1) [OF _ _ cyc p'(2)] by simp
qed

lemma replay_engine_0: "(replay_engine st)\<lparr>en_cycle := 0\<rparr> = replay_engine st"
  by (simp add: replay_engine_def on_posedge_def on_negedge_def engine_new_def max_callbacks_def)

lemma drive_start:
  assumes "sized_stream st" "n \<le> min (unat limit) (finish st)" "\<forall>t < n. clear_at st t"
  shows "\<exists>p. drive st limit (replay_engine st) (tick_new st)
        = drive st limit ((replay_engine st)\<lparr>en_cycle := of_nat n\<rparr>) p
      \<and> tick_cycles st n = Some p \<and> tick_inv st n p"
  using drive_steps [OF assms, of 0 "tick_new st"] tick_new_inv [OF assms(1)] by (simp add: replay_engine_0)

text \<open>The loop ends at the limit or when everything is done.\<close>

lemma drive_stops:
  assumes "tick_done st p \<or> unat limit \<le> n" "n \<le> unat limit"
  shows "drive st limit ((replay_engine st)\<lparr>en_cycle := of_nat n\<rparr>) p
    = Some ((replay_engine st)\<lparr>en_cycle := of_nat n\<rparr>, p)" "unat (of_nat n :: u64) = n"
proof -
  have "n < 2 ^ 64" using assms(2) unat_u64_less [of limit] by simp
  then show n: "unat (of_nat n :: u64) = n" by (simp add: unat_of_nat)
  show "drive st limit ((replay_engine st)\<lparr>en_cycle := of_nat n\<rparr>) p
      = Some ((replay_engine st)\<lparr>en_cycle := of_nat n\<rparr>, p)"
    using assms by (subst drive.simps) (auto simp: word_less_nat_alt n)
qed

lemma drive_ends:
  assumes "sized_stream st" "n = min (unat limit) (finish st)" "\<forall>t < n. clear_at st t"
  shows "\<exists>e p. drive st limit (replay_engine st) (tick_new st) = Some (e, p)
    \<and> unat (en_cycle e) = n \<and> tick_cycles st n = Some p \<and> tick_inv st n p"
proof -
  obtain p where p: "drive st limit (replay_engine st) (tick_new st)
      = drive st limit ((replay_engine st)\<lparr>en_cycle := of_nat n\<rparr>) p"
    "tick_cycles st n = Some p" "tick_inv st n p"
    using drive_start [OF assms(1) _ assms(3)] assms(2) by blast
  have "tick_done st p \<or> unat limit \<le> n" "n \<le> unat limit"
    using tick_inv_done [OF assms(1) p(3)] assms(2) by auto
  note stop = drive_stops [OF this]
  show ?thesis
    using p stop by (intro exI [of _ "(replay_engine st)\<lparr>en_cycle := of_nat n\<rparr>"] exI [of _ p]) simp
qed

lemma drive_final:
  assumes "wf_stream st"
  shows "\<exists>e p. drive st limit (replay_engine st) (tick_new st) = Some (e, p)
    \<and> unat (en_cycle e) = min (unat limit) (finish st)
    \<and> tick_cycles st (unat (en_cycle e)) = Some p \<and> tick_inv st (unat (en_cycle e)) p"
  using drive_ends [OF wf_sized [OF assms] refl, of limit] wf_clear [OF assms] by auto

subsection \<open>Streams built by pushing messages\<close>

lemma replay_sized:
  assumes "replay_inv st" "is_capacity st < 2 ^ 31" "\<forall>m \<in> set (replay_contents st). 4 \<le> length (fst m)"
  shows "sized_stream st"
proof -
  have "message_size st k \<le> length (sm_bytes (message st k)) \<and> 4 \<le> message_size st k \<and> message_size st k \<le> 40"
    if k: "k < is_count st" for k
  proof -
    have "message st k \<in> set (is_messages st)"
      using assms(1) k by (auto simp: replay_inv_def message_def)
    then have "length (sm_bytes (message st k)) = 40" "message_size st k \<le> 40"
      using assms(1) by (auto simp: replay_inv_def message_size_def)
    moreover have "4 \<le> length (message_bytes st k)" using assms(3) k by (simp add: replay_contents_def)
    ultimately show ?thesis by (simp add: message_bytes_def)
  qed
  then show ?thesis using assms(1,2) by (simp add: sized_stream_def replay_inv_def)
qed

lemma replay_wf:
  assumes "replay_inv st" "is_capacity st < 2 ^ 31" "\<forall>m \<in> set (replay_contents st). wf_message (fst m)"
    and "book_after st (is_count st) \<noteq> None"
  shows "wf_stream st"
proof -
  have "\<forall>m \<in> set (replay_contents st). 4 \<le> length (fst m)"
    using assms(3) wf_message_bounds by fastforce
  note sz = replay_sized [OF assms(1,2) this]
  have "wf_message (message_bytes st k)" if "k < is_count st" for k
    using assms(3) that by (auto simp: replay_contents_def)
  then show ?thesis using sz assms(4) by (simp add: wf_stream_def sized_stream_def)
qed

text \<open>A stream of one message.\<close>

definition single_stream :: "u8 list \<Rightarrow> u64 \<Rightarrow> itch_stream" where
  "single_stream m a = replay_push_all [(m, a)] (replay_new 1 1)"

lemma single_stream_facts:
  assumes "m \<noteq> []" "length m \<le> 40"
  shows "is_count (single_stream m a) = 1" "is_capacity (single_stream m a) = 1"
    "is_order_capacity (single_stream m a) = 1" "replay_inv (single_stream m a)"
    "replay_contents (single_stream m a) = [(m, a)]" "message_bytes (single_stream m a) 0 = m"
    "message_size (single_stream m a) 0 = length m" "message_arrival (single_stream m a) 0 = unat a"
proof -
  have "replayable (m, a)" using assms by (simp add: replayable_def)
  then obtain st where st: "replay_push m a (replay_new 1 1) = (True, st)" "replay_inv st"
    "is_capacity st = 1" "replay_contents st = replay_contents (replay_new 1 1) @ [(m, a)]"
    using replay_push_accepted [OF replay_new_inv, of 1 1 m a] by (auto simp: replay_new_def)
  have s: "single_stream m a = st" using st(1) by (simp add: single_stream_def)
  show "is_capacity (single_stream m a) = 1" "replay_inv (single_stream m a)" using st s by simp_all
  show c: "replay_contents (single_stream m a) = [(m, a)]" using st(4) s by simp
  then have "length (replay_contents (single_stream m a)) = 1" by simp
  then show n: "is_count (single_stream m a) = 1" by simp
  have bytes: "message_bytes st 0 = m" "sm_arrival (message st 0) = a"
    using c n s by (simp_all add: replay_contents_def)
  then show "message_bytes (single_stream m a) 0 = m" "message_arrival (single_stream m a) 0 = unat a"
    using s by (simp_all add: message_arrival_def)
  show "is_order_capacity (single_stream m a) = 1"
    by (simp add: single_stream_def replay_push_def Let_def) (simp add: replay_new_def)
  have "message_size st 0 \<le> 40" "length (sm_bytes (message st 0)) = 40"
    using st(2) n s by (auto simp: replay_inv_def message_size_def message_def)
  then have "length (message_bytes st 0) = message_size st 0" by (simp add: message_bytes_def)
  then show "message_size (single_stream m a) 0 = length m" using bytes(1) s by simp
qed

text \<open>A stream of one Add Order message.\<close>

definition sample_event :: itch_event where
  "sample_event = event_empty\<lparr>ev_type := Add, order_reference := 7, ev_side := ascii CHR ''B'',
     ev_shares := 100, price_ticks := 1000\<rparr>"

definition sample_message :: "u8 list" where
  "sample_message = itch_message (replicate 10 0) sample_event []"

definition sample_stream :: itch_stream where
  "sample_stream = single_stream sample_message 5"

lemma sample_message_wf: "wf_message sample_message" "decoded sample_message = sample_event"
  "length sample_message = 36"
proof -
  have c: "carried sample_event" "tail_length (ev_type sample_event) = 0"
    by (simp_all add: carried_def sample_event_def event_empty_def)
  show wf: "wf_message sample_message" "decoded sample_message = sample_event"
    unfolding sample_message_def using c by (auto intro: message_wf message_decoded)
  then show "length sample_message = 36"
    by (simp add: wf_message_def sample_message_def itch_message_def sample_event_def length_for_def)
qed

lemma sample_stream_facts:
  "is_count sample_stream = 1" "is_capacity sample_stream = 1" "is_order_capacity sample_stream = 1"
  "message_bytes sample_stream 0 = sample_message" "message_size sample_stream 0 = 36"
  "message_arrival sample_stream 0 = 5" "replay_inv sample_stream"
proof -
  have "sample_message \<noteq> []" "length sample_message \<le> 40" using sample_message_wf(3) by auto
  from single_stream_facts [OF this, of 5] sample_message_wf(3)
  show "is_count sample_stream = 1" "is_capacity sample_stream = 1" "is_order_capacity sample_stream = 1"
    "message_bytes sample_stream 0 = sample_message" "message_size sample_stream 0 = 36"
    "message_arrival sample_stream 0 = 5" "replay_inv sample_stream"
    by (simp_all add: sample_stream_def)
qed

lemma sample_stream_wf: "wf_stream sample_stream"
proof (rule replay_wf)
  show "\<forall>m \<in> set (replay_contents sample_stream). wf_message (fst m)"
    by (simp add: replay_contents_def sample_stream_facts sample_message_wf)
  show "book_after sample_stream (is_count sample_stream) \<noteq> None"
    by (simp add: sample_stream_facts sample_message_wf sample_event_def event_empty_def apply_event_def
        apply_insert_def table_insert_def table_new_def entry_empty_def book_add_def side_add_def
        book_new_def levels_def numeral_eq_Suc level_empty_def Let_def)
qed (simp_all add: sample_stream_facts)

lemma sample_stream_received: "received sample_stream 0 = 11" "wire_blocks sample_stream 0 = 6"
  by (simp_all add: received_def wire_blocks_def sample_stream_facts encoded_count_def bytes_per_block_def)

subsection \<open>Properties\<close>

text \<open>
  C1. End to end: on every stream of supported messages whose orders can be applied, once the
  last message has been on the wire and nine further cycles have passed, the pipeline has
  finished without an error, one decision record per message has been posted to the host, and
  for every message the recorded latency, the quote read back from the RAM and the order-flow
  imbalance are the promised ones: the cycles it waited for the wire plus its blocks plus ten;
  the best quote of the book after the message; the saturated imbalance against the previous
  quote. The running total is their sum.
\<close>

theorem pipeline_end_to_end:
  assumes "wf_stream st" "t \<le> 2 ^ 64" "\<forall>k < is_count st. received st k + 9 < t"
  shows "\<exists>p. tick_cycles st t = Some p \<and> tick_ok st p
    \<and> dma_posted (tt_engine p) = of_nat (is_count st)
    \<and> (\<forall>k < is_count st. tt_latency p ! k = of_nat (expected_latency st k)
         \<and> ms_quote (tt_state p ! k) = expected_quote st k
         \<and> ms_ofi (tt_state p ! k) = expected_ofi st k)
    \<and> sint (tt_cumulative p) = (\<Sum>k < is_count st. sint (expected_ofi st k))"
proof -
  from tick_cycles_inv [OF wf_sized [OF assms(1)] assms(2)] wf_clear [OF assms(1)] obtain p where p: "tick_cycles st t = Some p" "tick_inv st t p"
    by blast
  from tick_inv_complete [OF wf_sized [OF assms(1)] p(2) assms(3)] p(1) show ?thesis by blast
qed

theorem pipeline_end_to_end_witness:
  "\<exists>p. tick_cycles sample_stream 21 = Some p \<and> tick_ok sample_stream p \<and> tt_latency p ! 0 = 16"
  using pipeline_end_to_end [OF sample_stream_wf, of 21]
  by (auto simp: sample_stream_facts sample_stream_received expected_latency_def)

text \<open>
  C3. Without contention the latency is a property of the message alone: when messages arrive at
  least seven cycles apart, each takes its number of blocks plus ten cycles, between 14 and 17.
\<close>

theorem pipeline_uncontended_latency:
  assumes "wf_stream st" "t \<le> 2 ^ 64" "\<forall>k < is_count st. message_arrival st k + 16 < t"
    and "\<forall>k. Suc k < is_count st \<longrightarrow> message_arrival st k + 7 \<le> message_arrival st (Suc k)"
  shows "\<exists>p. tick_cycles st t = Some p \<and> tick_ok st p
    \<and> (\<forall>k < is_count st. unat (tt_latency p ! k) = wire_blocks st k + 10
         \<and> 14 \<le> unat (tt_latency p ! k) \<and> unat (tt_latency p ! k) \<le> 17)"
proof -
  have start: "k < is_count st \<Longrightarrow> wire_start st k = message_arrival st k" for k
  proof (induction k)
    case (Suc k)
    then have k: "k < is_count st" by simp
    with Suc assms(4) wire_blocks_bounds(2) [OF assms(1) k] show ?case by fastforce
  qed simp
  have "\<forall>k < is_count st. received st k + 9 < t"
    using start assms(3) wire_blocks_bounds(2) [OF assms(1)] by (fastforce simp: received_def)
  with tick_cycles_inv [OF wf_sized [OF assms(1)] assms(2)] wf_clear [OF assms(1)] tick_inv_complete [OF wf_sized [OF assms(1)]] obtain p where
    p: "tick_cycles st t = Some p" "tick_ok st p"
    "\<And>k. k < is_count st \<Longrightarrow> tt_latency p ! k = of_nat (expected_latency st k)" by blast
  have "unat (tt_latency p ! k) = wire_blocks st k + 10" if k: "k < is_count st" for k
  proof -
    have "expected_latency st k = wire_blocks st k + 10"
      using start [OF k] by (simp add: expected_latency_def)
    moreover have "wire_blocks st k + 10 < 2 ^ 32" using wire_blocks_bounds(2) [OF assms(1) k] by simp
    ultimately show ?thesis using p(3) [OF k] unat_of_nat_u32 by (simp only:)
  qed
  with p wire_blocks_bounds [OF assms(1)] show ?thesis by (intro exI [of _ p]) fastforce
qed

theorem pipeline_uncontended_latency_witness:
  "\<exists>p. tick_cycles sample_stream 22 = Some p \<and> tick_ok sample_stream p \<and> unat (tt_latency p ! 0) = 16"
  using pipeline_uncontended_latency [OF sample_stream_wf, of 22]
  by (auto simp: sample_stream_facts sample_stream_received)

end
