(* ===== verification/Tick_Faults.thy ===== *)
theory Tick_Faults
  imports Tick_Run
begin

text \<open>
  Streams the pipeline cannot process to the end: a message that is not exactly one supported ITCH
  message fails in the parser, one the order table refuses fails in the book stage, and one whose
  share arithmetic overflows is undefined there. Which message is the first such one decides the
  run: the theory says in which cycle it stops and what has been reported by then, for the pipeline,
  for its drive loop and for every reachable state.
\<close>

subsection \<open>The first faulty message\<close>

datatype fault = Not_Parsed | Refused | Undefined

definition message_fault :: "itch_stream \<Rightarrow> nat \<Rightarrow> fault option" where
  "message_fault st n =
     (if \<not> wf_message (message_bytes st n) then Some Not_Parsed
      else (case book_after st n of
              None \<Rightarrow> None
            | Some (orders, book) \<Rightarrow>
                (case apply_event (decoded (message_bytes st n)) orders book of
                   None \<Rightarrow> Some Undefined
                 | Some (ok, _) \<Rightarrow> if ok then None else Some Refused)))"

definition first_fault :: "itch_stream \<Rightarrow> (nat \<times> fault) option" where
  "first_fault st = map_option (\<lambda>n. (n, the (message_fault st n)))
     (find (\<lambda>n. message_fault st n \<noteq> None) [0..<is_count st])"

text \<open>The cycle in which the stage concerned handles the message.\<close>

definition fault_cycle :: "itch_stream \<Rightarrow> nat \<Rightarrow> fault \<Rightarrow> nat" where
  "fault_cycle st n f = received st n + (if f = Not_Parsed then 2 else 3)"

lemma first_fault_Some:
  "first_fault st = Some (n, f) \<longleftrightarrow>
     n < is_count st \<and> message_fault st n = Some f \<and> (\<forall>k < n. message_fault st k = None)"
proof -
  have "find P [0..<m] = Some n \<longleftrightarrow> n < m \<and> P n \<and> (\<forall>k < n. \<not> P k)" for P m
    by (auto simp: find_Some_iff)
  then show ?thesis by (auto simp: first_fault_def)
qed

lemma first_fault_None: "first_fault st = None \<longleftrightarrow> (\<forall>n < is_count st. message_fault st n = None)"
  by (auto simp: first_fault_def find_None_iff)

lemma message_no_fault:
  assumes "message_fault st n = None"
  shows "wf_message (message_bytes st n)" "book_after st n \<noteq> None \<Longrightarrow> book_after st (Suc n) \<noteq> None"
  using assms by (auto simp: message_fault_def split: if_splits option.splits bind_splits)

lemma no_message_fault:
  assumes "wf_message (message_bytes st n)" "book_after st (Suc n) \<noteq> None"
  shows "message_fault st n = None"
  using assms by (auto simp: message_fault_def split: option.splits bind_splits if_splits)

lemma no_fault:
  assumes "\<forall>k < n. message_fault st k = None"
  shows "book_after st n \<noteq> None" "k < n \<Longrightarrow> wf_message (message_bytes st k)"
  using assms
proof (induction n)
  case (Suc n)
  {
    case 1
    then show ?case using Suc.IH(1) by (intro message_no_fault(2)) simp_all
  next
    case 2
    then show ?case by (intro message_no_fault(1)) simp
  }
qed simp_all

text \<open>The streams without a fault are the ones the pipeline can process.\<close>

lemma wf_stream_no_fault:
  assumes "sized_stream st"
  shows "wf_stream st \<longleftrightarrow> first_fault st = None"
proof
  assume wf: "wf_stream st"
  have "message_fault st n = None" if n: "n < is_count st" for n
  proof -
    obtain orders book where "book_after st n = Some (orders, book)"
      using wf_book_after [OF wf, of n] n by auto
    with book_after_step [OF _ this] wf_book_after [OF wf, of "Suc n"] wf_stream_message(2) [OF wf n] n
    show ?thesis by (auto simp: message_fault_def simp del: book_after.simps)
  qed
  then show "first_fault st = None" by (simp add: first_fault_None)
next
  assume "first_fault st = None"
  then have "\<forall>k < is_count st. message_fault st k = None" by (simp add: first_fault_None)
  note no_fault [OF this]
  with assms show "wf_stream st" by (simp add: wf_stream_def sized_stream_def)
qed

text \<open>Before that cycle nothing is refused.\<close>

lemma fault_clear:
  assumes sz: "sized_stream st" and f: "first_fault st = Some (n, f)" and t: "t < fault_cycle st n f"
  shows "clear_at st t"
proof -
  have n: "n < is_count st" "message_fault st n = Some f" "\<forall>k < n. message_fault st k = None"
    using f by (simp_all add: first_fault_Some)
  have later: "received st n + 2 \<le> received st k" if "n < k" "k < is_count st" for k
    by (rule received_gap [OF sz that(2,1)])
  have "wf_message (message_bytes st k)" if "occupant st 2 t = Some k" for k
  proof -
    have k: "k < is_count st" "received st k + 2 = t" using that by (simp_all add: occupant_Some [OF sz])
    show ?thesis
    proof (cases k n rule: linorder_cases)
      case less
      then show ?thesis using no_fault(2) [OF n(3)] by blast
    next
      case equal
      then have "f \<noteq> Not_Parsed" using k t by (auto simp: fault_cycle_def)
      then show ?thesis using equal n(2) by (auto simp: message_fault_def split: if_splits)
    next
      case greater
      then show ?thesis using later [OF greater k(1)] k(2) t by (auto simp: fault_cycle_def split: if_splits)
    qed
  qed
  moreover have "book_after st (Suc k) \<noteq> None" if "occupant st 3 t = Some k" for k
  proof -
    have k: "k < is_count st" "received st k + 3 = t" using that by (simp_all add: occupant_Some [OF sz])
    have "k < n"
    proof (rule ccontr)
      assume "\<not> k < n"
      then have "received st n \<le> received st k" using received_mono [OF sz k(1), of n] by simp
      with k(2) t show False by (auto simp: fault_cycle_def split: if_splits)
    qed
    then have "\<forall>j < Suc k. message_fault st j = None" using n(3) by auto
    then show ?thesis by (rule no_fault(1))
  qed
  ultimately show ?thesis by (simp add: clear_at_def del: book_after.simps)
qed

lemma fault_before_finish:
  assumes "sized_stream st" "first_fault st = Some (n, f)"
  shows "fault_cycle st n f < finish st"
proof -
  have n: "n < is_count st" using assms(2) by (simp add: first_fault_Some)
  have "received st n \<le> received st (is_count st - 1)" by (rule received_mono [OF assms(1)]) (use n in auto)
  then show ?thesis using n by (auto simp: fault_cycle_def finish_def)
qed

subsection \<open>The stage that fails\<close>

lemma parse_rejects:
  assumes "\<not> wf_message m" "length (ps_events ps) = max_events"
  shows "\<exists>n ps'. itch_parse m ps = (n, ps') \<and> (n \<noteq> 1 \<or> ps_status ps' \<noteq> Parse_Ok \<or> ps_consumed ps' \<noteq> length m)
    \<and> 0 < length (ps_events ps')"
proof -
  obtain ms t s where run: "m = concat ms @ t" "\<forall>m \<in> set ms. wf_message m" "length ms \<le> max_events"
    "stop_status (length ms) t = Some s"
    using message_run_exists [of 0 m] by auto
  have "length ms \<noteq> 1 \<or> length (concat ms) \<noteq> length m"
  proof (rule ccontr)
    assume "\<not> ?thesis"
    then obtain x where "ms = [x]" "t = []" using run(1) by (auto simp: length_Suc_conv)
    with run assms(1) show False by simp
  qed
  then show ?thesis using itch_parse_run [OF run(2-4) assms(2)] run(1,3) assms(2)
    by (simp add: max_events_def)
qed

lemma parse_stage_fault:
  assumes wf: "sized_stream st" and t: "t < 2 ^ 64" and slot: "parse_holds st t (tt_parse p)"
    and book: "sl_msg (tt_book_slot p) = None" and parser: "length (ps_events (tt_parser p)) = max_events"
    and occ: "occupant st 2 t = Some k" and bad: "\<not> wf_message (message_bytes st k)"
    and states: "states_ok st tb t t t tq to (tt_state p)"
  shows "\<exists>pr xs s b. parse_stage (of_nat t) p
      = Some (p\<lparr>tt_parser := pr, tt_state := xs, tt_parse := s, tt_book_slot := b, tt_error := True\<rparr>)
    \<and> states_ok st tb t t t tq to xs \<and> slot_holds s (occupant st 1 t) 1 t"
proof -
  have k: "k < is_count st" "received st k + 2 = t" using occ wf by (simp_all add: occupant_Some)
  have none: "occupant st 1 t = None" by (rule occupant_apart [OF wf occ]) simp_all
  have slot2: "slot_holds (tt_parse p) (Some k) 1 (t - 1)" using slot occ by (simp add: parse_holds_def)
  note busy = slot_busy [OF slot2 t diff_le_self] and at_k = states_ok_at [OF wf states k(1)]
  let ?m = "message_bytes st k" and ?s = "tt_state p ! k"
  have frame: "take (ms_frame_len ?s) (ms_frame ?s) = ?m" "ms_frame_len ?s = length ?m"
    "\<not> length (ms_frame ?s) < ms_frame_len ?s"
    using at_k(3) k(2) sized_message(1,4) [OF wf k(1)] by (simp_all add: msg_ok_def)
  obtain n pr where pr: "itch_parse ?m (tt_parser p) = (n, pr)"
    "n \<noteq> 1 \<or> ps_status pr \<noteq> Parse_Ok \<or> ps_consumed pr \<noteq> length ?m" "0 < length (ps_events pr)"
    using parse_rejects [OF bad parser] by blast
  define s where "s = (tt_parse p)\<lparr>sl_left := 0, sl_msg := None\<rparr>"
  define xs where "xs = (tt_state p)[k := ?s\<lparr>ms_event := ps_events pr ! 0\<rparr>]"
  have fin: "slot_finished (of_nat t) ((tt_parse p)\<lparr>sl_left := 0\<rparr>)"
    using busy(2,3) by (simp add: slot_finished_def slot_ready_def)
  have "parse_stage (of_nat t) p = Some (p\<lparr>tt_parser := pr, tt_state := xs, tt_parse := s,
      tt_book_slot := slot_load k (of_nat t + 1) book_cycles, tt_error := True\<rparr>)"
    using book busy(2,4) fin at_k(1) pr frame(3)
    by (simp add: parse_stage_def Let_def slot_free_def fail_if_def set_state_def frame(1)
        frame(2) [symmetric] xs_def s_def at_def)
  moreover have "states_ok st tb t t t tq to xs"
    unfolding xs_def using at_k(3) k(2)
    by (intro states_ok_update [OF states at_k(2)]) (simp_all add: msg_ok_def)
  ultimately show ?thesis using none
    by (intro exI [of _ pr] exI [of _ xs] exI [of _ s] exI [of _ "slot_load k (of_nat t + 1) book_cycles"])
      (simp add: s_def)
qed

lemma book_stage_fault:
  assumes wf: "sized_stream st" and t: "t < 2 ^ 64"
    and slot: "slot_holds (tt_book_slot p) (occupant st 3 t) 1 t" and rd: "sl_msg (tt_rd p) = None"
    and part: "book_part st t p" and occ: "occupant st 3 t = Some k"
    and fault: "message_fault st k = Some f" "f \<noteq> Not_Parsed"
    and states: "states_ok st tb tp tf t t to (tt_state p)"
  shows "if f = Undefined then book_stage st (of_nat t) p = None
    else \<exists>q o' b xs s r. book_stage st (of_nat t) p = Some (no_request\<lparr>rq_write := True, rq_address := k mod 32, rq_data := q\<rparr>,
        p\<lparr>tt_orders := o', tt_book := b, tt_state := xs, tt_book_slot := s, tt_rd := r, tt_error := True\<rparr>)
      \<and> states_ok st tb tp tf t t to xs \<and> sl_msg s = None"
proof -
  have k: "k < is_count st" "received st k + 3 = t" using occ wf by (simp_all add: occupant_Some)
  note busy = slot_busy [OF slot [unfolded occ] t order_refl] and at_k = states_ok_at [OF wf states k(1)]
  have "passed st 3 t = k" by (rule passed_occupant [OF wf occ])
  with part have book: "book_after st k = Some (tt_orders p, tt_book p)" by (simp add: book_part_def)
  let ?e = "decoded (message_bytes st k)" and ?s = "tt_state p ! k"
  have event: "ms_event ?s = ?e" using at_k(3) k(2) by (simp add: msg_ok_def)
  have work: "slot_work (of_nat t) (tt_book_slot p) = (True, (tt_book_slot p)\<lparr>sl_left := 0\<rparr>)"
    using busy(4) by simp
  have fin: "slot_finished (of_nat t) ((tt_book_slot p)\<lparr>sl_left := 0\<rparr>)"
    using busy(2,3) by (simp add: slot_finished_def slot_ready_def)
  show ?thesis
  proof (cases "apply_event ?e (tt_orders p) (tt_book p)")
    case None
    then have "f = Undefined" using fault book by (auto simp: message_fault_def split: if_splits)
    moreover have "book_stage st (of_nat t) p = None"
      using rd busy(2) at_k(1) work fin None
      by (simp add: book_stage_def Let_def slot_free_def apply_to_book_def event)
    ultimately show ?thesis by simp
  next
    case (Some res)
    then obtain o' b where step: "apply_event ?e (tt_orders p) (tt_book p) = Some (False, o', b)" "f \<noteq> Undefined"
      using fault book by (cases res) (auto simp: message_fault_def split: if_splits)
    define q where "q = quote_of (is_empty_ask st) b"
    define xs where "xs = (tt_state p)[k := ?s\<lparr>ms_quote := q\<rparr>]"
    have "book_stage st (of_nat t) p = Some (no_request\<lparr>rq_write := True, rq_address := k mod 32, rq_data := q\<rparr>,
        p\<lparr>tt_orders := o', tt_book := b, tt_state := xs, tt_book_slot := (tt_book_slot p)\<lparr>sl_left := 0, sl_msg := None\<rparr>,
          tt_rd := slot_load k (of_nat t + 1) 1, tt_error := True\<rparr>)"
      using rd busy(2) at_k(1,2) work fin step(1)
      by (simp add: book_stage_def Let_def slot_free_def apply_to_book_def event fail_if_def
          set_state_def at_def xs_def q_def)
    moreover have "states_ok st tb tp tf t t to xs"
      unfolding xs_def using at_k(3) k(2)
      by (intro states_ok_update [OF states at_k(2)]) (simp_all add: msg_ok_def)
    ultimately show ?thesis using step(2) by (auto intro!: exI)
  qed
qed

subsection \<open>The cycle that fails\<close>

text \<open>What a run that failed in cycle \<open>c\<close> has left: the decisions due by then, and the results of
  the stages up to the falling edge before.\<close>

definition halted :: "itch_stream \<Rightarrow> nat \<Rightarrow> tick_pipeline \<Rightarrow> bool" where
  "halted st c p \<longleftrightarrow> tt_error p \<and> dma_part st (Suc c) p \<and> tt_next p = started st (Suc c)
     \<and> tt_cumulative p = word_of_int (ofi_total st (passed st 7 c)) \<and> tt_last_ofi p = last_ofi st (passed st 7 c)
     \<and> states_ok st (Suc c) (Suc c) (Suc c) c c c (tt_state p)"

lemma states_ok_earlier:
  assumes "states_ok st tb tp tf te tq to xs" "te' \<le> te" "tq' \<le> tq"
  shows "states_ok st tb tp tf te' tq' to xs"
  using assms by (auto simp: states_ok_def msg_ok_def)

lemma ram_write_defined:
  assumes "ram_part st t m" "i < 32"
  shows "bram_posedge_debug (no_request\<lparr>rq_write := True, rq_address := i, rq_data := q\<rparr>) no_request m
    = Some (bram_posedge (no_request\<lparr>rq_write := True, rq_address := i, rq_data := q\<rparr>) no_request m)"
  using assms by (simp add: bram_posedge_debug_def bram_asserts_def same_cycle_collision_def ram_part_def no_request_def)

text \<open>The edge once a stage has failed: the stages before it still run.\<close>

lemma halted_cycle:
  assumes wf: "sized_stream st" and t: "t < 2 ^ 64" and inv: "tick_inv st t p" and front: "front_done st t p p3"
    and p5: "tt_error p5" "slot_holds (tt_parse p5) (occupant st 1 t) 1 t"
      "states_ok st t t t te tq t (tt_state p5)" "t \<le> te" "t \<le> tq"
    and same: "\<exists>o' b xs bs rd pr ps. p5 = p3\<lparr>tt_orders := o', tt_book := b, tt_state := xs, tt_book_slot := bs, tt_rd := rd,
      tt_parser := pr, tt_parse := ps, tt_error := True\<rparr>"
    and ram: "bram_posedge_debug a b (tt_bram p) = Some m"
  shows "\<exists>p7. tick_back st (of_nat t) p5 = Some p7 \<and> ram_posedge a b p7 = Some (p7\<lparr>tt_bram := m\<rparr>)
    \<and> halted st t (p7\<lparr>tt_bram := m\<rparr>)"
proof -
  obtain o' b' xs bs rd pr ps where p5_def: "p5 = p3\<lparr>tt_orders := o', tt_book := b', tt_state := xs,
      tt_book_slot := bs, tt_rd := rd, tt_parser := pr, tt_parse := ps, tt_error := True\<rparr>"
    using same by blast
  obtain p7 where rear: "tick_back st (of_nat t) p5 = Some p7" "back_done st t te tq t p5 p7"
    using tick_back_step [OF wf t _ p5(2) _ _ p5(3)] inv front
    by (auto simp: tick_inv_def mac_ready_def front_done_def p5_def)
  have "tt_bram p7 = tt_bram p" using front rear(2) by (simp add: front_done_def back_done_def p5_def)
  moreover have "halted st t (p7\<lparr>tt_bram := m\<rparr>)"
    using front rear(2) inv p5(4,5) states_ok_earlier [of st "Suc t" "Suc t" "Suc t" te tq t "tt_state p7" t t]
    by (simp add: halted_def back_done_def front_done_def dma_part_def tick_inv_def p5_def)
  ultimately show ?thesis using rear(1) ram by (simp add: ram_posedge_def)
qed

lemma tick_cycle_halted:
  assumes "\<not> tt_error p" "tick_front st c p = Some (b, p3)" "book_stage st c p3 = Some (a, p4)"
    and "parse_stage c p4 = Some p5" "tick_back st c p5 = Some p7" "ram_posedge a b p7 = Some p8" "tt_error p8"
  shows "tick_cycle st c p = Some p8"
  using assms by (simp add: tick_cycle_def tick_posedge_parts tick_negedge_def)

lemma tick_cycle_parse_fault:
  assumes wf: "sized_stream st" and t: "t < 2 ^ 64" and inv: "tick_inv st t p"
    and occ: "occupant st 2 t = Some k" and bad: "\<not> wf_message (message_bytes st k)"
  shows "\<exists>p'. tick_cycle st (of_nat t) p = Some p' \<and> halted st t p'"
proof -
  have err: "\<not> tt_error p" using inv by (simp add: tick_inv_def)
  have none: "occupant st 3 t = None" by (rule occupant_apart [OF wf occ]) simp_all
  obtain p3 where front: "tick_front st (of_nat t) p = Some (read_request (occupant st 4 t), p3)" "front_done st t p p3"
    using tick_front_step [OF wf t inv] by blast
  obtain od b xs bs rd where book: "book_stage st (of_nat t) p3 = Some (write_request st None,
      p3\<lparr>tt_orders := od, tt_book := b, tt_state := xs, tt_book_slot := bs, tt_rd := rd\<rparr>)"
    "states_ok st t t t t (Suc t) t xs" "sl_msg bs = None"
    using book_stage_step [OF wf t, of p3 t t t t] inv front(2) none
    by (auto simp: tick_inv_def book_part_def front_done_def simp del: book_after.simps)
  define p4 where "p4 = p3\<lparr>tt_orders := od, tt_book := b, tt_state := xs, tt_book_slot := bs, tt_rd := rd\<rparr>"
  obtain pr ys ps bs' where parse: "parse_stage (of_nat t) p4
      = Some (p4\<lparr>tt_parser := pr, tt_state := ys, tt_parse := ps, tt_book_slot := bs', tt_error := True\<rparr>)"
    "states_ok st t t t t (Suc t) t ys" "slot_holds ps (occupant st 1 t) 1 t"
    using parse_stage_fault [OF wf t _ _ _ occ bad, of p4 t "Suc t" t] inv front(2) book(2,3)
    by (auto simp: tick_inv_def front_done_def p4_def)
  define p5 where "p5 = p4\<lparr>tt_parser := pr, tt_state := ys, tt_parse := ps, tt_book_slot := bs', tt_error := True\<rparr>"
  have "ram_part st t (tt_bram p)" using inv by (simp add: tick_inv_def)
  note ram = ram_step(1) [OF wf this refl refl, unfolded none]
  have same: "\<exists>o' b xs bs rd pr ps. p5 = p3\<lparr>tt_orders := o', tt_book := b, tt_state := xs, tt_book_slot := bs,
      tt_rd := rd, tt_parser := pr, tt_parse := ps, tt_error := True\<rparr>"
    by (intro exI [of _ od] exI [of _ b] exI [of _ ys] exI [of _ bs'] exI [of _ rd] exI [of _ pr] exI [of _ ps])
      (simp add: p5_def p4_def)
  obtain p7 where p7: "tick_back st (of_nat t) p5 = Some p7"
    "ram_posedge (write_request st None) (read_request (occupant st 4 t)) p7 = Some (p7\<lparr>tt_bram :=
       bram_posedge (write_request st None) (read_request (occupant st 4 t)) (tt_bram p)\<rparr>)"
    "halted st t (p7\<lparr>tt_bram := bram_posedge (write_request st None) (read_request (occupant st 4 t)) (tt_bram p)\<rparr>)"
    using halted_cycle [OF wf t inv front(2) _ _ _ _ _ same ram, of t "Suc t"] parse(2,3) by (auto simp: p5_def)
  then show ?thesis
    using tick_cycle_halted [OF err front(1) book(1) _ p7(1,2)] parse(1)
    by (auto simp: halted_def p4_def p5_def)
qed

lemma tick_cycle_book_fault:
  assumes wf: "sized_stream st" and t: "t < 2 ^ 64" and inv: "tick_inv st t p"
    and occ: "occupant st 3 t = Some k" and fault: "message_fault st k = Some f" "f \<noteq> Not_Parsed"
  shows "if f = Undefined then tick_cycle st (of_nat t) p = None
    else \<exists>p'. tick_cycle st (of_nat t) p = Some p' \<and> halted st t p'"
proof -
  have err: "\<not> tt_error p" using inv by (simp add: tick_inv_def)
  have none: "occupant st 2 t = None" "occupant st 4 t = None" by (rule occupant_apart [OF wf occ]; simp)+
  obtain p3 where front: "tick_front st (of_nat t) p = Some (no_request, p3)" "front_done st t p p3"
    using tick_front_step [OF wf t inv] none(2) by (auto simp: read_request_def)
  have book: "if f = Undefined then book_stage st (of_nat t) p3 = None
    else \<exists>q o' b xs s r. book_stage st (of_nat t) p3 = Some (no_request\<lparr>rq_write := True, rq_address := k mod 32, rq_data := q\<rparr>,
        p3\<lparr>tt_orders := o', tt_book := b, tt_state := xs, tt_book_slot := s, tt_rd := r, tt_error := True\<rparr>)
      \<and> states_ok st t t t t t t xs \<and> sl_msg s = None"
    using inv front(2) by (intro book_stage_fault [OF wf t _ _ _ occ fault]) (auto simp: tick_inv_def front_done_def book_part_def)
  show ?thesis
  proof (cases "f = Undefined")
    case True
    then show ?thesis using front(1) book by (simp add: tick_cycle_def tick_posedge_parts [OF err])
  next
    case False
    obtain q od b xs s r where bk: "book_stage st (of_nat t) p3
        = Some (no_request\<lparr>rq_write := True, rq_address := k mod 32, rq_data := q\<rparr>,
          p3\<lparr>tt_orders := od, tt_book := b, tt_state := xs, tt_book_slot := s, tt_rd := r, tt_error := True\<rparr>)"
      "states_ok st t t t t t t xs" "sl_msg s = None"
      using book False by auto
    define p4 where "p4 = p3\<lparr>tt_orders := od, tt_book := b, tt_state := xs, tt_book_slot := s, tt_rd := r, tt_error := True\<rparr>"
    obtain pr ys ps bs where parse: "parse_stage (of_nat t) p4
        = Some (p4\<lparr>tt_parser := pr, tt_state := ys, tt_parse := ps, tt_book_slot := bs\<rparr>)"
      "states_ok st t t t (Suc t) t t ys" "slot_holds ps (occupant st 1 t) 1 t"
      using parse_stage_step [OF wf t, of p4 t t t] inv front(2) bk(2,3) none(1)
      by (auto simp: tick_inv_def front_done_def p4_def)
    define p5 where "p5 = p4\<lparr>tt_parser := pr, tt_state := ys, tt_parse := ps, tt_book_slot := bs\<rparr>"
    have "ram_part st t (tt_bram p)" using inv by (simp add: tick_inv_def)
    note ram = ram_write_defined [OF this, of "k mod 32" q, simplified]
    have same: "\<exists>o' b xs bs rd pr ps. p5 = p3\<lparr>tt_orders := o', tt_book := b, tt_state := xs, tt_book_slot := bs,
        tt_rd := rd, tt_parser := pr, tt_parse := ps, tt_error := True\<rparr>"
      by (intro exI [of _ od] exI [of _ b] exI [of _ ys] exI [of _ bs] exI [of _ r] exI [of _ pr] exI [of _ ps])
        (simp add: p5_def p4_def)
    obtain p7 m where p7: "tick_back st (of_nat t) p5 = Some p7"
      "ram_posedge (no_request\<lparr>rq_write := True, rq_address := k mod 32, rq_data := q\<rparr>) no_request p7
        = Some (p7\<lparr>tt_bram := m\<rparr>)" "halted st t (p7\<lparr>tt_bram := m\<rparr>)"
      using halted_cycle [OF wf t inv front(2) _ _ _ _ _ same ram, of "Suc t" t] parse(2,3)
      by (auto simp: p5_def p4_def)
    then show ?thesis
      using tick_cycle_halted [OF err front(1) bk(1) _ p7(1,2)] parse(1) False
      by (auto simp: halted_def p4_def p5_def)
  qed
qed

text \<open>Together: the cycle of the first fault.\<close>

lemma tick_cycle_fault:
  assumes sz: "sized_stream st" and f: "first_fault st = Some (n, f)" and c: "c = fault_cycle st n f" "c < 2 ^ 64"
    and inv: "tick_inv st c p"
  shows "if f = Undefined then tick_cycle st (of_nat c) p = None
    else \<exists>p'. tick_cycle st (of_nat c) p = Some p' \<and> halted st c p'"
proof -
  have n: "n < is_count st" "message_fault st n = Some f" using f by (simp_all add: first_fault_Some)
  show ?thesis
  proof (cases "f = Not_Parsed")
    case True
    then have "\<not> wf_message (message_bytes st n)"
      using n(2) by (auto simp: message_fault_def split: if_splits option.splits)
    moreover have "occupant st 2 c = Some n" using True n(1) c(1) by (simp add: occupant_Some [OF sz] fault_cycle_def)
    ultimately show ?thesis using tick_cycle_parse_fault [OF sz c(2) inv] True by simp
  next
    case False
    then have "occupant st 3 c = Some n" using n(1) c(1) by (simp add: occupant_Some [OF sz] fault_cycle_def)
    from tick_cycle_book_fault [OF sz c(2) inv this n(2) False] show ?thesis .
  qed
qed

text \<open>After a failure a cycle changes nothing but the RAM's pending request and the OFI pipeline.\<close>

lemma tick_cycle_error:
  assumes "tt_error p"
  shows "\<exists>ram dsp. tick_cycle st c p = Some (p\<lparr>tt_bram := ram, tt_ofi := dsp\<rparr>)"
proof -
  have "bram_asserts no_request no_request (tt_bram p)"
    by (simp add: bram_asserts_def same_cycle_collision_def no_request_def)
  with assms have "tick_cycle st c p = Some (p\<lparr>tt_bram := bram_posedge no_request no_request (tt_bram p),
      tt_ofi := ofi_posedge_idle (tt_ofi p)\<rparr>)"
    by (simp add: tick_cycle_def tick_posedge_def tick_negedge_def ram_posedge_def bram_posedge_debug_def)
  then show ?thesis by blast
qed

lemma halted_frame: "halted st c (p\<lparr>tt_bram := ram, tt_ofi := dsp\<rparr>) = halted st c p"
  by (simp add: halted_def dma_part_def)

subsection \<open>Reachable states\<close>

text \<open>The states of a run and the number of cycles it has taken; the cycle counter has 64 bits.\<close>

inductive tick_reach :: "itch_stream \<Rightarrow> nat \<Rightarrow> tick_pipeline \<Rightarrow> bool" for st where
  start: "tick_reach st 0 (tick_new st)"
| cycle: "tick_reach st t p \<Longrightarrow> t < 2 ^ 64 \<Longrightarrow> tick_cycle st (of_nat t) p = Some p' \<Longrightarrow> tick_reach st (Suc t) p'"

inductive_simps tick_reach_0: "tick_reach st 0 p"
inductive_simps tick_reach_Suc: "tick_reach st (Suc t) p"

lemma tick_reach_cycles: "t \<le> 2 ^ 64 \<Longrightarrow> tick_reach st t p \<longleftrightarrow> tick_cycles st t = Some p"
  by (induction t arbitrary: p) (auto simp: tick_reach_0 tick_reach_Suc bind_eq_Some_conv)

text \<open>What every one of them satisfies.\<close>

definition run_state :: "itch_stream \<Rightarrow> nat \<Rightarrow> tick_pipeline \<Rightarrow> bool" where
  "run_state st t p \<longleftrightarrow> (case first_fault st of
       None \<Rightarrow> tick_inv st t p
     | Some (n, f) \<Rightarrow> if t \<le> fault_cycle st n f then tick_inv st t p
         else f \<noteq> Undefined \<and> halted st (fault_cycle st n f) p)"

lemma run_state_step:
  assumes sz: "sized_stream st" and t: "t < 2 ^ 64" and run: "run_state st t p"
  shows "case tick_cycle st (of_nat t) p of
      Some p' \<Rightarrow> run_state st (Suc t) p'
    | None \<Rightarrow> \<exists>n. first_fault st = Some (n, Undefined) \<and> fault_cycle st n Undefined = t"
proof (cases "first_fault st")
  case None
  then have "clear_at st t" using wf_stream_no_fault [OF sz] by (intro wf_clear) simp
  moreover have "tick_inv st t p" using run None by (simp add: run_state_def)
  ultimately obtain p' where "tick_cycle st (of_nat t) p = Some p'" "tick_inv st (Suc t) p'"
    using tick_cycle_step [OF sz t] by blast
  then show ?thesis using None by (simp add: run_state_def)
next
  case (Some nf)
  obtain n f where f: "first_fault st = Some (n, f)" using Some by (cases nf) auto
  define c where "c = fault_cycle st n f"
  show ?thesis
  proof (cases t c rule: linorder_cases)
    case less
    then have "tick_inv st t p" "clear_at st t"
      using run f fault_clear [OF sz f] by (simp_all add: run_state_def c_def)
    then obtain p' where "tick_cycle st (of_nat t) p = Some p'" "tick_inv st (Suc t) p'"
      using tick_cycle_step [OF sz t] by blast
    then show ?thesis using less f by (simp add: run_state_def flip: c_def)
  next
    case equal
    then have "tick_inv st c p" using run f by (simp add: run_state_def c_def)
    from tick_cycle_fault [OF sz f c_def t [unfolded equal] this] equal f show ?thesis
      by (auto simp: run_state_def c_def split: if_splits)
  next
    case greater
    then have h: "f \<noteq> Undefined" "halted st c p" using run f by (simp_all add: run_state_def c_def)
    then obtain ram dsp where "tick_cycle st (of_nat t) p = Some (p\<lparr>tt_bram := ram, tt_ofi := dsp\<rparr>)"
      using tick_cycle_error [of p st "of_nat t"] by (auto simp: halted_def)
    with h greater f show ?thesis by (simp add: run_state_def halted_frame flip: c_def)
  qed
qed

lemma tick_reach_state: "tick_reach st t p \<Longrightarrow> sized_stream st \<Longrightarrow> run_state st t p"
proof (induction rule: tick_reach.induct)
  case start
  then show ?case using tick_new_inv [of st] by (simp add: run_state_def split: option.split prod.split)
next
  case (cycle t p p')
  then show ?case using run_state_step [of st t p] by simp
qed

text \<open>The cycles that count: up to the one that fails.\<close>

definition active_cycles :: "itch_stream \<Rightarrow> nat \<Rightarrow> nat" where
  "active_cycles st t = (case first_fault st of None \<Rightarrow> t | Some (n, f) \<Rightarrow> if t \<le> fault_cycle st n f then t else Suc (fault_cycle st n f))"

lemma tick_inv_reports:
  assumes "sized_stream st" "tick_inv st t p"
  shows "\<not> tt_error p" "tt_completed p = passed st 9 t" "dma_posted (tt_engine p) = of_nat (passed st 9 t)"
    "tt_next p = started st t"
    "k < passed st 9 t \<Longrightarrow> tt_latency p ! k = of_nat (expected_latency st k)
       \<and> ms_quote (tt_state p ! k) = expected_quote st k \<and> ms_ofi (tt_state p ! k) = expected_ofi st k"
  using assms(2) passed_less [OF assms(1), of k 9 t]
  by (auto simp: tick_inv_def dma_part_def states_ok_def msg_ok_def)

lemma tick_inv_rings:
  assumes "sized_stream st" "tick_inv st t p"
  shows "length (rb_contents (tt_dma_q p)) \<le> 1 \<and> length (rb_contents (tt_ofi_ring p)) \<le> 1
    \<and> rb_contents (tt_bram_ring p) = [] \<and> dma_contents (tt_engine p) = []"
proof -
  have "occupant st 6 t = None" if "occupant st 7 t = Some k" for k
    by (rule occupant_apart [OF assms(1) that]) simp_all
  then have "length (opt_list (occupant st 7 t) @ opt_list (occupant st 6 t)) \<le> 1"
    by (cases "occupant st 7 t"; cases "occupant st 6 t") auto
  moreover have "length (opt_list (occupant st 8 t)) \<le> 1" by (cases "occupant st 8 t") auto
  ultimately show ?thesis using assms(2) by (simp add: tick_inv_def dma_part_def ring_holds_def)
qed

lemma halted_reports:
  assumes "sized_stream st" "halted st c p"
  shows "tt_error p" "tt_completed p = passed st 9 (Suc c)" "dma_posted (tt_engine p) = of_nat (passed st 9 (Suc c))"
    "tt_next p = started st (Suc c)"
    "k < passed st 9 (Suc c) \<Longrightarrow> tt_latency p ! k = of_nat (expected_latency st k)
       \<and> ms_quote (tt_state p ! k) = expected_quote st k \<and> ms_ofi (tt_state p ! k) = expected_ofi st k"
  using assms(2) passed_less [OF assms(1), of k 9 "Suc c"]
  by (auto simp: halted_def dma_part_def states_ok_def msg_ok_def)

lemma run_state_reports:
  assumes "sized_stream st" "run_state st t p"
  shows "tt_error p \<longleftrightarrow> (\<exists>n f. first_fault st = Some (n, f) \<and> fault_cycle st n f < t)"
    "tt_completed p = passed st 9 (active_cycles st t)"
    "dma_posted (tt_engine p) = of_nat (passed st 9 (active_cycles st t))"
    "tt_next p = started st (active_cycles st t)"
    "k < passed st 9 (active_cycles st t) \<Longrightarrow> tt_latency p ! k = of_nat (expected_latency st k)
       \<and> ms_quote (tt_state p ! k) = expected_quote st k \<and> ms_ofi (tt_state p ! k) = expected_ofi st k"
  using assms(2) tick_inv_reports [OF assms(1), of t p] halted_reports [OF assms(1), of _ p]
  by (auto simp: run_state_def active_cycles_def split: option.splits if_splits)

subsection \<open>The drive loop on any stream\<close>

text \<open>When a run is over: after the last decision or after the cycle that fails.\<close>

definition stop_cycle :: "itch_stream \<Rightarrow> nat" where
  "stop_cycle st = (case first_fault st of None \<Rightarrow> finish st | Some (n, f) \<Rightarrow> Suc (fault_cycle st n f))"

definition undefined_fault :: "itch_stream \<Rightarrow> bool" where
  "undefined_fault st \<longleftrightarrow> (case first_fault st of None \<Rightarrow> False | Some (n, f) \<Rightarrow> f = Undefined)"

lemma clear_before_stop:
  assumes "sized_stream st" "n < stop_cycle st \<or> first_fault st = None" "t < n"
  shows "clear_at st t"
proof (cases "first_fault st")
  case None
  then show ?thesis using wf_stream_no_fault [OF assms(1)] by (intro wf_clear) simp
next
  case (Some nf)
  then show ?thesis using assms by (cases nf) (auto simp: stop_cycle_def intro: fault_clear)
qed

lemma stop_before_finish: "sized_stream st \<Longrightarrow> stop_cycle st \<le> finish st"
  using fault_before_finish [of st] by (auto simp: stop_cycle_def Suc_le_eq split: option.split)

lemma drive_fault:
  assumes sz: "sized_stream st" and f: "first_fault st = Some (n, f)" and c: "c = fault_cycle st n f" "c < unat limit"
  shows "if f = Undefined then drive st limit (replay_engine st) (tick_new st) = None
    else \<exists>e p. drive st limit (replay_engine st) (tick_new st) = Some (e, p) \<and> unat (en_cycle e) = Suc c
      \<and> tick_cycles st (Suc c) = Some p \<and> halted st c p"
proof -
  have c64: "c < 2 ^ 64" using c(2) unat_u64_less [of limit] by simp
  have "c \<le> min (unat limit) (finish st)" using c fault_before_finish [OF sz f] by simp
  moreover have "\<forall>t < c. clear_at st t" using fault_clear [OF sz f] c(1) by simp
  ultimately obtain p where p: "drive st limit (replay_engine st) (tick_new st)
      = drive st limit ((replay_engine st)\<lparr>en_cycle := of_nat c\<rparr>) p" "tick_cycles st c = Some p" "tick_inv st c p"
    using drive_start [OF sz] by blast
  have "\<not> tick_done st p" using tick_inv_done [OF sz p(3)] fault_before_finish [OF sz f] c(1) by simp
  moreover have "(of_nat c :: u64) < limit" using c(2) c64 by (simp add: word_less_nat_alt unat_of_nat)
  ultimately have step: "drive st limit (replay_engine st) (tick_new st)
      = (case tick_cycle st (of_nat c) p of None \<Rightarrow> None
         | Some p' \<Rightarrow> drive st limit ((replay_engine st)\<lparr>en_cycle := of_nat (Suc c)\<rparr>) p')"
    unfolding p(1) by (subst drive.simps) (simp add: replay_engine_step add.commute split: option.split)
  note fault = tick_cycle_fault [OF sz f c(1) c64 p(3)]
  show ?thesis
  proof (cases "f = Undefined")
    case False
    then obtain p' where p': "tick_cycle st (of_nat c) p = Some p'" "halted st c p'" using fault by auto
    then have "tick_done st p' \<or> unat limit \<le> Suc c" "Suc c \<le> unat limit"
      using c(2) by (simp_all add: halted_def tick_done_def)
    note stop = drive_stops [OF this]
    show ?thesis using False step p' stop p(2)
      by (intro if_not_P [THEN iffD2]) (auto intro!: exI [of _ "(replay_engine st)\<lparr>en_cycle := of_nat (Suc c)\<rparr>"])
  qed (use step fault in simp)
qed

lemma drive_outcome:
  assumes sz: "sized_stream st"
  shows "if undefined_fault st \<and> stop_cycle st \<le> unat limit then drive st limit (replay_engine st) (tick_new st) = None
    else \<exists>e p. drive st limit (replay_engine st) (tick_new st) = Some (e, p)
      \<and> unat (en_cycle e) = min (unat limit) (stop_cycle st)
      \<and> tick_cycles st (unat (en_cycle e)) = Some p \<and> run_state st (unat (en_cycle e)) p"
proof (cases "first_fault st = None \<or> unat limit < stop_cycle st")
  case True
  define n where "n = min (unat limit) (finish st)"
  have n: "n = min (unat limit) (stop_cycle st)"
    using True stop_before_finish [OF sz] by (auto simp: n_def stop_cycle_def)
  have "\<forall>t < n. clear_at st t"
    using True clear_before_stop [OF sz, of n] by (auto simp: n)
  from drive_ends [OF sz n_def this] obtain e p where
    "drive st limit (replay_engine st) (tick_new st) = Some (e, p)" "unat (en_cycle e) = n"
    "tick_cycles st n = Some p" "tick_inv st n p" by blast
  moreover have "run_state st n p"
    using True n \<open>tick_inv st n p\<close> by (auto simp: run_state_def stop_cycle_def split: option.split)
  ultimately show ?thesis using True n by (auto simp: undefined_fault_def)
next
  case False
  then obtain k f where f: "first_fault st = Some (k, f)" "fault_cycle st k f < unat limit"
    by (auto simp: stop_cycle_def)
  define c where "c = fault_cycle st k f"
  have stop: "stop_cycle st = Suc c" "min (unat limit) (stop_cycle st) = Suc c" "undefined_fault st = (f = Undefined)"
    using f by (simp_all add: stop_cycle_def undefined_fault_def c_def)
  show ?thesis
  proof (cases "f = Undefined")
    case False
    then obtain e p where "drive st limit (replay_engine st) (tick_new st) = Some (e, p)" "unat (en_cycle e) = Suc c"
      "tick_cycles st (Suc c) = Some p" "halted st c p"
      using drive_fault [OF sz f(1) c_def, of limit] f(2) unfolding c_def [symmetric]
      by (simp del: tick_cycles.simps) blast
    moreover from this(4) have "run_state st (Suc c) p" using False f(1) by (simp add: run_state_def flip: c_def)
    ultimately show ?thesis using False stop by (auto simp del: tick_cycles.simps)
  qed (use drive_fault [OF sz f(1) refl f(2)] stop f(2) in \<open>simp add: c_def\<close>)
qed

lemma run_state_ok:
  assumes sz: "sized_stream st" and run: "run_state st t p"
  shows "tick_ok st p \<longleftrightarrow> first_fault st = None \<and> finish st \<le> t"
proof (cases "first_fault st")
  case None
  then show ?thesis using run tick_inv_done [OF sz, of t p] by (simp add: run_state_def)
next
  case (Some nf)
  then obtain n f where f: "first_fault st = Some (n, f)" by (cases nf) auto
  show ?thesis
  proof (cases "t \<le> fault_cycle st n f")
    case True
    then show ?thesis using run f tick_inv_done [OF sz, of t p] fault_before_finish [OF sz f] by (simp add: run_state_def)
  qed (use run f in \<open>simp add: run_state_def halted_def tick_ok_def\<close>)
qed

subsection \<open>Faulty streams of one message\<close>

text \<open>Four bytes that are no message, and a Delete Order for an order the table does not know.\<close>

definition noise_stream :: itch_stream where
  "noise_stream = single_stream [0, 0, 0, 0] 5"

definition delete_message :: "u8 list" where
  "delete_message = itch_message (replicate 10 0) (event_empty\<lparr>ev_type := Delete_Order, order_reference := 7\<rparr>) []"

definition orphan_stream :: itch_stream where
  "orphan_stream = single_stream delete_message 5"

lemma noise_stream_faulty:
  "sized_stream noise_stream" "first_fault noise_stream = Some (0, Not_Parsed)"
  "fault_cycle noise_stream 0 Not_Parsed = 9"
proof -
  note facts = single_stream_facts [of "[0, 0, 0, 0]" 5, folded noise_stream_def, simplified]
  show "sized_stream noise_stream"
    by (rule replay_sized) (simp_all add: facts)
  have "\<not> wf_message [0, 0, 0, 0]" by (simp add: wf_message_def length_for_def)
  then show "first_fault noise_stream = Some (0, Not_Parsed)"
    by (simp add: first_fault_Some message_fault_def facts)
  show "fault_cycle noise_stream 0 Not_Parsed = 9"
    by (simp add: fault_cycle_def received_def wire_blocks_def facts encoded_count_def bytes_per_block_def)
qed

lemma delete_message_wf:
  "wf_message delete_message" "length delete_message = 19"
  "decoded delete_message = event_empty\<lparr>ev_type := Delete_Order, order_reference := 7\<rparr>"
proof -
  have c: "carried (event_empty\<lparr>ev_type := Delete_Order, order_reference := 7\<rparr>)"
    "tail_length (ev_type (event_empty\<lparr>ev_type := Delete_Order, order_reference := 7\<rparr>)) = 0"
    by (simp_all add: carried_def event_empty_def)
  show wf: "wf_message delete_message"
    and "decoded delete_message = event_empty\<lparr>ev_type := Delete_Order, order_reference := 7\<rparr>"
    unfolding delete_message_def using c by (auto intro: message_wf message_decoded)
  then show "length delete_message = 19"
    by (simp add: wf_message_def delete_message_def itch_message_def length_for_def)
qed

lemma orphan_stream_message: "is_count orphan_stream = 1" "message_bytes orphan_stream 0 = delete_message"
proof -
  have m: "delete_message \<noteq> []" "length delete_message \<le> 40" using delete_message_wf(2) by auto
  show "is_count orphan_stream = 1" "message_bytes orphan_stream 0 = delete_message"
    using single_stream_facts [OF m, of 5] by (simp_all add: orphan_stream_def)
qed

lemma orphan_stream_faulty:
  "sized_stream orphan_stream" "first_fault orphan_stream = Some (0, Refused)"
  "fault_cycle orphan_stream 0 Refused = 12"
proof -
  have m: "delete_message \<noteq> []" "length delete_message \<le> 40" using delete_message_wf(2) by auto
  note facts = single_stream_facts [OF m, of 5, folded orphan_stream_def]
  show "sized_stream orphan_stream"
    by (rule replay_sized) (simp_all add: facts delete_message_wf(2))
  show "first_fault orphan_stream = Some (0, Refused)"
    by (simp add: first_fault_Some message_fault_def facts delete_message_wf apply_event_def apply_reduce_def
        table_new_def entry_empty_def event_empty_def Let_def)
  show "fault_cycle orphan_stream 0 Refused = 12"
    by (simp add: fault_cycle_def received_def wire_blocks_def facts delete_message_wf(2) encoded_count_def
        bytes_per_block_def)
qed

subsection \<open>Properties\<close>

text \<open>
  C4. The drive loop on any stream of messages of 4 to 40 bytes, whatever they contain, and any cycle
  limit. It stops at the limit or when the run is over, whichever is first; the run is over with the
  last decision or with the cycle in which the first faulty message fails. It counts as successful
  exactly when there is no faulty message and the limit was large enough, and stops with an error
  exactly when the faulty message fails before the limit; a message whose share arithmetic
  overflows, reached before the limit, is undefined. So a limit that is too small for a burst of
  messages is reported as a failed run although no stage failed.
\<close>

theorem drive_loop_result:
  assumes "sized_stream st"
  shows "if undefined_fault st \<and> stop_cycle st \<le> unat limit then drive st limit (replay_engine st) (tick_new st) = None
    else \<exists>e p. drive st limit (replay_engine st) (tick_new st) = Some (e, p)
      \<and> unat (en_cycle e) = min (unat limit) (stop_cycle st) \<and> tick_cycles st (unat (en_cycle e)) = Some p
      \<and> (tt_error p \<longleftrightarrow> first_fault st \<noteq> None \<and> stop_cycle st \<le> unat limit)
      \<and> (tick_ok st p \<longleftrightarrow> first_fault st = None \<and> stop_cycle st \<le> unat limit)"
proof -
  have "(tt_error p \<longleftrightarrow> first_fault st \<noteq> None \<and> stop_cycle st \<le> unat limit)
      \<and> (tick_ok st p \<longleftrightarrow> first_fault st = None \<and> stop_cycle st \<le> unat limit)"
    if "run_state st (min (unat limit) (stop_cycle st)) p" for p
    using run_state_reports(1) [OF assms that] run_state_ok [OF assms that]
    by (auto simp: stop_cycle_def Suc_le_eq split: option.splits)
  then show ?thesis using drive_outcome [OF assms, of limit] by (auto simp del: tick_cycles.simps)
qed

theorem drive_loop_result_witness:
  "\<exists>e p. drive orphan_stream 100000 (replay_engine orphan_stream) (tick_new orphan_stream) = Some (e, p)
    \<and> unat (en_cycle e) = 13 \<and> tt_error p \<and> \<not> tick_ok orphan_stream p"
  using drive_loop_result [OF orphan_stream_faulty(1), of 100000]
  by (auto simp: undefined_fault_def stop_cycle_def orphan_stream_faulty simp del: tick_cycles.simps)

text \<open>
  C2. Every reachable state of the pipeline, on any stream of messages of 4 to 40 bytes: no cycle is
  undefined (no array is read out of range, no signed addition overflows, no assertion of the RAM
  fails) except the one in which a message with overflowing share arithmetic reaches the book; the
  error flag is set exactly after the cycle in which the first faulty message fails, so no ring
  overflows and at most one message waits in each; and the decisions posted are exactly those due
  nine cycles after reception, up to that cycle, each with the promised latency, quote and imbalance.
  After a failure nothing is picked up, posted or changed.
\<close>

theorem pipeline_reachable:
  assumes "sized_stream st" "tick_reach st t p"
  shows "let stop = active_cycles st t in
    (tt_error p \<longleftrightarrow> (\<exists>n f. first_fault st = Some (n, f) \<and> fault_cycle st n f < t))
    \<and> (t < 2 ^ 64 \<longrightarrow> (\<exists>p'. tick_reach st (Suc t) p')
         \<or> (\<exists>n. first_fault st = Some (n, Undefined) \<and> fault_cycle st n Undefined = t))
    \<and> tt_completed p = card {k. k < is_count st \<and> received st k + 9 < stop}
    \<and> dma_posted (tt_engine p) = of_nat (tt_completed p)
    \<and> tt_next p = card {k. k < is_count st \<and> wire_start st k < stop}
    \<and> (\<forall>k < tt_completed p. tt_latency p ! k = of_nat (expected_latency st k)
         \<and> ms_quote (tt_state p ! k) = expected_quote st k \<and> ms_ofi (tt_state p ! k) = expected_ofi st k)
    \<and> (tt_error p \<or> length (rb_contents (tt_dma_q p)) \<le> 1 \<and> length (rb_contents (tt_ofi_ring p)) \<le> 1
         \<and> rb_contents (tt_bram_ring p) = [] \<and> dma_contents (tt_engine p) = [])"
proof -
  note run = tick_reach_state [OF assms(2,1)]
  have "(\<exists>p'. tick_reach st (Suc t) p') \<or> (\<exists>n. first_fault st = Some (n, Undefined) \<and> fault_cycle st n Undefined = t)"
    if "t < 2 ^ 64"
    using run_state_step [OF assms(1) that run] tick_reach.cycle [OF assms(2) that] by (auto split: option.splits)
  moreover have "tick_inv st t p" if "\<not> tt_error p"
    using run that by (auto simp: run_state_def halted_def split: option.splits if_splits)
  then have "tt_error p \<or> length (rb_contents (tt_dma_q p)) \<le> 1 \<and> length (rb_contents (tt_ofi_ring p)) \<le> 1
      \<and> rb_contents (tt_bram_ring p) = [] \<and> dma_contents (tt_engine p) = []"
    using tick_inv_rings [OF assms(1), of t p] by blast
  ultimately show ?thesis
    using run_state_reports [OF assms(1) run] by (simp add: Let_def passed_def started_def)
qed

theorem pipeline_reachable_witness:
  "\<exists>p. tick_reach noise_stream 20 p \<and> tt_error p \<and> tt_completed p = 0"
proof -
  have sized: "sized_stream noise_stream" by (rule noise_stream_faulty(1))
  have "t \<le> 20 \<Longrightarrow> \<exists>p. tick_reach noise_stream t p" for t
  proof (induction t)
    case 0
    show ?case using tick_reach.start by blast
  next
    case (Suc t)
    then obtain p where "tick_reach noise_stream t p" by auto
    with pipeline_reachable [OF sized this] Suc.prems show ?case by (auto simp: Let_def noise_stream_faulty)
  qed
  then obtain p where p: "tick_reach noise_stream 20 p" by blast
  have "passed noise_stream 9 10 = 0"
    using passed_less [OF sized, of 0 9 10] passed_le [of noise_stream 9 10] noise_stream_faulty(3)
    by (auto simp: fault_cycle_def)
  then show ?thesis
    using p pipeline_reachable [OF sized p]
    by (auto simp: Let_def noise_stream_faulty active_cycles_def passed_def)
qed

end
