(* ===== verification/Share_Bounds.thy ===== *)
theory Share_Bounds
  imports Tick_Faults
begin

text \<open>
  When the share arithmetic cannot overflow: if no share count is negative as a signed number and the
  shares of all adds and replacements of a stream sum to less than \<open>2 ^ 31\<close>, every addition and
  subtraction of the order table and the book is defined, and so is every cycle of the pipeline,
  whatever else the messages are.
\<close>

subsection \<open>Bounded sides and orders\<close>

definition bounded :: "int \<Rightarrow> ('p \<rightharpoonup> int) \<Rightarrow> bool" where
  "bounded T v \<longleftrightarrow> (\<forall>p m. v p = Some m \<longrightarrow> 0 \<le> m \<and> m \<le> T)"

lemma bounded_resting: "bounded T v \<Longrightarrow> 0 \<le> T \<Longrightarrow> 0 \<le> resting v p \<and> resting v p \<le> T"
  by (auto simp: bounded_def resting_def split: option.split)

lemma bounded_mono: "bounded T v \<Longrightarrow> T \<le> T' \<Longrightarrow> bounded T' v"
  by (fastforce simp: bounded_def)

context price_ladder
begin

lemma add_bounded:
  assumes "invar s" "bounded T (view s)" "0 \<le> amount q" "0 \<le> T"
    and "\<And>m. 0 \<le> m \<Longrightarrow> m \<le> T + amount q \<Longrightarrow> fits m"
  shows "\<exists>s' d. add p q s = Some (s', d) \<and> invar s' \<and> bounded (T + amount q) (view s')"
proof (cases "add p q s")
  case None
  from add_NoneD [OF assms(1) None] assms(2,3,5) show ?thesis by (force simp: bounded_def)
next
  case (Some r)
  then obtain s' d where r: "add p q s = Some (s', d)" by (cases r) auto
  have "bounded (T + amount q) (view s')"
    using add_SomeD(2) [OF assms(1) r] bounded_resting [OF assms(2,4), of p] assms(2,3)
    by (fastforce simp: bounded_def split: if_splits)
  with r add_invar [OF assms(1) r] show ?thesis by blast
qed

lemma execute_bounded:
  assumes "invar s" "bounded T (view s)" "0 \<le> amount q" "0 \<le> T"
    and "\<And>m. - amount q \<le> m \<Longrightarrow> m \<le> T \<Longrightarrow> fits m"
  shows "\<exists>s'. execute p q s = Some s' \<and> invar s' \<and> bounded T (view s')"
proof (cases "execute p q s")
  case None
  from execute_NoneD [OF assms(1) None] assms(2,3,5) show ?thesis by (force simp: bounded_def)
next
  case (Some s')
  have "bounded T (view s')"
    using execute_SomeD [OF assms(1) Some] bounded_resting [OF assms(2,4), of p] assms(2,3)
    by (fastforce simp: bounded_def split: if_splits)
  with Some execute_invar [OF assms(1) Some] show ?thesis by blast
qed

end

definition shares_ok :: "order_view \<Rightarrow> bool" where
  "shares_ok v \<longleftrightarrow> (\<forall>r b p m. v r = Some (b, p, m) \<longrightarrow> 0 \<le> m \<and> m < 2 ^ 31)"

context order_store
begin

lemma insert_shares_ok:
  assumes "invar t" "shares_ok (view t)" "0 \<le> sint n"
  shows "\<exists>ok t'. insert r b p n t = (ok, t') \<and> invar t' \<and> shares_ok (view t')"
proof (cases "view t r = None \<and> card (dom (view t)) < cap t")
  case True
  with insert_ok [OF assms(1)] obtain t' where t': "insert r b p n t = (True, t')" "invar t'"
    "view t' = (view t)(r \<mapsto> (b, p, sint n))" by blast
  moreover have "shares_ok (view t')"
    using assms(2,3) sint_i32_range [of n] by (simp add: shares_ok_def t'(3))
  ultimately show ?thesis by blast
next
  case False
  then show ?thesis using insert_refused [OF assms(1)] finite_view [OF assms(1)] assms(1,2)
    by (metis le_neq_implies_less)
qed

lemma reduce_shares_ok:
  assumes "invar t" "shares_ok (view t)" "0 \<le> sint n"
  shows "\<exists>res t'. reduce r n t = Some (res, t') \<and> invar t' \<and> shares_ok (view t')
    \<and> (\<forall>b p a. res = Some (b, p, a) \<longrightarrow> 0 \<le> sint a)"
proof (cases "view t r")
  case None
  then show ?thesis using reduce_unknown [OF assms(1) None] assms(1,2) by simp
next
  case (Some o')
  then obtain b p m where v: "view t r = Some (b, p, m)" by (cases o') auto
  then have m: "0 \<le> m" "m < 2 ^ 31" using assms(2) by (auto simp: shares_ok_def)
  then have "fits_i32 (m - min (sint n) m)" using assms(3) by (auto simp: fits_i32_def min_def)
  from reduce_known [OF assms(1) v this] obtain a t' where t': "reduce r n t = Some (Some (b, p, a), t')"
    "sint a = min (sint n) m" "invar t'"
    "view t' = (if m - min (sint n) m \<le> 0 then (view t)(r := None) else (view t)(r \<mapsto> (b, p, m - min (sint n) m)))"
    by blast
  moreover have "shares_ok (view t')"
    using assms(2,3) m by (auto simp: shares_ok_def t'(4) min_def)
  ultimately show ?thesis using assms(3) m(1) by auto
qed

end

subsection \<open>Events\<close>

definition share_inv :: "int \<Rightarrow> order_table \<Rightarrow> order_book \<Rightarrow> bool" where
  "share_inv T orders book \<longleftrightarrow> table_inv orders \<and> shares_ok (table_view orders) \<and> book_inv book
     \<and> (\<forall>b. bounded T (book_view b book))"

definition added_shares :: "itch_event \<Rightarrow> int" where
  "added_shares e =
     (if ev_type e = Add \<or> ev_type e = Add_Mpid \<or> ev_type e = Replace then sint (ev_shares e) else 0)"

lemma share_inv_new: "share_inv 0 (table_new cap) book_new"
  by (simp add: share_inv_def shares_ok_def bounded_def book_inv_def book_view_def book_new_def side_inv_new)

lemma book_add_bounded:
  assumes "book_inv book" "\<forall>b. bounded T (book_view b book)" "0 \<le> T" "0 \<le> sint n" "T + sint n < 2 ^ 31"
  shows "\<exists>book'. book_add bid p n book = Some book' \<and> book_inv book' \<and> (\<forall>b. bounded (T + sint n) (book_view b book'))"
proof -
  define s where "s = (if bid then ob_bids book else ob_asks book)"
  have s: "side_inv s" "bounded T (side_view s)"
    using assms(1) spec [OF assms(2), of bid] by (auto simp: s_def book_inv_def book_view_def)
  have "fits_i32 m" if "0 \<le> m" "m \<le> T + sint n" for m using that assms(5) by (simp add: fits_i32_def)
  from bids.add_bounded [OF s assms(4,3) this] obtain s' d where
    s': "side_add p n s = Some (s', d)" "side_inv s'" "bounded (T + sint n) (side_view s')" by blast
  moreover have "bounded (T + sint n) (book_view b book)" for b
    using bounded_mono [OF spec [OF assms(2)]] assms(4) by simp
  then have "\<forall>b. bounded (T + sint n) (book_view b book)" by blast
  ultimately show ?thesis using assms(1)
    by (cases bid) (simp_all add: book_add_def s_def book_inv_def book_view_def Let_def all_bool_eq)
qed

lemma book_execute_bounded:
  assumes "book_inv book" "\<forall>b. bounded T (book_view b book)" "0 \<le> T" "0 \<le> sint n" "T < 2 ^ 31"
  shows "\<exists>book'. book_execute bid p n book = Some book' \<and> book_inv book' \<and> (\<forall>b. bounded T (book_view b book'))"
proof -
  define s where "s = (if bid then ob_bids book else ob_asks book)"
  have s: "side_inv s" "bounded T (side_view s)"
    using assms(1) spec [OF assms(2), of bid] by (auto simp: s_def book_inv_def book_view_def)
  have "fits_i32 m" if "- sint n \<le> m" "m \<le> T" for m
    using that assms(5) sint_i32_range [of n] by (simp add: fits_i32_def)
  from bids.execute_bounded [OF s assms(4,3) this] obtain s' where
    s': "side_execute p n s = Some s'" "side_inv s'" "bounded T (side_view s')" by blast
  then show ?thesis using assms(1,2)
    by (cases bid) (simp_all add: book_execute_def s_def book_inv_def book_view_def all_bool_eq)
qed

lemma apply_insert_inv:
  assumes "share_inv T orders book" "0 \<le> T" "0 \<le> sint n" "T + sint n < 2 ^ 31"
  shows "\<exists>ok orders' book'. apply_insert r bid p n orders book = Some (ok, orders', book')
    \<and> share_inv (T + sint n) orders' book'"
proof -
  obtain ok orders' where "table_insert r bid p n orders = (ok, orders')" "table_inv orders'" "shares_ok (table_view orders')"
    using table.insert_shares_ok [of orders n r bid p] assms(1,3) by (auto simp: share_inv_def)
  moreover obtain book' where "book_add bid p n book = Some book'" "book_inv book'"
    "\<forall>b. bounded (T + sint n) (book_view b book')"
    using book_add_bounded [of book T n bid p] assms by (auto simp: share_inv_def)
  ultimately show ?thesis by (simp add: apply_insert_def share_inv_def)
qed

lemma apply_reduce_inv:
  assumes "share_inv T orders book" "0 \<le> T" "0 \<le> sint n" "T < 2 ^ 31"
  shows "\<exists>ok bid orders' book'. apply_reduce r n orders book = Some ((ok, bid), orders', book')
    \<and> share_inv T orders' book'"
proof -
  obtain res orders' where red: "table_reduce r n orders = Some (res, orders')" "table_inv orders'"
    "shares_ok (table_view orders')" "\<forall>b p a. res = Some (b, p, a) \<longrightarrow> 0 \<le> sint a"
    using table.reduce_shares_ok [of orders n r] assms(1,3) by (auto simp: share_inv_def)
  show ?thesis
  proof (cases res)
    case None
    then show ?thesis using red assms(1) by (auto simp: apply_reduce_def share_inv_def)
  next
    case (Some o')
    then obtain b p a where o': "res = Some (b, p, a)" by (cases o') auto
    with red(4) book_execute_bounded [of book T a b p] assms(1,2,4) obtain book' where
      "book_execute b p a book = Some book'" "book_inv book'" "\<forall>b. bounded T (book_view b book')"
      by (auto simp: share_inv_def)
    then show ?thesis using red o' by (auto simp: apply_reduce_def share_inv_def)
  qed
qed

lemma max_i32_nonneg: "0 \<le> sint max_i32"
  by (simp add: max_i32_def sint_of_int_i32 fits_i32_def)

lemma apply_event_inv:
  assumes inv: "share_inv T orders book" "0 \<le> T" and n: "0 \<le> sint (ev_shares e)" and T: "T + added_shares e < 2 ^ 31"
  shows "\<exists>ok orders' book'. apply_event e orders book = Some (ok, orders', book') \<and> share_inv (T + added_shares e) orders' book'"
proof (cases "ev_type e")
  case Replace
  have small: "T < 2 ^ 31" "T + sint (ev_shares e) < 2 ^ 31" using T n Replace by (simp_all add: added_shares_def)
  obtain ok bid orders1 book1 where red: "apply_reduce (order_reference e) max_i32 orders book
      = Some ((ok, bid), orders1, book1)" "share_inv T orders1 book1"
    using apply_reduce_inv [OF inv max_i32_nonneg small(1)] by blast
  show ?thesis
  proof (cases ok)
    case True
    then show ?thesis
      using apply_insert_inv [OF red(2) inv(2) n small(2)] red(1) Replace by (simp add: apply_event_def added_shares_def)
  next
    case False
    have "share_inv (T + sint (ev_shares e)) orders1 book1"
      using red(2) n by (auto simp: share_inv_def intro: bounded_mono)
    then show ?thesis using False red(1) Replace by (auto simp: apply_event_def added_shares_def)
  qed
next
  case Add
  then show ?thesis using apply_insert_inv [OF inv n] T by (simp add: apply_event_def added_shares_def)
next
  case Add_Mpid
  then show ?thesis using apply_insert_inv [OF inv n] T by (simp add: apply_event_def added_shares_def)
next
  case Delete_Order
  then have "T < 2 ^ 31" using T by (simp add: added_shares_def)
  from apply_reduce_inv [OF inv max_i32_nonneg this, of "order_reference e"] Delete_Order show ?thesis
    by (auto simp: apply_event_def added_shares_def)
next
  case Unknown
  then show ?thesis using inv(1) by (auto simp: apply_event_def added_shares_def)
qed (use apply_reduce_inv [OF inv n, of "order_reference e"] T in \<open>auto simp: apply_event_def added_shares_def\<close>)

subsection \<open>Streams\<close>

definition message_added :: "itch_stream \<Rightarrow> nat \<Rightarrow> int" where
  "message_added st k = (if wf_message (message_bytes st k) then added_shares (decoded (message_bytes st k)) else 0)"

definition calm_stream :: "itch_stream \<Rightarrow> bool" where
  "calm_stream st \<longleftrightarrow>
     (\<forall>k < is_count st. wf_message (message_bytes st k) \<longrightarrow> 0 \<le> sint (ev_shares (decoded (message_bytes st k))))
     \<and> (\<Sum>k < is_count st. message_added st k) < 2 ^ 31"

lemma message_added_nonneg:
  "calm_stream st \<Longrightarrow> k < is_count st \<Longrightarrow> 0 \<le> message_added st k"
  by (simp add: calm_stream_def message_added_def added_shares_def)

lemma calm_prefix:
  assumes "calm_stream st" "n \<le> is_count st"
  shows "0 \<le> (\<Sum>k < n. message_added st k)" "(\<Sum>k < n. message_added st k) < 2 ^ 31"
proof -
  show "0 \<le> (\<Sum>k < n. message_added st k)"
    using message_added_nonneg [OF assms(1)] assms(2) by (intro sum_nonneg) simp
  have "(\<Sum>k < n. message_added st k) \<le> (\<Sum>k < is_count st. message_added st k)"
    using message_added_nonneg [OF assms(1)] assms(2) by (intro sum_mono2) auto
  then show "(\<Sum>k < n. message_added st k) < 2 ^ 31" using assms(1) by (simp add: calm_stream_def)
qed

text \<open>The table and the book before each message up to the first fault.\<close>

lemma calm_book:
  assumes calm: "calm_stream st"
  shows "n \<le> is_count st \<Longrightarrow> \<forall>k < n. message_fault st k = None \<Longrightarrow>
    \<exists>orders book. book_after st n = Some (orders, book) \<and> share_inv (\<Sum>k < n. message_added st k) orders book"
proof (induction n)
  case (Suc n)
  then obtain orders book where b: "book_after st n = Some (orders, book)"
    "share_inv (\<Sum>k < n. message_added st k) orders book" by auto
  have wf: "wf_message (message_bytes st n)" using Suc.prems(2) by (intro message_no_fault(1)) simp
  then have n: "0 \<le> sint (ev_shares (decoded (message_bytes st n)))"
    "message_added st n = added_shares (decoded (message_bytes st n))"
    using calm Suc.prems(1) by (simp_all add: calm_stream_def message_added_def)
  have bound: "0 \<le> (\<Sum>k < n. message_added st k)"
    "(\<Sum>k < n. message_added st k) + added_shares (decoded (message_bytes st n)) < 2 ^ 31"
    using calm_prefix(1) [OF calm, of n] calm_prefix(2) [OF calm Suc.prems(1)] Suc.prems(1) n(2) by simp_all
  have "book_after st (Suc n) \<noteq> None" using Suc.prems(2) b(1) by (intro message_no_fault(2)) auto
  with apply_event_inv [OF b(2) bound(1) n(1) bound(2)] b(1) n(2) show ?case
    by (auto split: if_splits)
qed (simp add: share_inv_new)

lemma calm_no_undefined:
  assumes "calm_stream st"
  shows "\<not> undefined_fault st"
proof
  assume "undefined_fault st"
  then obtain n where f: "first_fault st = Some (n, Undefined)" by (auto simp: undefined_fault_def split: option.splits)
  then have n: "n < is_count st" "message_fault st n = Some Undefined" "\<forall>k < n. message_fault st k = None"
    by (simp_all add: first_fault_Some)
  from calm_book [OF assms less_imp_le [OF n(1)] n(3)] obtain orders book where
    b: "book_after st n = Some (orders, book)" "share_inv (\<Sum>k < n. message_added st k) orders book" by blast
  have wf: "wf_message (message_bytes st n)" using n(2) by (auto simp: message_fault_def split: if_splits)
  then have "0 \<le> sint (ev_shares (decoded (message_bytes st n)))"
    "message_added st n = added_shares (decoded (message_bytes st n))"
    using assms n(1) by (simp_all add: calm_stream_def message_added_def)
  moreover have "0 \<le> (\<Sum>k < n. message_added st k)" "(\<Sum>k < n. message_added st k) + message_added st n < 2 ^ 31"
    using calm_prefix(1) [OF assms, of n] calm_prefix(2) [OF assms, of "Suc n"] n(1) by simp_all
  ultimately obtain ok orders' book' where
    "apply_event (decoded (message_bytes st n)) orders book = Some (ok, orders', book')"
    using apply_event_inv [OF b(2)] by metis
  then show False using n(2) wf b(1) by (auto simp: message_fault_def split: if_splits)
qed

subsection \<open>Property\<close>

text \<open>
  C35. No undefined behaviour: on any stream of messages of 4 to 40 bytes in which no share count is
  negative as a signed number and the shares of all adds and replacements sum to less than \<open>2 ^ 31\<close>,
  every cycle of the pipeline is defined (no overflow, no access outside an array, no failed
  assertion), whether messages are refused or not, and so is the drive loop with any limit.
\<close>

theorem pipeline_defined:
  assumes "sized_stream st" "calm_stream st"
  shows "(\<forall>t \<le> 2 ^ 64. tick_cycles st t \<noteq> None) \<and> drive st limit (replay_engine st) (tick_new st) \<noteq> None"
proof -
  have reach: "t \<le> 2 ^ 64 \<Longrightarrow> \<exists>p. tick_reach st t p" for t
  proof (induction t)
    case (Suc t)
    then obtain p where p: "tick_reach st t p" by auto
    have "t < 2 ^ 64" using Suc.prems by simp
    from run_state_step [OF assms(1) this tick_reach_state [OF p assms(1)]] calm_no_undefined [OF assms(2)]
    obtain p' where "tick_cycle st (of_nat t) p = Some p'"
      by (auto simp: undefined_fault_def split: option.splits)
    with p \<open>t < 2 ^ 64\<close> show ?case by (blast intro: tick_reach.cycle)
  qed (blast intro: tick_reach.start)
  then have "\<forall>t \<le> 2 ^ 64. tick_cycles st t \<noteq> None" using tick_reach_cycles by fastforce
  then show ?thesis using drive_outcome [OF assms(1), of limit] calm_no_undefined [OF assms(2)]
    by (auto simp del: tick_cycles.simps)
qed

theorem pipeline_defined_witness:
  "tick_cycles orphan_stream 1000 \<noteq> None"
proof -
  have "calm_stream orphan_stream"
    by (simp add: calm_stream_def message_added_def added_shares_def orphan_stream_message delete_message_wf event_empty_def)
  with pipeline_defined [OF orphan_stream_faulty(1)] show ?thesis by simp
qed

end
