(* ===== verification/Latency_Stats.thy ===== *)
theory Latency_Stats
  imports Tick_To_Trade "HOL-Library.Multiset"
begin

text \<open>
  \<open>LatencyStats\<close> of \<open>include/pipeline/tick_to_trade.hpp\<close>: order statistics by nearest rank and a
  histogram of the recorded latencies. \<open>std::sort\<close> is \<open>sort\<close>; a pointer to fewer than \<open>n\<close>
  elements makes the result \<open>None\<close>.
\<close>

subsection \<open>Nearest rank\<close>

definition rank_index :: "nat \<Rightarrow> nat \<Rightarrow> nat" where
  "rank_index pct n = (pct * n + 99) div 100 - 1"

text \<open>A value is a percentile by nearest rank when enough elements are at most it and not enough
  are below it.\<close>

definition nearest_rank :: "nat \<Rightarrow> 'a::linorder list \<Rightarrow> 'a \<Rightarrow> bool" where
  "nearest_rank pct xs v \<longleftrightarrow> v \<in> set xs
     \<and> pct * length xs \<le> 100 * length (filter (\<lambda>x. x \<le> v) xs)
     \<and> 100 * length (filter (\<lambda>x. x < v) xs) < pct * length xs"

lemma rank_index_bounds:
  assumes "0 < n" "0 < pct" "pct \<le> 100"
  shows "rank_index pct n < n" "pct * n \<le> 100 * (rank_index pct n + 1)" "100 * rank_index pct n < pct * n"
proof -
  define m where "m = pct * n"
  have m: "1 \<le> m" "m \<le> 100 * n" using assms by (simp_all add: m_def)
  define q where "q = (m + 99) div 100"
  have "100 * q \<le> m + 99" "m + 99 < 100 * q + 100" unfolding q_def by linarith+
  moreover from this m obtain r where "q = Suc r" by (cases q) auto
  ultimately show "rank_index pct n < n" "pct * n \<le> 100 * (rank_index pct n + 1)"
    "100 * rank_index pct n < pct * n"
    unfolding rank_index_def m_def [symmetric] q_def [symmetric] using m by simp_all
qed

lemma count_at_most:
  assumes "sorted xs" "k < length xs"
  shows "k + 1 \<le> length (filter (\<lambda>x. x \<le> xs ! k) xs)"
proof -
  have "{..<k + 1} \<subseteq> {i. i < length xs \<and> xs ! i \<le> xs ! k}"
    using assms by (auto intro: sorted_nth_mono)
  then have "card {..<k + 1} \<le> card {i. i < length xs \<and> xs ! i \<le> xs ! k}" by (intro card_mono) auto
  then show ?thesis by (simp add: length_filter_conv_card)
qed

lemma count_below:
  assumes "sorted xs" "k < length xs"
  shows "length (filter (\<lambda>x. x < xs ! k) xs) \<le> k"
proof -
  have "{i. i < length xs \<and> xs ! i < xs ! k} \<subseteq> {..<k}"
    using assms by (auto simp: not_le [symmetric] intro: sorted_nth_mono)
  then have "card {i. i < length xs \<and> xs ! i < xs ! k} \<le> card {..<k}" by (intro card_mono) auto
  then show ?thesis by (simp add: length_filter_conv_card)
qed

lemma length_filter_sort [simp]: "length (filter P (sort xs)) = length (filter P xs)"
  by (metis mset_filter mset_sort size_mset)

lemma nearest_rank_sort:
  assumes "xs \<noteq> []" "0 < pct" "pct \<le> 100"
  shows "nearest_rank pct xs (sort xs ! rank_index pct (length xs))"
proof -
  let ?k = "rank_index pct (length xs)"
  have k: "?k < length (sort xs)" "pct * length xs \<le> 100 * (?k + 1)" "100 * ?k < pct * length xs"
    using rank_index_bounds [of "length xs" pct] assms by simp_all
  then have "sort xs ! ?k \<in> set xs" using nth_mem [of ?k "sort xs"] by simp
  moreover have "pct * length xs \<le> 100 * length (filter (\<lambda>x. x \<le> sort xs ! ?k) xs)"
    using count_at_most [OF sorted_sort k(1)] k(2) by simp
  moreover have "100 * length (filter (\<lambda>x. x < sort xs ! ?k) xs) < pct * length xs"
    using count_below [OF sorted_sort k(1)] k(3) by simp
  ultimately show ?thesis by (simp add: nearest_rank_def)
qed

text \<open>There is at most one such value.\<close>

lemma nearest_rank_unique:
  assumes "nearest_rank pct xs v" "nearest_rank pct xs w"
  shows "v = w"
proof (rule ccontr)
  have below: False if "nearest_rank pct xs a" "nearest_rank pct xs b" "a < b" for a b :: 'a
  proof -
    have "length (filter (\<lambda>x. x \<le> a) xs) \<le> length (filter (\<lambda>x. x < b) xs)"
      using that(3) by (induction xs) auto
    with that(1,2) show False by (auto simp: nearest_rank_def)
  qed
  assume "v \<noteq> w"
  then show False using below [OF assms] below [OF assms(2,1)] by (cases v w rule: linorder_cases) blast+
qed

subsection \<open>State and operations\<close>

definition histogram_bins :: nat where "histogram_bins = 32"
definition bin_width_cycles :: u32 where "bin_width_cycles = 2"

record latency_stats =
  st_count :: nat
  st_min :: u32
  st_median :: u32
  st_p99 :: u32
  st_max :: u32
  st_histogram :: "u32 list"

definition stats_empty :: latency_stats where
  "stats_empty = \<lparr>st_count = 0, st_min = 0, st_median = 0, st_p99 = 0, st_max = 0,
     st_histogram = replicate histogram_bins 0\<rparr>"

definition bin_of :: "u32 \<Rightarrow> nat" where
  "bin_of s = (let bin = unat (s div bin_width_cycles)
               in if histogram_bins \<le> bin then histogram_bins - 1 else bin)"

definition count_bin :: "u32 list \<Rightarrow> u32 \<Rightarrow> u32 list" where
  "count_bin h s = h[bin_of s := h ! bin_of s + 1]"

definition compute_with :: "u32 list \<Rightarrow> nat \<Rightarrow> u32 list \<Rightarrow> (latency_stats \<times> u32 list) option" where
  "compute_with samples n scratch =
     (if n = 0 then Some (stats_empty, scratch)
      else if length samples < n \<or> length scratch < n then None
      else
        let scratch1 = sort (take n samples) @ drop n scratch
        in do {
          lo \<leftarrow> at 0 scratch1;
          hi \<leftarrow> at (n - 1) scratch1;
          med \<leftarrow> at (size_sub ((50 * n + 99) mod 2 ^ 64 div 100) 1) scratch1;
          p99 \<leftarrow> at (size_sub ((99 * n + 99) mod 2 ^ 64 div 100) 1) scratch1;
          Some (\<lparr>st_count = n, st_min = lo, st_median = med, st_p99 = p99, st_max = hi,
                 st_histogram = foldl count_bin (st_histogram stats_empty) (take n samples)\<rparr>, scratch1) })"

definition stats_scratch :: nat where "stats_scratch = 256"

definition stats_compute :: "u32 list \<Rightarrow> nat \<Rightarrow> latency_stats option" where
  "stats_compute samples n =
     (if stats_scratch < n then Some stats_empty
      else map_option fst (compute_with samples n (replicate stats_scratch 0)))"

text \<open>\<open>stats\<close> and \<open>stats_with\<close> of the pipeline.\<close>

definition pipeline_stats :: "tick_pipeline \<Rightarrow> latency_stats option" where
  "pipeline_stats p = stats_compute (tt_latency p) (tt_completed p)"

definition pipeline_stats_with :: "u32 list \<Rightarrow> tick_pipeline \<Rightarrow> (latency_stats \<times> u32 list) option" where
  "pipeline_stats_with scratch p = compute_with (tt_latency p) (tt_completed p) scratch"

subsection \<open>The histogram\<close>

lemma bin_of_less: "bin_of s < histogram_bins"
  by (simp add: bin_of_def histogram_bins_def Let_def)

lemma count_bins:
  "length h = histogram_bins \<Longrightarrow> length (foldl count_bin h xs) = histogram_bins
   \<and> (\<forall>b < histogram_bins. foldl count_bin h xs ! b = h ! b + of_nat (length (filter (\<lambda>s. bin_of s = b) xs)))"
proof (induction xs arbitrary: h)
  case (Cons x xs)
  from Cons.prems have "length (count_bin h x) = histogram_bins" by (simp add: count_bin_def)
  from Cons.IH [OF this] show ?case
    using Cons.prems bin_of_less [of x] by (auto simp: count_bin_def nth_list_update algebra_simps)
qed simp

lemma sum_bins:
  "(\<Sum>b < histogram_bins. length (filter (\<lambda>s. bin_of s = b) xs)) = length xs"
proof (induction xs)
  case (Cons x xs)
  have "(\<Sum>b < histogram_bins. length (filter (\<lambda>s. bin_of s = b) (x # xs)))
      = (\<Sum>b < histogram_bins. (if bin_of x = b then 1 else 0) + length (filter (\<lambda>s. bin_of s = b) xs))"
    by (rule sum.cong) auto
  then show ?case using Cons bin_of_less [of x] by (simp add: sum.distrib)
qed simp

lemma bin_of_width:
  "b < histogram_bins \<Longrightarrow> bin_of s = b \<longleftrightarrow>
    (if b = histogram_bins - 1 then 62 \<le> unat s else 2 * b \<le> unat s \<and> unat s < 2 * b + 2)"
  by (auto simp: bin_of_def histogram_bins_def bin_width_cycles_def Let_def unat_div)

lemma compute_with_defined:
  assumes "0 < n" "n \<le> length samples" "n \<le> length scratch" "n < 2 ^ 32"
  shows "compute_with samples n scratch = Some
    (\<lparr>st_count = n, st_min = sort (take n samples) ! 0,
      st_median = sort (take n samples) ! rank_index 50 n, st_p99 = sort (take n samples) ! rank_index 99 n,
      st_max = sort (take n samples) ! (n - 1),
      st_histogram = foldl count_bin (replicate histogram_bins 0) (take n samples)\<rparr>,
     sort (take n samples) @ drop n scratch)"
proof -
  define ys where "ys = sort (take n samples)"
  have "length ys = n" using assms by (simp add: ys_def)
  moreover have "rank_index 50 n < n" "rank_index 99 n < n"
    using rank_index_bounds(1) [of n] assms(1) by simp_all
  moreover have "size_sub ((50 * n + 99) mod 2 ^ 64 div 100) 1 = rank_index 50 n"
    "size_sub ((99 * n + 99) mod 2 ^ 64 div 100) 1 = rank_index 99 n"
    using assms(1,4) by (simp_all add: size_sub_def rank_index_def)
  moreover have "0 < length scratch" "n - 1 < length scratch" using assms by linarith+
  ultimately show ?thesis
    using assms unfolding compute_with_def Let_def ys_def [symmetric] stats_empty_def
    by (simp add: at_def nth_append)
qed

lemma nth_sorted: "x \<in> set xs \<Longrightarrow> \<exists>i < length (sort xs). sort xs ! i = x"
  unfolding in_set_conv_nth [symmetric] by simp

subsection \<open>What is computed\<close>

text \<open>The order statistics.\<close>

lemma latency_percentiles:
  assumes "0 < n" "n \<le> length samples" "n \<le> length scratch" "n < 2 ^ 32"
  shows "\<exists>s scratch'. compute_with samples n scratch = Some (s, scratch') \<and> length scratch' = length scratch
    \<and> st_count s = n \<and> st_min s = Min (set (take n samples)) \<and> st_max s = Max (set (take n samples))
    \<and> nearest_rank 50 (take n samples) (st_median s) \<and> nearest_rank 99 (take n samples) (st_p99 s)"
proof -
  let ?xs = "take n samples"
  have len: "length ?xs = n" and ne: "?xs \<noteq> []" using assms by auto
  have "sort ?xs ! 0 = Min (set ?xs)"
  proof (rule Min_eqI [symmetric])
    show "sort ?xs ! 0 \<le> x" if "x \<in> set ?xs" for x
    proof -
      from that obtain i where "i < length (sort ?xs)" "sort ?xs ! i = x"
        using nth_sorted [of x ?xs] by blast
      then show ?thesis using sorted_nth_mono [OF sorted_sort [of ?xs], of 0 i] by simp
    qed
    show "sort ?xs ! 0 \<in> set ?xs" using nth_mem [of 0 "sort ?xs"] ne by simp
  qed simp
  moreover have "sort ?xs ! (n - 1) = Max (set ?xs)"
  proof (rule Max_eqI [symmetric])
    show "x \<le> sort ?xs ! (n - 1)" if "x \<in> set ?xs" for x
    proof -
      from that obtain i where "i < length (sort ?xs)" "sort ?xs ! i = x"
        using nth_sorted [of x ?xs] by blast
      then show ?thesis using sorted_nth_mono [OF sorted_sort [of ?xs], of i "n - 1"] len assms(1) by auto
    qed
    show "sort ?xs ! (n - 1) \<in> set ?xs" using nth_mem [of "n - 1" "sort ?xs"] len assms(1) by (simp del: One_nat_def)
  qed simp
  moreover have "nearest_rank 50 ?xs (sort ?xs ! rank_index 50 n)" "nearest_rank 99 ?xs (sort ?xs ! rank_index 99 n)"
    using nearest_rank_sort [OF ne, of 50] nearest_rank_sort [OF ne, of 99] unfolding len by simp_all
  ultimately show ?thesis using compute_with_defined [OF assms] len assms(3) by simp
qed

text \<open>The bins.\<close>

lemma latency_histogram:
  assumes "0 < n" "n \<le> length samples" "n \<le> length scratch" "n < 2 ^ 32"
  shows "\<exists>s scratch'. compute_with samples n scratch = Some (s, scratch')
    \<and> length (st_histogram s) = histogram_bins
    \<and> (\<forall>b < histogram_bins. unat (st_histogram s ! b) = length (filter
         (\<lambda>c. if b = 31 then 62 \<le> unat c else 2 * b \<le> unat c \<and> unat c < 2 * b + 2) (take n samples)))
    \<and> (\<Sum>b < histogram_bins. unat (st_histogram s ! b)) = n"
proof -
  let ?h = "foldl count_bin (replicate histogram_bins 0) (take n samples)"
  have "length ?h = histogram_bins" and
    bins: "?h ! b = of_nat (length (filter (\<lambda>s. bin_of s = b) (take n samples)))" if "b < histogram_bins" for b
    using count_bins [of "replicate histogram_bins 0" "take n samples"] that by simp_all
  have "length (filter P (take n samples)) < 2 ^ 32" for P
    using length_filter_le [of P "take n samples"] assms(4) by simp
  then have counts: "unat (?h ! b) = length (filter (\<lambda>s. bin_of s = b) (take n samples))"
    if "b < histogram_bins" for b
    unfolding bins [OF that] by (rule unat_of_nat_u32)
  moreover have "filter (\<lambda>s. bin_of s = b) (take n samples) = filter
      (\<lambda>c. if b = 31 then 62 \<le> unat c else 2 * b \<le> unat c \<and> unat c < 2 * b + 2) (take n samples)"
    if "b < histogram_bins" for b
    using bin_of_width [OF that] by (simp add: histogram_bins_def cong: filter_cong)
  moreover have "(\<Sum>b < histogram_bins. unat (?h ! b)) = n"
    using sum_bins [of "take n samples"] counts assms(2) by simp
  moreover have "length ?h = histogram_bins" using count_bins [of "replicate histogram_bins 0" "take n samples"] by simp
  ultimately show ?thesis using compute_with_defined [OF assms] by simp
qed

subsection \<open>Property\<close>

text \<open>
  C24. For between 1 and \<open>2 ^ 32 - 1\<close> samples no element outside the arrays is read, the minimum
  and maximum are those of the samples, and the median and the 99th percentile are the nearest-rank
  ones: at least 50 (99) percent of the samples are at most the value and fewer are below it. The
  histogram is a partition: every sample is counted once, in the bin of width two of its latency or,
  from 62 cycles on, in the last bin, and no bin wraps.
\<close>

theorem latency_statistics:
  assumes "0 < n" "n \<le> length samples" "n \<le> length scratch" "n < 2 ^ 32"
  shows "\<exists>s scratch'. compute_with samples n scratch = Some (s, scratch') \<and> length scratch' = length scratch
    \<and> st_count s = n \<and> st_min s = Min (set (take n samples)) \<and> st_max s = Max (set (take n samples))
    \<and> nearest_rank 50 (take n samples) (st_median s) \<and> nearest_rank 99 (take n samples) (st_p99 s)
    \<and> length (st_histogram s) = histogram_bins
    \<and> (\<forall>b < histogram_bins. unat (st_histogram s ! b) = length (filter
         (\<lambda>c. if b = 31 then 62 \<le> unat c else 2 * b \<le> unat c \<and> unat c < 2 * b + 2) (take n samples)))
    \<and> (\<Sum>b < histogram_bins. unat (st_histogram s ! b)) = n"
proof -
  obtain s scratch' where ranks: "compute_with samples n scratch = Some (s, scratch')"
    "length scratch' = length scratch" "st_count s = n" "st_min s = Min (set (take n samples))"
    "st_max s = Max (set (take n samples))" "nearest_rank 50 (take n samples) (st_median s)"
    "nearest_rank 99 (take n samples) (st_p99 s)"
    using latency_percentiles [OF assms] by blast
  moreover from latency_histogram [OF assms] ranks(1) have "length (st_histogram s) = histogram_bins"
    "\<forall>b < histogram_bins. unat (st_histogram s ! b) = length (filter
         (\<lambda>c. if b = 31 then 62 \<le> unat c else 2 * b \<le> unat c \<and> unat c < 2 * b + 2) (take n samples))"
    "(\<Sum>b < histogram_bins. unat (st_histogram s ! b)) = n" by (simp_all only: option.inject prod.inject) blast+
  ultimately show ?thesis by blast
qed

theorem latency_statistics_witness:
  "\<exists>s scratch'. compute_with [16, 14, 17] 3 [0, 0, 0] = Some (s, scratch') \<and> st_min s = 14 \<and> st_max s = 17
    \<and> nearest_rank 50 [16, 14, 17] (st_median s) \<and> (\<Sum>b < histogram_bins. unat (st_histogram s ! b)) = 3"
proof -
  obtain s scratch' where s: "compute_with [16, 14, 17] 3 [0, 0, 0] = Some (s, scratch')"
    "st_min s = Min (set (take 3 [16, 14, 17]))" "st_max s = Max (set (take 3 [16, 14, 17]))"
    "nearest_rank 50 (take 3 [16, 14, 17]) (st_median s)" "(\<Sum>b < histogram_bins. unat (st_histogram s ! b)) = 3"
    using latency_statistics [of 3 "[16, 14, 17]" "[0, 0, 0]"] by force
  then show ?thesis by (intro exI [of _ s] exI [of _ scratch']) simp
qed

end
