(* ===== verification/Synthetic_Itch.thy ===== *)
theory Synthetic_Itch
  imports Message_Stream Ofi_Dsp Tick_To_Trade "HOL-Library.Multiset"
begin

text \<open>
  The generator of \<open>include/pipeline/synthetic_itch.hpp\<close>: a xorshift32 sequence turned into 256
  add, execute and cancel messages, with the generator's own account of the resting orders and of
  the best quote. The seed is a parameter. An index outside an array, a division by zero and a
  signed overflow are \<open>None\<close>.
\<close>

subsection \<open>State\<close>

record live_order =
  lv_reference :: u64
  lv_remaining :: i32
  lv_level :: nat
  lv_bid :: bool

record synth =
  sy_messages :: "sim_message list"
  sy_quotes :: "book_quote list"
  sy_live :: "live_order list"
  sy_bid_qty :: "i32 list"
  sy_ask_qty :: "i32 list"
  sy_live_count :: nat
  sy_adds :: nat
  sy_executes :: nat
  sy_cancels :: nat
  sy_rng :: u32

definition message_count :: nat where "message_count = 256"
definition order_capacity :: nat where "order_capacity = 128"
definition default_seed :: u32 where "default_seed = 0x5EEDF00D"
definition base_bid :: i32 where "base_bid = 1892500"
definition base_ask :: i32 where "base_ask = 1893000"
definition tick :: i32 where "tick = 100"
definition price_levels :: nat where "price_levels = 5"

definition synth_message_empty :: sim_message where
  "synth_message_empty = \<lparr>sm_bytes = replicate 36 0, sm_length = 0, sm_type = 0, sm_arrival = 0\<rparr>"

definition live_empty :: live_order where
  "live_empty = \<lparr>lv_reference = 0, lv_remaining = 0, lv_level = 0, lv_bid = False\<rparr>"

definition synth_new :: "u32 \<Rightarrow> synth" where
  "synth_new seed =
     \<lparr>sy_messages = replicate message_count synth_message_empty,
      sy_quotes = replicate message_count quote_empty, sy_live = replicate 128 live_empty,
      sy_bid_qty = replicate price_levels 0, sy_ask_qty = replicate price_levels 0,
      sy_live_count = 0, sy_adds = 0, sy_executes = 0, sy_cancels = 0, sy_rng = seed\<rparr>"

subsection \<open>Operations\<close>

definition xorshift :: "u32 \<Rightarrow> u32" where
  "xorshift r =
     (let a = r XOR push_bit 13 r; b = a XOR drop_bit 17 a in b XOR push_bit 5 b)"

definition synth_next :: "synth \<Rightarrow> u32 \<times> synth" where
  "synth_next s = (xorshift (sy_rng s), s\<lparr>sy_rng := xorshift (sy_rng s)\<rparr>)"

definition put_u32 :: "nat \<Rightarrow> u32 \<Rightarrow> u8 list \<Rightarrow> u8 list" where
  "put_u32 off v p = foldl (\<lambda>p i. p[off + i := ucast (drop_bit ((3 - i) * 8) v)]) p [0..<4]"

definition put_u64 :: "nat \<Rightarrow> u64 \<Rightarrow> u8 list \<Rightarrow> u8 list" where
  "put_u64 off v p = foldl (\<lambda>p i. p[off + i := ucast (drop_bit ((7 - i) * 8) v)]) p [0..<8]"

definition level_price :: "bool \<Rightarrow> nat \<Rightarrow> i32" where
  "level_price bid level =
     (let step = of_nat level * tick in if bid then base_bid - step else base_ask + step)"

definition make_header :: "u8 \<Rightarrow> nat \<Rightarrow> nat \<Rightarrow> sim_message \<Rightarrow> sim_message" where
  "make_header type len seq m =
     m\<lparr>sm_length := of_nat len, sm_type := type,
       sm_bytes := put_u32 7 (of_nat seq) (put_u32 1 1 ((sm_bytes m)[0 := type]))\<rparr>"

definition remove_live :: "nat \<Rightarrow> synth \<Rightarrow> synth" where
  "remove_live index s =
     s\<lparr>sy_live := (sy_live s)[index := sy_live s ! (sy_live_count s - 1)],
       sy_live_count := sy_live_count s - 1\<rparr>"

definition first_positive :: "i32 list \<Rightarrow> nat option" where
  "first_positive qty = find (\<lambda>l. 0 <s qty ! l) [0..<price_levels]"

definition synth_quote :: "synth \<Rightarrow> book_quote" where
  "synth_quote s =
     (let q0 = \<lparr>bq_bid_price = 0, bq_bid_qty = 0, bq_ask_price = max_i32, bq_ask_qty = 0\<rparr>;
          q1 = (case first_positive (sy_bid_qty s) of None \<Rightarrow> q0
                | Some l \<Rightarrow> q0\<lparr>bq_bid_price := level_price True l, bq_bid_qty := sy_bid_qty s ! l\<rparr>)
      in (case first_positive (sy_ask_qty s) of None \<Rightarrow> q1
          | Some l \<Rightarrow> q1\<lparr>bq_ask_price := level_price False l, bq_ask_qty := sy_ask_qty s ! l\<rparr>))"

definition update_quote :: "nat \<Rightarrow> synth \<Rightarrow> synth" where
  "update_quote i s = s\<lparr>sy_quotes := (sy_quotes s)[i := synth_quote s]\<rparr>"

text \<open>The quantities of one side, and the change of one level.\<close>

definition side_qty :: "bool \<Rightarrow> synth \<Rightarrow> i32 list" where
  "side_qty bid s = (if bid then sy_bid_qty s else sy_ask_qty s)"

definition set_side_qty :: "bool \<Rightarrow> nat \<Rightarrow> i32 \<Rightarrow> synth \<Rightarrow> synth" where
  "set_side_qty bid l q s =
     (if bid then s\<lparr>sy_bid_qty := (sy_bid_qty s)[l := q]\<rparr>
      else s\<lparr>sy_ask_qty := (sy_ask_qty s)[l := q]\<rparr>)"

definition set_message :: "nat \<Rightarrow> sim_message \<Rightarrow> synth \<Rightarrow> synth" where
  "set_message i m s = s\<lparr>sy_messages := (sy_messages s)[i := m]\<rparr>"

definition stock_bytes8 :: "u8 list" where
  "stock_bytes8 = map ascii ''AAPL    ''"

definition add_message :: "nat \<Rightarrow> bool \<Rightarrow> i32 \<Rightarrow> nat \<Rightarrow> sim_message \<Rightarrow> sim_message" where
  "add_message i bid shares level m =
     (let m1 = make_header (ascii CHR ''A'') 36 i m;
          bytes1 = put_u64 11 (of_nat (1000 + i)) (sm_bytes m1);
          bytes2 = bytes1[19 := if bid then ascii CHR ''B'' else ascii CHR ''S''];
          bytes3 = put_u32 20 shares bytes2;
          bytes4 = take 24 bytes3 @ stock_bytes8 @ drop 32 bytes3
      in m1\<lparr>sm_bytes := put_u32 32 (level_price bid level) bytes4\<rparr>)"

definition add_order :: "nat \<Rightarrow> bool \<Rightarrow> synth \<Rightarrow> synth option" where
  "add_order i bid s0 =
     (let (a, s1) = synth_next s0;
          (b, s2) = synth_next s1;
          x = unat a mod price_levels;
          y = unat b mod price_levels;
          level = (if x < y then x else y);
          (c, s3) = synth_next s2;
          shares = 100 * (1 + c mod 5);
          s4 = set_message i (add_message i bid shares level (sy_messages s3 ! i)) s3
      in do {
        _ \<leftarrow> at (sy_live_count s4) (sy_live s4);
        let s5 = s4\<lparr>sy_live := (sy_live s4)[sy_live_count s4 :=
                      \<lparr>lv_reference = of_nat (1000 + i), lv_remaining = shares, lv_level = level, lv_bid = bid\<rparr>],
                    sy_live_count := sy_live_count s4 + 1\<rparr>;
        q \<leftarrow> at level (side_qty bid s5);
        q' \<leftarrow> i32_add q shares;
        Some ((set_side_qty bid level q' s5)\<lparr>sy_adds := sy_adds s5 + 1\<rparr>) })"

definition reduce_message :: "bool \<Rightarrow> nat \<Rightarrow> u64 \<Rightarrow> i32 \<Rightarrow> sim_message \<Rightarrow> sim_message" where
  "reduce_message execute i reference shares m =
     (let m1 = make_header (if execute then ascii CHR ''E'' else ascii CHR ''X'')
                 (if execute then 31 else 23) i m
      in m1\<lparr>sm_bytes := put_u32 19 shares (put_u64 11 reference (sm_bytes m1))\<rparr>)"

text \<open>\<open>reduce_order\<close> after its two draws: the order \<open>o\<close> at \<open>index\<close> loses \<open>shares\<close>.\<close>

definition reduce_at :: "nat \<Rightarrow> bool \<Rightarrow> nat \<Rightarrow> i32 \<Rightarrow> synth \<Rightarrow> synth option" where
  "reduce_at i execute index shares s2 = do {
     ord \<leftarrow> at index (sy_live s2);
     let s3 = set_message i
           (reduce_message execute i (lv_reference ord) shares (sy_messages s2 ! i)) s2;
     q \<leftarrow> at (lv_level ord) (side_qty (lv_bid ord) s3);
     q' \<leftarrow> i32_sub q shares;
     let s4 = set_side_qty (lv_bid ord) (lv_level ord) q' s3;
     left \<leftarrow> i32_sub (lv_remaining ord) shares;
     let s5 = s4\<lparr>sy_live := (sy_live s4)[index := ord\<lparr>lv_remaining := left\<rparr>]\<rparr>;
     let s6 = (if left = 0 then remove_live index s5 else s5);
     Some (if execute then s6\<lparr>sy_executes := sy_executes s6 + 1\<rparr>
           else s6\<lparr>sy_cancels := sy_cancels s6 + 1\<rparr>) }"

definition reduce_order :: "nat \<Rightarrow> bool \<Rightarrow> synth \<Rightarrow> synth option" where
  "reduce_order i execute s0 =
     (if sy_live_count s0 = 0 then None
      else
        let (a, s1) = synth_next s0;
            index = unat a mod sy_live_count s1
        in do {
          ord \<leftarrow> at index (sy_live s1);
          let (b, s2) = synth_next s1;
          let full = (b AND 1 \<noteq> 0);
          reduce_at i execute index
            (if full \<or> lv_remaining ord <=s 100 then lv_remaining ord else 100) s2 })"

definition set_arrival :: "nat \<Rightarrow> u64 \<Rightarrow> synth \<Rightarrow> synth" where
  "set_arrival i a s = set_message i ((sy_messages s ! i)\<lparr>sm_arrival := a\<rparr>) s"

text \<open>One iteration of \<open>generate\<close>, and the loop over the first messages.\<close>

definition generate_message :: "nat \<Rightarrow> synth \<Rightarrow> synth option" where
  "generate_message i s0 =
     (let (r, s1) = synth_next s0;
          pick = r mod 100;
          must_add = (i < 4 \<or> sy_live_count s1 = 0);
          must_reduce = (100 \<le> sy_live_count s1)
      in if must_add \<or> (\<not> must_reduce \<and> pick < 45) then
           if i < 4 then add_order i (even i) s1
           else (let (c, s2) = synth_next s1 in add_order i (c AND 1 = 0) s2)
         else if pick < 80 then reduce_order i True s1
         else reduce_order i False s1)"

fun generate :: "u32 \<Rightarrow> nat \<Rightarrow> (u64 \<times> synth) option" where
  "generate seed 0 = Some (5, synth_new seed)"
| "generate seed (Suc i) = do {
     (arrival, s0) \<leftarrow> generate seed i;
     s1 \<leftarrow> generate_message i s0;
     let s2 = set_arrival i arrival s1;
     let (g, s3) = synth_next s2;
     Some (arrival + ucast (3 + g mod 38), update_quote i s3) }"

definition synthetic_stream :: "u32 \<Rightarrow> synth option" where
  "synthetic_stream seed = map_option snd (generate seed message_count)"

text \<open>The stream the pipeline reads.\<close>

definition synth_itch :: "synth \<Rightarrow> itch_stream" where
  "synth_itch s =
     \<lparr>is_capacity = message_count, is_order_capacity = order_capacity, is_empty_ask = max_i32,
      is_messages = sy_messages s, is_count = message_count\<rparr>"

definition count_of :: "synth \<Rightarrow> u8 \<Rightarrow> nat" where
  "count_of s t = (if t = ascii CHR ''A'' then sy_adds s
     else if t = ascii CHR ''E'' then sy_executes s else sy_cancels s)"

subsection \<open>Bytes\<close>

text \<open>What the writes put into a buffer: the bytes \<open>xs\<close> at offset \<open>off\<close>.\<close>

definition splice :: "nat \<Rightarrow> 'a list \<Rightarrow> 'a list \<Rightarrow> 'a list" where
  "splice off xs p = take off p @ xs @ drop (off + length xs) p"

lemma length_splice [simp]: "off + length xs \<le> length p \<Longrightarrow> length (splice off xs p) = length p"
  by (simp add: splice_def)

lemma take_splice: "off \<le> length p \<Longrightarrow> take (off + length xs) (splice off xs p) = take off p @ xs"
  by (simp add: splice_def)

lemma take_splice_before: "n \<le> off \<Longrightarrow> off \<le> length p \<Longrightarrow> take n (splice off xs p) = take n p"
  by (simp add: splice_def min_absorb1)

lemma drop_splice_after: "off \<le> length p \<Longrightarrow> drop (off + length xs) (splice off xs p) = drop (off + length xs) p"
  by (simp add: splice_def)

lemma update_splice: "off < length p \<Longrightarrow> p[off := x] = splice off [x] p"
  by (simp add: splice_def upd_conv_take_nth_drop)

lemma foldl_splice:
  "off + n \<le> length p \<Longrightarrow> foldl (\<lambda>p i. p[off + i := f i]) p [0..<n] = splice off (map f [0..<n]) p"
proof (induction n)
  case (Suc n)
  then have "drop (off + n) p = p ! (off + n) # drop (Suc (off + n)) p" by (simp add: Cons_nth_drop_Suc)
  with Suc show ?case by (simp add: splice_def list_update_append)
qed (simp add: splice_def)

lemma put_splice:
  "off + 4 \<le> length p \<Longrightarrow> put_u32 off v p = splice off (be_bytes32 v) p"
  "off + 8 \<le> length p \<Longrightarrow> put_u64 off w p = splice off (be_bytes64 w) p"
  unfolding put_u32_def put_u64_def be_bytes32_def be_bytes64_def by (rule foldl_splice; simp)+

lemma make_header_bytes:
  assumes "length (sm_bytes m) = 36"
  shows "length (sm_bytes (make_header t len seq m)) = 36"
    and "\<exists>h. length h = 10 \<and> take 11 (sm_bytes (make_header t len seq m)) = t # h"
    and "sm_length (make_header t len seq m) = of_nat len"
    and "sm_type (make_header t len seq m) = t" "sm_arrival (make_header t len seq m) = sm_arrival m"
proof -
  define b where "b = sm_bytes (make_header t len seq m)"
  have b: "b = splice 7 (be_bytes32 (of_nat seq)) (splice 1 (be_bytes32 1) (splice 0 [t] (sm_bytes m)))"
    using assms by (simp add: b_def make_header_def put_splice update_splice)
  then show len: "length b = 36" using assms by simp
  have "b ! 0 = t" using assms by (simp add: b splice_def nth_append)
  with len have "take 11 b = t # take 10 (tl b)" by (cases b) auto
  then show "\<exists>h. length h = 10 \<and> take 11 b = t # h" using len by (intro exI [of _ "take 10 (tl b)"]) simp
qed (simp_all add: make_header_def)

text \<open>The events the messages carry.\<close>

definition add_event :: "nat \<Rightarrow> bool \<Rightarrow> i32 \<Rightarrow> nat \<Rightarrow> itch_event" where
  "add_event i bid shares level = event_empty\<lparr>ev_type := Add, order_reference := of_nat (1000 + i),
     ev_shares := shares, price_ticks := level_price bid level,
     ev_side := if bid then ascii CHR ''B'' else ascii CHR ''S'', ev_stock := stock_bytes8 @ [0]\<rparr>"

definition reduce_event :: "bool \<Rightarrow> u64 \<Rightarrow> i32 \<Rightarrow> itch_event" where
  "reduce_event execute reference shares = event_empty\<lparr>ev_type := if execute then Executed else Cancel,
     order_reference := reference, ev_shares := shares\<rparr>"

definition sent_bytes :: "sim_message \<Rightarrow> u8 list" where
  "sent_bytes m = take (unat (sm_length m)) (sm_bytes m)"

text \<open>A message that carries an event, from a buffer of 36 bytes.\<close>

definition carries :: "itch_event \<Rightarrow> sim_message \<Rightarrow> bool" where
  "carries e m \<longleftrightarrow> length (sm_bytes m) = 36 \<and> unat (sm_length m) \<le> 36
     \<and> wf_message (sent_bytes m) \<and> decoded (sent_bytes m) = e"

lemma length_stock_bytes8 [simp]: "length stock_bytes8 = 8"
  by (simp add: stock_bytes8_def)

lemma add_message_carries:
  assumes "length (sm_bytes m) = 36"
  shows "carries (add_event i bid shares level) (add_message i bid shares level m)"
proof -
  let ?e = "add_event i bid shares level" and ?m = "add_message i bid shares level m"
  let ?m1 = "make_header (ascii CHR ''A'') 36 i m"
  note h = make_header_bytes [OF assms, of "ascii CHR ''A''" 36 i]
  obtain hd where hd: "length hd = 10" "take 11 (sm_bytes ?m1) = ascii CHR ''A'' # hd" using h(2) by blast
  let ?s = "if bid then ascii CHR ''B'' else ascii CHR ''S''"
  define b1 where "b1 = splice 11 (be_bytes64 (of_nat (1000 + i))) (sm_bytes ?m1)"
  define b2 where "b2 = splice 19 [?s] b1"
  define b3 where "b3 = splice 20 (be_bytes32 shares) b2"
  define b4 where "b4 = splice 24 stock_bytes8 b3"
  define b5 where "b5 = splice 32 (be_bytes32 (level_price bid level)) b4"
  have len: "length b1 = 36" "length b2 = 36" "length b3 = 36" "length b4 = 36" "length b5 = 36"
    using h(1) by (simp_all add: b1_def b2_def b3_def b4_def b5_def)
  have writes: "put_u64 11 (of_nat (1000 + i)) (sm_bytes ?m1) = b1" "b1[19 := ?s] = b2"
    "put_u32 20 shares b2 = b3" "put_u32 32 (level_price bid level) b4 = b5"
    using put_splice(2) [of 11 "sm_bytes ?m1"] update_splice [of 19 b1] put_splice(1) [of 20 b2]
      put_splice(1) [of 32 b4] len h(1) by (simp_all add: b1_def b2_def b3_def b5_def)
  have "take 24 b3 @ stock_bytes8 @ drop 32 b3 = b4" by (simp add: b4_def splice_def)
  with writes have "?m = ?m1\<lparr>sm_bytes := b5\<rparr>" unfolding add_message_def Let_def by (simp only:)
  with h(3) have bytes: "sm_bytes ?m = b5" "sm_length ?m = 36" by simp_all
  have "take 36 b5 = take 32 b4 @ be_bytes32 (level_price bid level)"
    using take_splice [of 32 b4 "be_bytes32 (level_price bid level)"] len by (simp add: b5_def)
  also have "take 32 b4 = take 24 b3 @ stock_bytes8"
    using take_splice [of 24 b3 stock_bytes8] len by (simp add: b4_def)
  also have "take 24 b3 = take 20 b2 @ be_bytes32 shares"
    using take_splice [of 20 b2 "be_bytes32 shares"] len by (simp add: b3_def)
  also have "take 20 b2 = take 19 b1 @ [?s]"
    using take_splice [of 19 b1 "[?s]"] len by (simp add: b2_def)
  also have "take 19 b1 = ascii CHR ''A'' # hd @ be_bytes64 (of_nat (1000 + i))"
    using take_splice [of 11 "sm_bytes ?m1" "be_bytes64 (of_nat (1000 + i))"] h(1) hd(2) by (simp add: b1_def)
  finally have "sent_bytes ?m = itch_message hd ?e []"
    by (simp add: sent_bytes_def bytes itch_message_def message_body_def add_event_def event_empty_def)
  moreover have "carried ?e" "tail_length (ev_type ?e) = 0"
    by (simp_all add: carried_def add_event_def event_empty_def)
  ultimately show ?thesis
    using message_wf [OF hd(1), of ?e "[]"] message_decoded [OF hd(1), of ?e "[]"] bytes len
    by (simp add: carries_def)
qed

lemma reduce_message_carries:
  assumes "length (sm_bytes m) = 36"
  shows "carries (reduce_event execute r shares) (reduce_message execute i r shares m)"
proof -
  let ?t = "if execute then ascii CHR ''E'' else ascii CHR ''X''" and ?l = "if execute then 31 else 23 :: nat"
  let ?e = "reduce_event execute r shares" and ?m = "reduce_message execute i r shares m"
  let ?m1 = "make_header ?t ?l i m"
  note h = make_header_bytes [OF assms, of ?t ?l i]
  obtain hd where hd: "length hd = 10" "take 11 (sm_bytes ?m1) = ?t # hd" using h(2) by blast
  define b1 where "b1 = splice 11 (be_bytes64 r) (sm_bytes ?m1)"
  define b2 where "b2 = splice 19 (be_bytes32 shares) b1"
  have len: "length b1 = 36" "length b2 = 36" using h(1) by (simp_all add: b1_def b2_def)
  have bytes: "sm_bytes ?m = b2" "unat (sm_length ?m) = ?l"
    using h(1,3) len by (simp_all add: reduce_message_def Let_def put_splice b1_def [symmetric]
        b2_def [symmetric])
  have "take 23 b2 = take 19 b1 @ be_bytes32 shares"
    using take_splice [of 19 b1 "be_bytes32 shares"] len by (simp add: b2_def)
  also have "take 19 b1 = ?t # hd @ be_bytes64 r"
    using take_splice [of 11 "sm_bytes ?m1" "be_bytes64 r"] h(1) hd(2) by (simp add: b1_def)
  finally have front: "take 23 b2 = ?t # hd @ be_bytes64 r @ be_bytes32 shares" by simp
  define tail where "tail = (if execute then take 8 (drop 23 b2) else [])"
  have "take ?l b2 = take 23 b2 @ tail"
    using take_add [of 23 8 b2] by (simp add: tail_def)
  with front have "sent_bytes ?m = itch_message hd ?e tail"
    by (simp add: sent_bytes_def bytes itch_message_def message_body_def reduce_event_def event_empty_def)
  moreover have "carried ?e" "length tail = tail_length (ev_type ?e)"
    using len by (simp_all add: carried_def reduce_event_def event_empty_def tail_def)
  ultimately show ?thesis
    using message_wf [OF hd(1), of ?e tail] message_decoded [OF hd(1), of ?e tail] bytes len
    by (simp add: carries_def)
qed

subsection \<open>The resting orders as a multiset\<close>

definition resting_orders :: "synth \<Rightarrow> live_order multiset" where
  "resting_orders s = mset (take (sy_live_count s) (sy_live s))"

definition price_total :: "bool \<Rightarrow> i32 \<Rightarrow> live_order multiset \<Rightarrow> int" where
  "price_total b p M = (\<Sum>e \<in># M. if lv_bid e = b \<and> level_price b (lv_level e) = p
     then sint (lv_remaining e) else 0)"

definition order_ok :: "nat \<Rightarrow> live_order \<Rightarrow> bool" where
  "order_ok n e \<longleftrightarrow> 1000 \<le> unat (lv_reference e) \<and> unat (lv_reference e) < 1000 + n
     \<and> 0 < sint (lv_remaining e) \<and> sint (lv_remaining e) \<le> 500 \<and> lv_level e < price_levels"

definition orders_ok :: "nat \<Rightarrow> live_order multiset \<Rightarrow> bool" where
  "orders_ok n M \<longleftrightarrow> (\<forall>e \<in># M. order_ok n e) \<and> (\<forall>r. count (image_mset lv_reference M) r \<le> 1)
     \<and> size M \<le> 100"

lemma price_total_simps [simp]:
  "price_total b p {#} = 0"
  "price_total b p (add_mset e M) =
     (if lv_bid e = b \<and> level_price b (lv_level e) = p then sint (lv_remaining e) else 0) + price_total b p M"
  by (simp_all add: price_total_def)

lemma price_total_bounds:
  "\<forall>e \<in># M. 0 < sint (lv_remaining e) \<and> sint (lv_remaining e) \<le> 500 \<Longrightarrow>
   0 \<le> price_total b p M \<and> price_total b p M \<le> 500 * int (size M)"
  by (induction M) auto

lemma orders_ok_total:
  assumes "orders_ok n M" shows "0 \<le> price_total b p M" "price_total b p M \<le> 50000"
  using price_total_bounds [of M b p] assms by (auto simp: orders_ok_def order_ok_def)

lemma count_add_le_1:
  "(\<forall>r. count (add_mset a N) r \<le> 1) \<longleftrightarrow> (\<forall>r. count N r \<le> 1) \<and> a \<notin># N"
proof
  assume *: "\<forall>r. count (add_mset a N) r \<le> 1"
  have "count N r \<le> count (add_mset a N) r" for r by simp
  with * have "count N r \<le> 1" for r by (meson order_trans)
  moreover have "Suc (count N a) \<le> 1" using * [rule_format, of a] by simp
  ultimately show "(\<forall>r. count N r \<le> 1) \<and> a \<notin># N" by (simp add: not_in_iff)
next
  assume "(\<forall>r. count N r \<le> 1) \<and> a \<notin># N"
  then show "\<forall>r. count (add_mset a N) r \<le> 1" by (simp add: not_in_iff)
qed

lemma orders_ok_add:
  "orders_ok n (add_mset e M) \<longleftrightarrow> order_ok n e \<and> orders_ok n M \<and> size M < 100
     \<and> lv_reference e \<notin> lv_reference ` set_mset M"
proof -
  have "(\<forall>r. count (image_mset lv_reference (add_mset e M)) r \<le> 1) \<longleftrightarrow>
      (\<forall>r. count (image_mset lv_reference M) r \<le> 1) \<and> lv_reference e \<notin> lv_reference ` set_mset M"
    by (simp only: image_mset_add_mset count_add_le_1 set_image_mset)
  moreover have "Suc (size M) \<le> 100 \<longleftrightarrow> size M \<le> 100 \<and> size M < 100" by linarith
  ultimately show ?thesis
    unfolding orders_ok_def by (simp only: size_add_mset set_mset_add_mset_insert ball_simps) blast
qed

lemma orders_ok_Suc: "orders_ok n M \<Longrightarrow> orders_ok (Suc n) M"
  by (auto simp: orders_ok_def order_ok_def)

text \<open>The array operations of the generator on the multiset.\<close>

lemma mset_take_append:
  "c < length xs \<Longrightarrow> mset (take (Suc c) (xs[c := x])) = add_mset x (mset (take c xs))"
  by (simp add: take_Suc_conv_app_nth)

lemma mset_take_update:
  "i < c \<Longrightarrow> c \<le> length xs \<Longrightarrow> mset (take c (xs[i := x])) = add_mset x (mset (take c xs) - {#xs ! i#})"
  by (simp add: take_update_swap mset_update)

lemma mset_take_remove:
  assumes "i < c" "c \<le> length xs"
  shows "mset (take (c - 1) (xs[i := xs ! (c - 1)])) = mset (take c xs) - {#xs ! i#}"
proof -
  obtain d where d: "c = Suc d" using assms(1) by (cases c) auto
  have all: "mset (take c xs) = add_mset (xs ! d) (mset (take d xs))"
    using assms d by (simp add: take_Suc_conv_app_nth)
  show ?thesis
  proof (cases "i = d")
    case True
    with all d show ?thesis by simp
  next
    case False
    with assms d have i: "i < d" by simp
    then have "xs ! i \<in># mset (take d xs)"
      using assms d by (auto simp: in_set_conv_nth intro!: exI [of _ i])
    with mset_take_update [OF i, of xs "xs ! d"] all assms d show ?thesis by simp
  qed
qed

lemma nth_resting_orders:
  "i < sy_live_count s \<Longrightarrow> sy_live_count s \<le> length (sy_live s) \<Longrightarrow> sy_live s ! i \<in># resting_orders s"
  by (auto simp: resting_orders_def in_set_conv_nth intro!: exI [of _ i])

lemma size_resting_orders:
  "sy_live_count s \<le> length (sy_live s) \<Longrightarrow> size (resting_orders s) = sy_live_count s"
  by (simp add: resting_orders_def)

subsection \<open>Prices\<close>

lemma level_cases: "l < price_levels \<Longrightarrow> l = 0 \<or> l = 1 \<or> l = 2 \<or> l = 3 \<or> l = 4"
  by (auto simp: price_levels_def)

lemma sint_level_price:
  "l < price_levels \<Longrightarrow>
   sint (level_price b l) = (if b then 1892500 - 100 * int l else 1893000 + 100 * int l)"
  using level_cases [of l]
  by (auto simp: level_price_def base_bid_def base_ask_def tick_def)

lemma level_price_inject:
  assumes "l < price_levels" "l' < price_levels"
  shows "level_price b l = level_price b l' \<longleftrightarrow> l = l'"
  using sint_level_price [OF assms(1), of b] sint_level_price [OF assms(2), of b]
  by (auto split: if_splits)

subsection \<open>The order table and the book hold the resting orders\<close>

definition resting_entry :: "live_order \<Rightarrow> bool \<times> i32 \<times> int" where
  "resting_entry e = (lv_bid e, level_price (lv_bid e) (lv_level e), sint (lv_remaining e))"

definition book_holds :: "live_order multiset \<Rightarrow> order_table \<Rightarrow> order_book \<Rightarrow> bool" where
  "book_holds M orders book \<longleftrightarrow>
     table_inv orders \<and> length orders = order_capacity
     \<and> dom (table_view orders) = lv_reference ` set_mset M
     \<and> (\<forall>e \<in># M. table_view orders (lv_reference e) = Some (resting_entry e))
     \<and> book_positive book \<and> ob_overflow book = 0
     \<and> (\<forall>b p. resting (book_view b book) p = price_total b p M)"

lemma book_view_positive: "book_positive book \<Longrightarrow> ladder_positive (book_view b book)"
  by (simp add: book_positive_def book_view_def)

lemma positive_dom: "ladder_positive v \<Longrightarrow> p \<in> dom v \<longleftrightarrow> resting v p \<noteq> 0"
  by (auto simp: ladder_positive_def resting_def split: option.splits)

lemma price_total_level:
  "price_total b p M \<noteq> 0 \<Longrightarrow> \<forall>e \<in># M. lv_level e < price_levels \<Longrightarrow>
   p \<in> level_price b ` {..<price_levels}"
  by (induction M) (auto split: if_splits)

text \<open>A book that holds the resting orders has room for each of their prices.\<close>

lemma book_holds_room:
  assumes "book_holds M orders book" "orders_ok n M" "l < price_levels"
  shows "book_view b book (level_price b l) \<noteq> None
    \<or> card (dom (book_view b book)) < levels"
proof (rule disjCI)
  assume "\<not> card (dom (book_view b book)) < levels"
  have "dom (book_view b book) \<subseteq> level_price b ` {..<price_levels}"
  proof
    fix p assume "p \<in> dom (book_view b book)"
    then have "price_total b p M \<noteq> 0"
      using assms(1) positive_dom [OF book_view_positive, of book p b] by (simp add: book_holds_def)
    moreover have "\<forall>e \<in># M. lv_level e < price_levels"
      using assms(2) by (auto simp: orders_ok_def order_ok_def)
    ultimately show "p \<in> level_price b ` {..<price_levels}" by (rule price_total_level)
  qed
  moreover have "card (level_price b ` {..<price_levels}) = price_levels"
    by (subst card_image) (auto simp: inj_on_def level_price_inject)
  ultimately have "dom (book_view b book) = level_price b ` {..<price_levels}"
    using \<open>\<not> card (dom (book_view b book)) < levels\<close>
    by (intro card_seteq) (auto simp: levels_def price_levels_def)
  with assms(3) show "book_view b book (level_price b l) \<noteq> None" by auto
qed

lemma book_add_room:
  assumes "book_add bid p q b = Some b'" "book_positive b"
    and "book_view bid b p \<noteq> None \<or> card (dom (book_view bid b)) < levels"
  shows "ob_overflow b' = ob_overflow b"
proof -
  obtain s d where s: "side_add p q (if bid then ob_bids b else ob_asks b) = Some (s, d)"
    "b' = (let b1 = (if bid then b\<lparr>ob_bids := s\<rparr> else b\<lparr>ob_asks := s\<rparr>)
           in if d then b1\<lparr>ob_overflow := ob_overflow b1 + 1\<rparr> else b1)"
    using assms(1) by (auto simp: book_add_def Let_def split: bind_splits)
  have "side_inv (if bid then ob_bids b else ob_asks b)"
    using assms(2) by (simp add: book_positive_def book_inv_def)
  from bids.add_SomeD(1) [OF this s(1)] assms(3) have "\<not> d"
    by (auto simp: book_view_def side_room_def)
  with s(2) show ?thesis by (simp add: Let_def)
qed

lemma card_image_mset_le: "card (f ` set_mset M) \<le> size M"
  by (induction M) (auto simp: card_insert_if)

lemma insert_holds:
  assumes holds: "book_holds M orders book" and ok: "orders_ok n (add_mset e M)"
  shows "\<exists>orders' book'. apply_insert (lv_reference e) (lv_bid e) (level_price (lv_bid e) (lv_level e))
      (lv_remaining e) orders book = Some (True, orders', book') \<and> book_holds (add_mset e M) orders' book'"
proof -
  let ?r = "lv_reference e" and ?b = "lv_bid e" and ?p = "level_price (lv_bid e) (lv_level e)"
    and ?q = "lv_remaining e"
  have e: "orders_ok n M" "0 < sint ?q" "sint ?q \<le> 500" "lv_level e < price_levels" "size M < 100"
    "?r \<notin> lv_reference ` set_mset M"
    using ok by (auto simp: orders_ok_add order_ok_def)
  have t: "table_inv orders" "length orders = order_capacity"
    "dom (table_view orders) = lv_reference ` set_mset M"
    "\<And>f. f \<in># M \<Longrightarrow> table_view orders (lv_reference f) = Some (resting_entry f)"
    "book_positive book" "ob_overflow book = 0" "\<And>b p. resting (book_view b book) p = price_total b p M"
    using holds by (simp_all add: book_holds_def)
  have "card (dom (table_view orders)) \<le> size M"
    unfolding t(3) by (rule card_image_mset_le)
  then have "card (dom (table_view orders)) < length orders" using e(5) t(2) by (simp add: order_capacity_def)
  moreover have "table_view orders ?r = None" using e(6) t(3) by auto
  ultimately obtain orders' where ins: "table_insert ?r ?b ?p ?q orders = (True, orders')"
    "table_inv orders'" "length orders' = length orders"
    "table_view orders' = (table_view orders)(?r \<mapsto> (?b, ?p, sint ?q))"
    using table.insert_ok [OF t(1), of ?r ?b ?p ?q] by blast
  have "\<forall>bid p. resting (book_view bid book) p + sint ?q < 2 ^ 31"
  proof (intro allI)
    fix bid p
    show "resting (book_view bid book) p + sint ?q < 2 ^ 31"
      using t(7) [of bid p] orders_ok_total(2) [OF e(1), of bid p] e(3) by simp
  qed
  from book_add_accounts [OF t(5) e(2) this, of ?b ?p] obtain book' k where
    add: "book_add ?b ?p ?q book = Some book'" "book_positive book'" "k \<le> 1"
      "ob_overflow book' = ob_overflow book + of_nat k"
    and rest: "\<forall>bid' p'. resting (book_view bid' book') p'
      = resting (book_view bid' book) p' + (if ?b = bid' \<and> ?p = p' \<and> k = 0 then sint ?q else 0)"
    by blast
  have over: "ob_overflow book' = ob_overflow book"
    by (rule book_add_room [OF add(1) t(5) book_holds_room [OF holds e(1,4)]])
  with add(3,4) have "k = 0" by (cases k) auto
  with rest t(7) have "resting (book_view b book') p = price_total b p (add_mset e M)" for b p by auto
  moreover have "table_view orders' (lv_reference f) = Some (resting_entry f)" if "f \<in># add_mset e M" for f
  proof (cases "f = e")
    case False
    with that have f: "f \<in># M" by simp
    with e(6) have "lv_reference f \<noteq> ?r" by (metis image_eqI)
    then show ?thesis using t(4) [OF f] ins(4) by simp
  qed (use ins(4) in \<open>simp add: resting_entry_def\<close>)
  moreover have "dom (table_view orders') = lv_reference ` set_mset (add_mset e M)"
    using t(3) ins(4) by auto
  ultimately have "book_holds (add_mset e M) orders' book'"
    using ins(2,3) t(2,6) add(2) over unfolding book_holds_def by auto
  moreover have "apply_insert ?r ?b ?p ?q orders book = Some (True, orders', book')"
    using ins(1) add(1) by (simp add: apply_insert_def)
  ultimately show ?thesis by blast
qed

text \<open>What is left of an order after a reduction.\<close>

definition remainder :: "live_order \<Rightarrow> i32 \<Rightarrow> live_order multiset" where
  "remainder e n = (if sint n = sint (lv_remaining e) then {#} else {#e\<lparr>lv_remaining := lv_remaining e - n\<rparr>#})"

lemma remaining_diff:
  "0 < sint n \<Longrightarrow> sint n \<le> sint m \<Longrightarrow> sint (m - n :: i32) = sint m - sint n"
  by (rule sint_i32_sub) (use sint_less [of m] in \<open>simp add: fits_i32_def\<close>)

lemma price_total_union [simp]: "price_total b p (M + N) = price_total b p M + price_total b p N"
  by (simp add: price_total_def)

lemma price_total_remainder:
  assumes "0 < sint n" "sint n \<le> sint (lv_remaining e)"
  shows "price_total b p (remainder e n)
    = (if lv_bid e = b \<and> level_price b (lv_level e) = p then sint (lv_remaining e) - sint n else 0)"
  using assms by (simp add: remainder_def remaining_diff)

lemma orders_ok_remainder:
  assumes "orders_ok n (add_mset e M)" "0 < sint q" "sint q \<le> sint (lv_remaining e)"
  shows "orders_ok n (M + remainder e q)"
proof (cases "sint q = sint (lv_remaining e)")
  case False
  then have "0 < sint (lv_remaining e - q)" "sint (lv_remaining e - q) \<le> sint (lv_remaining e)"
    using assms by (simp_all add: remaining_diff)
  with assms False show ?thesis by (auto simp: remainder_def orders_ok_add order_ok_def)
qed (use assms in \<open>simp add: remainder_def orders_ok_add\<close>)

text \<open>The book after the execution of an order: the rest of the order and the other ones.\<close>

lemma execute_rests:
  assumes ok: "orders_ok n (add_mset e M)" and q: "0 < sint q" "sint q \<le> sint (lv_remaining e)"
    and book: "book_positive book" "\<And>b p. resting (book_view b book) p = price_total b p (add_mset e M)"
  shows "\<exists>book'. book_execute (lv_bid e) (level_price (lv_bid e) (lv_level e)) q book = Some book'
    \<and> book_positive book' \<and> ob_overflow book' = ob_overflow book
    \<and> (\<forall>b p. resting (book_view b book') p = price_total b p (M + remainder e q))"
proof -
  let ?b = "lv_bid e" and ?p = "level_price (lv_bid e) (lv_level e)"
  obtain book' where
    exe: "book_execute ?b ?p q book = Some book'" "book_positive book'" "ob_overflow book' = ob_overflow book"
    and rest: "\<forall>bid' p'. resting (book_view bid' book') p' = (if ?b = bid' \<and> ?p = p'
        then max 0 (resting (book_view bid' book) p' - sint q) else resting (book_view bid' book) p')"
    using book_execute_accounts [OF book(1) q(1), of ?b ?p] by blast
  have nonneg: "0 \<le> price_total b p M" for b p
    using ok orders_ok_total(1) [of n M b p] by (simp add: orders_ok_add)
  have "resting (book_view b book') p = price_total b p (M + remainder e q)" for b p
  proof (cases "?b = b \<and> ?p = p")
    case True
    then have "resting (book_view b book') p = max 0 (sint (lv_remaining e) + price_total b p M - sint q)"
      using rest book(2) [of b p] by auto
    with nonneg [of b p] q True show ?thesis by (auto simp: price_total_remainder max_def)
  next
    case False
    with rest have "resting (book_view b book') p = resting (book_view b book) p" by auto
    with False book(2) [of b p] q show ?thesis
      by (cases b; cases "lv_bid e") (auto simp: price_total_remainder)
  qed
  with exe show ?thesis by blast
qed

lemma reduce_holds:
  assumes holds: "book_holds (add_mset e M) orders book" and ok: "orders_ok n (add_mset e M)"
    and q: "0 < sint q" "sint q \<le> sint (lv_remaining e)"
  shows "\<exists>orders' book'. apply_reduce (lv_reference e) q orders book
      = Some ((True, lv_bid e), orders', book') \<and> book_holds (M + remainder e q) orders' book'"
proof -
  let ?r = "lv_reference e" and ?b = "lv_bid e" and ?p = "level_price (lv_bid e) (lv_level e)"
    and ?m = "sint (lv_remaining e)"
  have fresh: "?r \<notin> lv_reference ` set_mset M" using ok by (simp add: orders_ok_add)
  have t: "table_inv orders" "length orders = order_capacity"
    "dom (table_view orders) = insert ?r (lv_reference ` set_mset M)"
    "\<And>f. f \<in># add_mset e M \<Longrightarrow> table_view orders (lv_reference f) = Some (resting_entry f)"
    "book_positive book" "ob_overflow book = 0"
    "\<And>b p. resting (book_view b book) p = price_total b p (add_mset e M)"
    using holds by (auto simp: book_holds_def)
  have entry: "table_view orders ?r = Some (?b, ?p, ?m)" using t(4) [of e] by (simp add: resting_entry_def)
  have min: "min (sint q) ?m = sint q" using q(2) by simp
  have "fits_i32 (?m - min (sint q) ?m)" using q sint_less [of "lv_remaining e"] by (simp add: fits_i32_def)
  from table.reduce_known [OF t(1) entry this] obtain a orders' where
    red: "table_reduce ?r q orders = Some (Some (?b, ?p, a), orders')" "sint a = sint q"
      "table_inv orders'" "length orders' = length orders"
      "table_view orders' = (if ?m - sint q \<le> 0 then (table_view orders)(?r := None)
                      else (table_view orders)(?r \<mapsto> (?b, ?p, ?m - sint q)))"
    unfolding min by blast
  from red(2) have a: "a = q" by (simp add: sint_inject_i32 [symmetric])
  obtain book' where exe: "book_execute ?b ?p q book = Some book'" "book_positive book'"
      "ob_overflow book' = ob_overflow book" "\<And>b p. resting (book_view b book') p = price_total b p (M + remainder e q)"
    using execute_rests [OF ok q t(5,7)] by blast
  have "table_view orders' (lv_reference f) = Some (resting_entry f)"
    if "f \<in># M + remainder e q" for f
  proof (cases "f \<in># M")
    case True
    with fresh have "lv_reference f \<noteq> ?r" by (metis image_eqI)
    then show ?thesis using t(4) [of f] True red(5) by simp
  next
    case False
    with that have "f \<in># remainder e q" by simp
    then show ?thesis using red(5) q
      by (auto simp: remainder_def resting_entry_def remaining_diff split: if_splits)
  qed
  moreover have "dom (table_view orders') = lv_reference ` set_mset (M + remainder e q)"
    using t(3) red(5) q fresh by (auto simp: remainder_def)
  ultimately have "book_holds (M + remainder e q) orders' book'"
    using red(3,4) t(2,6) exe(2-4) unfolding book_holds_def by auto
  moreover have "apply_reduce ?r q orders book = Some ((True, ?b), orders', book')"
    using red(1) exe(1) a by (simp add: apply_reduce_def)
  ultimately show ?thesis by blast
qed

subsection \<open>The events on the table and the book\<close>

lemma apply_add_event:
  "apply_event (add_event i bid shares level) orders book
   = apply_insert (of_nat (1000 + i)) bid (level_price bid level) shares orders book"
  by (simp add: apply_event_def add_event_def)

lemma apply_reduce_event:
  "apply_event (reduce_event execute r shares) orders book
   = map_option (apfst fst) (apply_reduce r shares orders book)"
  by (simp add: apply_event_def reduce_event_def)

subsection \<open>The invariant of the generator\<close>

text \<open>Before message \<open>i\<close>.\<close>

definition synth_inv :: "nat \<Rightarrow> synth \<Rightarrow> bool" where
  "synth_inv i s \<longleftrightarrow>
     length (sy_messages s) = message_count \<and> (\<forall>m \<in> set (sy_messages s). length (sm_bytes m) = 36)
     \<and> length (sy_quotes s) = message_count \<and> length (sy_live s) = 128 \<and> sy_live_count s \<le> i
     \<and> sy_live_count s \<le> 100 \<and> orders_ok i (resting_orders s)
     \<and> (\<forall>b. length (side_qty b s) = price_levels)
     \<and> (\<forall>b. \<forall>l < price_levels. sint (side_qty b s ! l) = price_total b (level_price b l) (resting_orders s))
     \<and> sy_adds s + sy_executes s + sy_cancels s = i"

text \<open>What the writes change.\<close>

lemma set_message_fields [simp]:
  "sy_messages (set_message i m s) = (sy_messages s)[i := m]" "sy_quotes (set_message i m s) = sy_quotes s"
  "sy_live (set_message i m s) = sy_live s" "sy_live_count (set_message i m s) = sy_live_count s"
  "side_qty b (set_message i m s) = side_qty b s" "sy_rng (set_message i m s) = sy_rng s"
  "sy_adds (set_message i m s) = sy_adds s" "sy_executes (set_message i m s) = sy_executes s"
  "sy_cancels (set_message i m s) = sy_cancels s"
  by (simp_all add: set_message_def side_qty_def)

lemma set_side_qty_fields [simp]:
  "sy_messages (set_side_qty b l q s) = sy_messages s" "sy_quotes (set_side_qty b l q s) = sy_quotes s"
  "sy_live (set_side_qty b l q s) = sy_live s" "sy_live_count (set_side_qty b l q s) = sy_live_count s"
  "side_qty b' (set_side_qty b l q s) = (if b' = b then (side_qty b s)[l := q] else side_qty b' s)"
  "sy_adds (set_side_qty b l q s) = sy_adds s" "sy_executes (set_side_qty b l q s) = sy_executes s"
  "sy_cancels (set_side_qty b l q s) = sy_cancels s"
  by (simp_all add: set_side_qty_def side_qty_def)

lemma side_qty_update [simp]:
  "side_qty b (s\<lparr>sy_rng := r\<rparr>) = side_qty b s" "side_qty b (s\<lparr>sy_live := es\<rparr>) = side_qty b s"
  "side_qty b (s\<lparr>sy_live_count := c\<rparr>) = side_qty b s" "side_qty b (s\<lparr>sy_adds := n\<rparr>) = side_qty b s"
  "side_qty b (s\<lparr>sy_executes := n\<rparr>) = side_qty b s" "side_qty b (s\<lparr>sy_cancels := n\<rparr>) = side_qty b s"
  "side_qty b (s\<lparr>sy_quotes := qs\<rparr>) = side_qty b s" "side_qty b (s\<lparr>sy_messages := ms\<rparr>) = side_qty b s"
  by (simp_all add: side_qty_def)

lemma synth_inv_rng [simp]: "synth_inv i (s\<lparr>sy_rng := r\<rparr>) = synth_inv i s"
  by (simp add: synth_inv_def resting_orders_def)

text \<open>One message: the event it carries, and the rest of the state.\<close>

definition message_step :: "nat \<Rightarrow> synth \<Rightarrow> synth \<Rightarrow> bool" where
  "message_step i s s' \<longleftrightarrow> synth_inv (Suc i) s' \<and> sy_quotes s' = sy_quotes s
     \<and> (\<forall>j. j \<noteq> i \<longrightarrow> sy_messages s' ! j = sy_messages s ! j)
     \<and> (\<exists>e. carries e (sy_messages s' ! i) \<and> (\<forall>orders book. book_holds (resting_orders s) orders book \<longrightarrow>
          (\<exists>orders' book'. apply_event e orders book = Some (True, orders', book')
             \<and> book_holds (resting_orders s') orders' book')))"

lemma message_step_rng [simp]: "message_step i (s\<lparr>sy_rng := r\<rparr>) s' = message_step i s s'"
  by (simp add: message_step_def resting_orders_def)

lemma lot_bounds:
  "0 < sint (100 * (1 + c mod 5) :: i32)" "sint (100 * (1 + c mod 5) :: i32) \<le> 500"
proof -
  define d where "d = c mod 5"
  have "unat d < 5" by (simp add: d_def unat_mod)
  then have "unat d = 0 \<or> unat d = 1 \<or> unat d = 2 \<or> unat d = 3 \<or> unat d = 4" by linarith
  then have "d = 0 \<or> d = 1 \<or> d = 2 \<or> d = 3 \<or> d = 4"
    by (simp add: word_unat_eq_iff)
  then show "0 < sint (100 * (1 + c mod 5) :: i32)" "sint (100 * (1 + c mod 5) :: i32) \<le> 500"
    unfolding d_def [symmetric] by auto
qed

text \<open>What \<open>add_order\<close> writes, for any level and share count it draws.\<close>

lemma add_order_run:
  assumes room: "sy_live_count s < length (sy_live s)" and qty: "length (side_qty bid s) = price_levels"
    and fits: "\<And>l q. l < price_levels \<Longrightarrow> 0 < sint q \<Longrightarrow> sint q \<le> 500 \<Longrightarrow>
      fits_i32 (sint (side_qty bid s ! l) + sint (q :: i32))"
  shows "\<exists>level shares s'. add_order i bid s = Some s' \<and> level < price_levels \<and> 0 < sint shares \<and> sint shares \<le> 500
    \<and> sy_messages s' = (sy_messages s)[i := add_message i bid shares level (sy_messages s ! i)]
    \<and> sy_quotes s' = sy_quotes s
    \<and> (\<forall>b. side_qty b s' = (if b = bid then (side_qty b s)[level := side_qty b s ! level + shares] else side_qty b s))
    \<and> sy_live_count s' = sy_live_count s + 1
    \<and> sy_live s' = (sy_live s)[sy_live_count s :=
        \<lparr>lv_reference = of_nat (1000 + i), lv_remaining = shares, lv_level = level, lv_bid = bid\<rparr>]
    \<and> sy_adds s' = sy_adds s + 1 \<and> sy_executes s' = sy_executes s \<and> sy_cancels s' = sy_cancels s"
proof -
  obtain a b c where rng: "synth_next s = (a, s\<lparr>sy_rng := a\<rparr>)"
    "synth_next (s\<lparr>sy_rng := a\<rparr>) = (b, s\<lparr>sy_rng := b\<rparr>)" "synth_next (s\<lparr>sy_rng := b\<rparr>) = (c, s\<lparr>sy_rng := c\<rparr>)"
    by (simp add: synth_next_def)
  define level where "level = (if unat a mod price_levels < unat b mod price_levels
    then unat a mod price_levels else unat b mod price_levels)"
  define shares :: i32 where "shares = 100 * (1 + c mod 5)"
  have level: "level < price_levels" by (simp add: level_def price_levels_def)
  have shares: "0 < sint shares" "sint shares \<le> 500" unfolding shares_def by (rule lot_bounds)+
  have add: "i32_add (side_qty bid s ! level) shares = Some (side_qty bid s ! level + shares)"
    using fits [OF level shares] by (simp add: i32_add_def)
  define s' where "s' = (set_side_qty bid level (side_qty bid s ! level + shares)
    ((set_message i (add_message i bid shares level (sy_messages s ! i)) (s\<lparr>sy_rng := c\<rparr>))
      \<lparr>sy_live := (sy_live s)[sy_live_count s :=
        \<lparr>lv_reference = of_nat (1000 + i), lv_remaining = shares, lv_level = level, lv_bid = bid\<rparr>],
       sy_live_count := sy_live_count s + 1\<rparr>))\<lparr>sy_adds := sy_adds s + 1\<rparr>"
  have "add_order i bid s = Some s'"
    unfolding add_order_def rng Let_def prod.case level_def [symmetric] shares_def [symmetric]
    using room qty level add by (simp add: at_def s'_def)
  with level shares show ?thesis by (intro exI [of _ level] exI [of _ shares] exI [of _ s']) (simp add: s'_def)
qed

lemma orders_ok_fresh:
  assumes "orders_ok i M" "size M < 100" "order_ok (Suc i) e" "unat (lv_reference e) = 1000 + i"
  shows "orders_ok (Suc i) (add_mset e M)"
proof -
  have "unat (lv_reference f) < 1000 + i" if "f \<in># M" for f
    using assms(1) that by (auto simp: orders_ok_def order_ok_def)
  with assms(4) have "lv_reference e \<notin> lv_reference ` set_mset M" by fastforce
  with assms(2,3) orders_ok_Suc [OF assms(1)] show ?thesis by (simp only: orders_ok_add simp_thms)
qed

lemma add_order_step:
  assumes inv: "synth_inv i s" and i: "i < message_count" and room: "sy_live_count s < 100"
  shows "\<exists>s'. add_order i bid s = Some s' \<and> message_step i s s'"
proof -
  define n where "n = sy_live_count s"
  have parts: "length (sy_messages s) = message_count" "length (sy_live s) = 128" "n \<le> i" "n < 100"
    "length (side_qty bid s) = price_levels" "orders_ok i (resting_orders s)"
    "\<And>b l. l < price_levels \<Longrightarrow> sint (side_qty b s ! l) = price_total b (level_price b l) (resting_orders s)"
    "length (sm_bytes (sy_messages s ! i)) = 36"
    using inv i room by (auto simp: synth_inv_def n_def)
  have fits: "fits_i32 (sint (side_qty bid s ! l) + sint (q :: i32))"
    if "l < price_levels" "0 < sint q" "sint q \<le> 500" for l q
    using parts(7) [OF that(1), of bid] orders_ok_total [OF parts(6), of bid "level_price bid l"] that(2,3)
    by (simp add: fits_i32_def)
  obtain level shares s' where run: "add_order i bid s = Some s'"
    and level: "level < price_levels" and shares: "0 < sint shares" "sint shares \<le> 500"
    and fields: "sy_messages s' = (sy_messages s)[i := add_message i bid shares level (sy_messages s ! i)]"
      "sy_quotes s' = sy_quotes s"
      "\<And>b. side_qty b s' = (if b = bid then (side_qty b s)[level := side_qty b s ! level + shares] else side_qty b s)"
      "sy_live_count s' = n + 1"
      "sy_live s' = (sy_live s)[n :=
        \<lparr>lv_reference = of_nat (1000 + i), lv_remaining = shares, lv_level = level, lv_bid = bid\<rparr>]"
      "sy_adds s' = sy_adds s + 1" "sy_executes s' = sy_executes s" "sy_cancels s' = sy_cancels s"
    using add_order_run [OF _ parts(5) fits, of i] parts(2) room unfolding n_def by auto
  define e where "e = \<lparr>lv_reference = of_nat (1000 + i), lv_remaining = shares, lv_level = level, lv_bid = bid\<rparr>"
  have resting: "resting_orders s' = add_mset e (resting_orders s)"
    using mset_take_append [of n "sy_live s" e] parts(2,4)
    by (simp add: resting_orders_def fields n_def e_def)
  have ref: "unat (lv_reference e) = 1000 + i"
    unfolding e_def live_order.simps
    using i by (intro unat_of_nat_u64) (simp add: message_count_def)
  have "order_ok (Suc i) e" using ref shares level by (simp add: order_ok_def e_def)
  moreover have "size (resting_orders s) < 100" using parts(2,4) by (simp add: size_resting_orders n_def)
  ultimately have ok: "orders_ok (Suc i) (add_mset e (resting_orders s))"
    using orders_ok_fresh [OF parts(6) _ _ ref] by blast
  have "synth_inv (Suc i) s'"
    using inv ok parts level sint_i32_add [OF fits [OF level shares]] add_message_carries [OF parts(8), of i bid shares level]
    unfolding synth_inv_def resting
    by (auto simp: fields n_def nth_list_update carries_def level_price_inject e_def
        dest!: set_update_subset_insert [THEN subsetD])
  moreover have "carries (add_event i bid shares level) (sy_messages s' ! i)"
    using add_message_carries [OF parts(8)] parts(1) i by (simp add: fields)
  moreover have "\<exists>orders' book'. apply_event (add_event i bid shares level) orders book
      = Some (True, orders', book') \<and> book_holds (resting_orders s') orders' book'"
    if "book_holds (resting_orders s) orders book" for orders book
    using insert_holds [OF that ok] unfolding resting apply_add_event by (simp add: e_def)
  ultimately have "message_step i s s'"
    unfolding message_step_def by (intro conjI exI [of _ "add_event i bid shares level"]) (simp_all add: fields)
  with run show ?thesis by blast
qed

text \<open>Replacing or removing the order at an index.\<close>

lemma resting_orders_reduced:
  assumes i: "i < n" "n \<le> length es" and q: "0 < sint q" "sint q \<le> sint (lv_remaining (es ! i))"
    and left: "left = lv_remaining (es ! i) - q"
    and es': "es' = es[i := (es ! i)\<lparr>lv_remaining := left\<rparr>]"
  shows "mset (if left = 0 then take (n - 1) (es'[i := es' ! (n - 1)]) else take n es')
    = (mset (take n es) - {#es ! i#}) + remainder (es ! i) q"
proof -
  have zero: "left = 0 \<longleftrightarrow> sint q = sint (lv_remaining (es ! i))"
    using left remaining_diff [OF q] sint_inject_i32 [of left 0] by auto
  have upd: "mset (take n es') = add_mset ((es ! i)\<lparr>lv_remaining := left\<rparr>) (mset (take n es) - {#es ! i#})"
    unfolding es' by (rule mset_take_update [OF i])
  have "mset (take (n - 1) (es'[i := es' ! (n - 1)])) = mset (take n es') - {#es' ! i#}"
    by (rule mset_take_remove) (use i es' in simp_all)
  also have "es' ! i = (es ! i)\<lparr>lv_remaining := left\<rparr>" using i es' by simp
  finally show ?thesis using upd zero left by (simp add: remainder_def)
qed

lemma reduce_at_run:
  assumes "at k (sy_live s) = Some e" "at (lv_level e) (side_qty (lv_bid e) s) = Some q"
    and "i32_sub q shares = Some q'" "i32_sub (lv_remaining e) shares = Some left"
    and "es = (sy_live s)[k := e\<lparr>lv_remaining := left\<rparr>]"
  shows "\<exists>s'. reduce_at i execute k shares s = Some s'
    \<and> sy_messages s' = (sy_messages s)[i := reduce_message execute i (lv_reference e) shares (sy_messages s ! i)]
    \<and> sy_quotes s' = sy_quotes s
    \<and> (\<forall>b. side_qty b s' = (if b = lv_bid e then (side_qty b s)[lv_level e := q'] else side_qty b s))
    \<and> sy_live_count s' = (if left = 0 then sy_live_count s - 1 else sy_live_count s)
    \<and> sy_live s' = (if left = 0 then es[k := es ! (sy_live_count s - 1)] else es)
    \<and> sy_adds s' + sy_executes s' + sy_cancels s' = Suc (sy_adds s + sy_executes s + sy_cancels s)"
proof -
  define m where "m = reduce_message execute i (lv_reference e) shares (sy_messages s ! i)"
  define s5 where "s5 = set_side_qty (lv_bid e) (lv_level e) q' (set_message i m s)\<lparr>sy_live := es\<rparr>"
  define s6 where "s6 = (if left = 0 then remove_live k s5 else s5)"
  have run: "reduce_at i execute k shares s
      = Some (if execute then s6\<lparr>sy_executes := sy_executes s6 + 1\<rparr> else s6\<lparr>sy_cancels := sy_cancels s6 + 1\<rparr>)"
    using assms by (simp add: reduce_at_def Let_def m_def s5_def s6_def)
  show ?thesis
    unfolding run m_def [symmetric] by (intro exI conjI) (rule refl, simp_all add: s6_def s5_def remove_live_def)
qed

text \<open>The subtractions of a reduction do not overflow.\<close>

lemma reduce_at_defined:
  assumes "orders_ok i (add_mset e M)" "0 < sint shares" "sint shares \<le> sint (lv_remaining e)"
    and q: "sint q = sint (lv_remaining e) + price_total b p M"
  shows "i32_sub q shares = Some (q - shares) \<and> sint (q - shares) = sint q - sint shares
    \<and> i32_sub (lv_remaining e) shares = Some (lv_remaining e - shares)"
proof -
  have e: "0 < sint (lv_remaining e)" "sint (lv_remaining e) \<le> 500" and M: "orders_ok i M"
    using assms(1) by (simp_all add: orders_ok_add order_ok_def)
  have fits: "fits_i32 (sint q - sint shares)" "fits_i32 (sint (lv_remaining e) - sint shares)"
    using orders_ok_total [OF M, of b p] assms(2,3) e q by (simp_all add: fits_i32_def)
  then show ?thesis using sint_i32_sub [OF fits(1)] by (simp add: i32_sub_def)
qed

lemma reduce_at_step:
  assumes inv: "synth_inv i s" and i: "i < message_count" and k: "k < sy_live_count s"
    and e_def: "e = sy_live s ! k" and shares: "0 < sint shares" "sint shares \<le> sint (lv_remaining e)"
  shows "\<exists>s'. reduce_at i execute k shares s = Some s' \<and> message_step i s s'"
proof -
  define n where "n = sy_live_count s"
  define m where "m = reduce_message execute i (lv_reference e) shares (sy_messages s ! i)"
  define q where "q = side_qty (lv_bid e) s ! lv_level e"
  define left where "left = lv_remaining e - shares"
  define es where "es = (sy_live s)[k := e\<lparr>lv_remaining := left\<rparr>]"
  have k: "k < n" "n \<le> 100" "length (sy_live s) = 128" "n \<le> i"
    using inv k by (simp_all add: n_def synth_inv_def)
  define M where "M = resting_orders s - {#e#}"
  have M: "resting_orders s = add_mset e M"
    using nth_resting_orders [of k s] k by (simp add: M_def e_def n_def)
  have parts: "length (sy_messages s) = message_count" "\<And>b. length (side_qty b s) = price_levels"
    "orders_ok i (add_mset e M)" "length (sm_bytes (sy_messages s ! i)) = 36"
    "\<And>b l. l < price_levels \<Longrightarrow> sint (side_qty b s ! l) = price_total b (level_price b l) (add_mset e M)"
    using inv i unfolding synth_inv_def M by auto
  then have level: "lv_level e < price_levels" by (simp add: orders_ok_add order_ok_def)
  have sint_q: "sint q = sint (lv_remaining e) + price_total (lv_bid e) (level_price (lv_bid e) (lv_level e)) M"
    using parts(5) [OF level, of "lv_bid e"] by (simp add: q_def)
  note subs = reduce_at_defined [OF parts(3) shares sint_q]
  have at: "at k (sy_live s) = Some e" "at (lv_level e) (side_qty (lv_bid e) s) = Some q"
    using k level parts(2) by (simp_all add: at_def e_def q_def)
  obtain s' where run: "reduce_at i execute k shares s = Some s'"
    and fields: "sy_messages s' = (sy_messages s)[i := m]" "sy_quotes s' = sy_quotes s"
      "\<And>b. side_qty b s' = (if b = lv_bid e then (side_qty b s)[lv_level e := q - shares] else side_qty b s)"
      "sy_live_count s' = (if left = 0 then n - 1 else n)"
      "sy_live s' = (if left = 0 then es[k := es ! (n - 1)] else es)"
      "sy_adds s' + sy_executes s' + sy_cancels s' = Suc (sy_adds s + sy_executes s + sy_cancels s)"
    using reduce_at_run [OF at, of shares "q - shares" left es i execute] subs
    unfolding m_def n_def es_def left_def by auto
  have resting: "resting_orders s' = M + remainder e shares"
    using resting_orders_reduced [OF k(1) _ shares [unfolded e_def] _ es_def [unfolded e_def], unfolded left_def e_def]
      k(2,3)
    by (cases "left = 0")
      (simp_all add: resting_orders_def fields M_def n_def [symmetric] e_def [symmetric] left_def [symmetric])
  have ok: "orders_ok (Suc i) (M + remainder e shares)"
    by (rule orders_ok_Suc [OF orders_ok_remainder [OF parts(3) shares]])
  have "sint (side_qty b s' ! l) = price_total b (level_price b l) (M + remainder e shares)"
    if l: "l < price_levels" for b l
    using parts(5) [OF l, of b] sint_q subs parts(2) level l
    by (cases "b = lv_bid e") (auto simp: fields price_total_remainder [OF shares] nth_list_update level_price_inject)
  moreover have "carries (reduce_event execute (lv_reference e) shares) m"
    unfolding m_def by (rule reduce_message_carries [OF parts(4)])
  ultimately have "synth_inv (Suc i) s'"
    using inv ok k parts(2)
    unfolding synth_inv_def resting
    by (auto simp: fields n_def carries_def es_def dest!: set_update_subset_insert [THEN subsetD])
  moreover have "carries (reduce_event execute (lv_reference e) shares) (sy_messages s' ! i)"
    using reduce_message_carries [OF parts(4)] parts(1) i by (simp add: fields m_def)
  moreover have "\<exists>orders' book'. apply_event (reduce_event execute (lv_reference e) shares) orders book
      = Some (True, orders', book') \<and> book_holds (resting_orders s') orders' book'"
    if "book_holds (resting_orders s) orders book" for orders book
    using reduce_holds [OF that [unfolded M] parts(3) shares] unfolding resting apply_reduce_event by auto
  ultimately have "message_step i s s'"
    unfolding message_step_def
    by (intro conjI exI [of _ "reduce_event execute (lv_reference e) shares"]) (simp_all add: fields)
  with run show ?thesis by blast
qed

lemma reduce_order_step:
  assumes inv: "synth_inv i s" and i: "i < message_count" and some: "sy_live_count s \<noteq> 0"
  shows "\<exists>s'. reduce_order i execute s = Some s' \<and> message_step i s s'"
proof -
  obtain a b where rng: "synth_next s = (a, s\<lparr>sy_rng := a\<rparr>)"
    "synth_next (s\<lparr>sy_rng := a\<rparr>) = (b, s\<lparr>sy_rng := b\<rparr>)"
    by (simp add: synth_next_def)
  define k where "k = unat a mod sy_live_count s"
  define e where "e = sy_live s ! k"
  define shares where "shares = (if b AND 1 \<noteq> 0 \<or> lv_remaining e <=s 100 then lv_remaining e else 100)"
  have k: "k < sy_live_count s" "sy_live_count s \<le> length (sy_live s)"
    using inv some by (simp_all add: k_def synth_inv_def)
  then have "e \<in># resting_orders s" by (simp add: e_def nth_resting_orders)
  then have "0 < sint (lv_remaining e)" using inv by (auto simp: synth_inv_def orders_ok_def order_ok_def)
  then have "0 < sint shares" "sint shares \<le> sint (lv_remaining e)"
    by (auto simp: shares_def word_sle_eq)
  from reduce_at_step [of i "s\<lparr>sy_rng := b\<rparr>" k e shares execute] inv i k this obtain s' where
    "reduce_at i execute k shares (s\<lparr>sy_rng := b\<rparr>) = Some s'" "message_step i s s'"
    by (auto simp: e_def)
  moreover have "reduce_order i execute s = reduce_at i execute k shares (s\<lparr>sy_rng := b\<rparr>)"
    using some k
    by (simp add: reduce_order_def rng Let_def at_def k_def [symmetric] e_def [symmetric])
      (simp add: shares_def)
  ultimately show ?thesis by auto
qed

end
