(* ===== verification/Synthetic_Run.thy ===== *)
theory Synthetic_Run
  imports Synthetic_Itch Tick_Run
begin

text \<open>
  The generated stream as a whole: for every seed the generator runs without undefined behaviour,
  its messages are well formed and can all be applied, its own account of the best quotes agrees
  with the order book of the pipeline, and the demo's drive loop (\<open>main.cpp\<close>) processes it within
  its cycle limit.
\<close>

subsection \<open>One message\<close>

lemma generate_message_step:
  assumes inv: "synth_inv i s" and i: "i < message_count"
  shows "\<exists>s'. generate_message i s = Some s' \<and> message_step i s s'"
proof -
  obtain r where r: "synth_next s = (r, s\<lparr>sy_rng := r\<rparr>)" by (simp add: synth_next_def)
  define c where "c = xorshift r"
  have c: "synth_next (s\<lparr>sy_rng := r\<rparr>) = (c, s\<lparr>sy_rng := c\<rparr>)" by (simp add: synth_next_def c_def)
  have count: "sy_live_count s \<le> i" using inv by (simp add: synth_inv_def)
  show ?thesis
  proof (cases "(i < 4 \<or> sy_live_count s = 0) \<or> (\<not> 100 \<le> sy_live_count s \<and> r mod 100 < 45)")
    case True
    then have room: "sy_live_count s < 100" using count by auto
    define s1 where "s1 = s\<lparr>sy_rng := if i < 4 then r else c\<rparr>"
    define bid where "bid = (if i < 4 then even i else c AND 1 = 0)"
    have "generate_message i s = add_order i bid s1"
      using True by (simp add: generate_message_def r c Let_def s1_def bid_def)
    moreover from add_order_step [of i s1 bid] inv i room obtain s' where
      "add_order i bid s1 = Some s'" "message_step i s1 s'" by (auto simp: s1_def)
    ultimately show ?thesis by (auto simp: s1_def)
  next
    case False
    then have some: "sy_live_count s \<noteq> 0" by simp
    have "generate_message i s = reduce_order i (r mod 100 < 80) (s\<lparr>sy_rng := r\<rparr>)"
      using False by (auto simp: generate_message_def r Let_def)
    with reduce_order_step [of i "s\<lparr>sy_rng := r\<rparr>" "r mod 100 < 80"] inv i some show ?thesis by auto
  qed
qed

subsection \<open>The best quote\<close>

lemma find_upt_Some:
  "find P [0..<n] = Some l \<longleftrightarrow> l < n \<and> P l \<and> (\<forall>l' < l. \<not> P l')"
  by (auto simp: find_Some_iff intro!: exI [of _ l])

text \<open>The first level with a positive quantity is the best level of a ladder with these quantities.\<close>

lemma first_positive_best:
  assumes none: "best = None \<longleftrightarrow> v = Map.empty"
    and some: "\<And>p m. best = Some (p, m) \<Longrightarrow> v p = Some m \<and> (\<forall>p' \<in> dom v. \<not> better p' p)"
    and better: "\<And>l l'. l < l' \<Longrightarrow> l' < price_levels \<Longrightarrow> better (level_price b l) (level_price b l')"
    and pos: "ladder_positive v"
    and qty: "\<And>l. l < price_levels \<Longrightarrow> sint (qty ! l) = resting v (level_price b l)"
    and dom: "dom v \<subseteq> level_price b ` {..<price_levels}"
  shows "best = map_option (\<lambda>l. (level_price b l, sint (qty ! l))) (first_positive qty)"
proof (cases "first_positive qty")
  case None
  then have "\<not> 0 < sint (qty ! l)" if "l < price_levels" for l
    using that by (auto simp: first_positive_def find_None_iff word_sless_alt)
  then have "\<not> 0 < resting v p" if "p \<in> dom v" for p using that dom qty by force
  moreover have "0 < resting v p" if "p \<in> dom v" for p
    using that pos by (auto simp: ladder_positive_def resting_def)
  ultimately have "v = Map.empty" by blast
  with none None show ?thesis by simp
next
  case (Some l)
  then have l: "l < price_levels" "0 < sint (qty ! l)" "\<And>l'. l' < l \<Longrightarrow> \<not> 0 < sint (qty ! l')"
    by (auto simp: first_positive_def find_upt_Some word_sless_alt)
  then have live: "level_price b l \<in> dom v" using qty positive_dom [OF pos] by fastforce
  then have "best \<noteq> None" using none by auto
  then obtain p m where best: "best = Some (p, m)" by auto
  note p = some [OF best]
  then obtain l' where l': "l' < price_levels" "p = level_price b l'" using dom by auto
  have "0 < sint (qty ! l')"
    using p pos qty [OF l'(1)] l'(2) by (auto simp: ladder_positive_def resting_def)
  with l(3) have "\<not> l' < l" by blast
  moreover have "\<not> l < l'" using better [OF _ l'(1)] p live l'(2) by blast
  ultimately have "l' = l" by simp
  with p l' qty [OF l(1)] best Some show ?thesis by (simp add: resting_def)
qed

lemma level_price_bid:
  "l < l' \<Longrightarrow> l' < price_levels \<Longrightarrow> level_price True l' <s level_price True l"
  by (simp add: word_sless_alt sint_level_price)

lemma level_price_ask:
  "l < l' \<Longrightarrow> l' < price_levels \<Longrightarrow> level_price False l <s level_price False l'"
  by (simp add: word_sless_alt sint_level_price)

lemma level_quote_fields:
  "level_quote x = None \<Longrightarrow> \<not> bl_valid x"
  "level_quote x = Some (p, sint q) \<Longrightarrow> bl_valid x \<and> bl_price x = p \<and> bl_quantity x = q"
  by (auto simp: level_quote_def sint_inject_i32 split: if_splits)

lemma book_holds_dom:
  assumes "book_holds M orders book" "orders_ok n M"
  shows "dom (book_view b book) \<subseteq> level_price b ` {..<price_levels}"
proof
  fix p assume "p \<in> dom (book_view b book)"
  then have "price_total b p M \<noteq> 0"
    using assms(1) positive_dom [OF book_view_positive, of book p b] by (simp add: book_holds_def)
  moreover have "\<forall>e \<in># M. lv_level e < price_levels"
    using assms(2) by (auto simp: orders_ok_def order_ok_def)
  ultimately show "p \<in> level_price b ` {..<price_levels}" by (rule price_total_level)
qed

lemma synth_quote_correct:
  assumes inv: "synth_inv i s" and holds: "book_holds (resting_orders s) orders book"
  shows "synth_quote s = quote_of max_i32 book"
proof -
  have ok: "orders_ok i (resting_orders s)"
    and qty: "\<And>b l. l < price_levels \<Longrightarrow> sint (side_qty b s ! l) = price_total b (level_price b l) (resting_orders s)"
    using inv by (simp_all add: synth_inv_def)
  have book: "book_positive book" "\<And>b p. resting (book_view b book) p = price_total b p (resting_orders s)"
    using holds by (simp_all add: book_holds_def)
  then have sides: "side_inv (ob_bids book)" "side_inv (ob_asks book)"
    by (simp_all add: book_positive_def book_inv_def)
  have qty': "sint (side_qty b s ! l) = resting (book_view b book) (level_price b l)" if "l < price_levels" for b l
    using qty [OF that] book(2) by simp
  have "level_quote (best_bid book)
      = map_option (\<lambda>l. (level_price True l, sint (side_qty True s ! l))) (first_positive (side_qty True s))"
    unfolding best_bid_level
    by (rule first_positive_best [OF bids.best_None [OF sides(1)] bids.best_Some [OF sides(1)] level_price_bid])
      (use book_view_positive [OF book(1), of True] qty' [where b = True] book_holds_dom [OF holds ok, of True] in \<open>simp_all add: book_view_def\<close>)
  moreover have "level_quote (best_ask book)
      = map_option (\<lambda>l. (level_price False l, sint (side_qty False s ! l))) (first_positive (side_qty False s))"
    unfolding best_ask_level
    by (rule first_positive_best [OF asks.best_None [OF sides(2)] asks.best_Some [OF sides(2)] level_price_ask])
      (use book_view_positive [OF book(1), of False] qty' [where b = False] book_holds_dom [OF holds ok, of False] in \<open>simp_all add: book_view_def\<close>)
  moreover have "sy_bid_qty s = side_qty True s" "sy_ask_qty s = side_qty False s" by (simp_all add: side_qty_def)
  ultimately show ?thesis
    unfolding synth_quote_def quote_of_def Let_def
    using level_quote_fields [of "best_bid book"] level_quote_fields [of "best_ask book"]
    by (cases "first_positive (side_qty True s)"; cases "first_positive (side_qty False s)") simp_all
qed

subsection \<open>The whole stream\<close>

definition arrival_of :: "synth \<Rightarrow> nat \<Rightarrow> nat" where
  "arrival_of s j = unat (sm_arrival (sy_messages s ! j))"

text \<open>The first message arrives at cycle 5, each further one 3 to 40 cycles after the last; \<open>a\<close> is
  the next arrival.\<close>

definition arrivals_ok :: "nat \<Rightarrow> u64 \<Rightarrow> synth \<Rightarrow> bool" where
  "arrivals_ok i a s \<longleftrightarrow> unat a \<le> 5 + 40 * i \<and> (i = 0 \<longrightarrow> unat a = 5) \<and> (0 < i \<longrightarrow> arrival_of s 0 = 5)
     \<and> (\<forall>j < i. arrival_of s j \<le> 5 + 40 * j)
     \<and> (\<forall>j < i. let b = (if Suc j = i then unat a else arrival_of s (Suc j))
                in arrival_of s j + 3 \<le> b \<and> b \<le> arrival_of s j + 40)"

text \<open>A stream whose first messages are the generated ones.\<close>

definition agrees :: "itch_stream \<Rightarrow> synth \<Rightarrow> nat \<Rightarrow> bool" where
  "agrees st s i \<longleftrightarrow> is_order_capacity st = order_capacity \<and> is_empty_ask st = max_i32
     \<and> (\<forall>j < i. message_bytes st j = sent_bytes (sy_messages s ! j))"

definition generated :: "nat \<Rightarrow> u64 \<Rightarrow> synth \<Rightarrow> order_table \<Rightarrow> order_book \<Rightarrow> bool" where
  "generated i a s orders book \<longleftrightarrow>
     synth_inv i s \<and> book_holds (resting_orders s) orders book \<and> arrivals_ok i a s
     \<and> (\<forall>j < i. \<exists>e. carries e (sy_messages s ! j))
     \<and> (\<forall>st. agrees st s i \<longrightarrow> book_after st i = Some (orders, book)
          \<and> (\<forall>j < i. expected_quote st j = sy_quotes s ! j))"

lemma generated_0: "generated 0 5 (synth_new seed) (table_new order_capacity) book_new"
proof -
  have "resting_orders (synth_new seed) = {#}" by (simp add: resting_orders_def synth_new_def)
  moreover have "synth_inv 0 (synth_new seed)"
    using calculation
    by (simp add: synth_inv_def) (auto simp: synth_new_def synth_message_empty_def orders_ok_def side_qty_def)
  moreover have "book_holds {#} (table_new order_capacity) book_new"
    by (simp add: book_holds_def book_new_positive)
      (simp add: book_new_def book_view_def resting_def)
  ultimately show ?thesis
    by (simp add: generated_def arrivals_ok_def agrees_def)
qed

lemma gap_bounds:
  fixes a :: u64 and g :: u32
  assumes "unat a \<le> n" "n + 40 < 2 ^ 64"
  shows "unat a + 3 \<le> unat (a + ucast (3 + g mod 38))" "unat (a + ucast (3 + g mod 38)) \<le> unat a + 40"
proof -
  have g: "unat (g mod 38) \<le> 37" by (simp add: unat_mod)
  then have small: "unat (3 + g mod 38) = 3 + unat (g mod 38)" by (subst unat_plus_if') simp
  define d :: u64 where "d = ucast (3 + g mod 38)"
  have d: "unat d = 3 + unat (g mod 38)" using g small by (simp add: d_def unsigned_ucast_eq take_bit_eq_mod)
  have "unat (a + d) = unat a + unat d" using g d assms by (simp add: unat_plus_if')
  with d g show "unat a + 3 \<le> unat (a + d)" "unat (a + d) \<le> unat a + 40" by simp_all
qed

text \<open>The state after the body of the loop, from the state after the message.\<close>

definition finish_message :: "nat \<Rightarrow> u64 \<Rightarrow> synth \<Rightarrow> synth" where
  "finish_message i a s = update_quote i (snd (synth_next (set_arrival i a s)))"

lemma synth_quote_sides:
  "synth_quote (set_message i m s\<lparr>sy_rng := r\<rparr>) = synth_quote s"
proof -
  have q: "sy_bid_qty (set_message i m s\<lparr>sy_rng := r\<rparr>) = sy_bid_qty s"
    "sy_ask_qty (set_message i m s\<lparr>sy_rng := r\<rparr>) = sy_ask_qty s"
    by (simp_all add: set_message_def)
  show ?thesis unfolding synth_quote_def q ..
qed

lemma finish_message_fields:
  "sy_messages (finish_message i a s) = (sy_messages s)[i := (sy_messages s ! i)\<lparr>sm_arrival := a\<rparr>]"
  "sy_quotes (finish_message i a s) = (sy_quotes s)[i := synth_quote s]"
  "resting_orders (finish_message i a s) = resting_orders s"
  "side_qty b (finish_message i a s) = side_qty b s"
  by (simp_all add: finish_message_def update_quote_def set_arrival_def synth_next_def resting_orders_def
      synth_quote_sides)

lemma finish_message_inv:
  assumes "synth_inv n s" "i < message_count"
  shows "synth_inv n (finish_message i a s)"
proof -
  have "length (sm_bytes (sy_messages s ! i)) = 36" using assms by (simp add: synth_inv_def)
  moreover have "sy_live (finish_message i a s) = sy_live s"
    "sy_live_count (finish_message i a s) = sy_live_count s" "sy_adds (finish_message i a s) = sy_adds s"
    "sy_executes (finish_message i a s) = sy_executes s" "sy_cancels (finish_message i a s) = sy_cancels s"
    by (simp_all add: finish_message_def update_quote_def set_arrival_def synth_next_def)
  ultimately show ?thesis
    using assms by (auto simp: synth_inv_def finish_message_fields dest!: set_update_subset_insert [THEN subsetD])
qed

lemma sent_bytes_arrival [simp]: "sent_bytes (m\<lparr>sm_arrival := a\<rparr>) = sent_bytes m"
  by (simp add: sent_bytes_def)

lemma carries_arrival [simp]: "carries e (m\<lparr>sm_arrival := a\<rparr>) = carries e m"
  by (simp add: carries_def)

lemma arrivals_step:
  fixes g :: u32
  assumes ok: "arrivals_ok i a s" and i: "i < length (sy_messages s')" "i < message_count"
    and old: "\<forall>j. j \<noteq> i \<longrightarrow> sy_messages s' ! j = sy_messages s ! j"
    and new: "sm_arrival (sy_messages s' ! i) = a"
  shows "arrivals_ok (Suc i) (a + ucast (3 + g mod 38)) s'"
proof -
  define b :: u64 where "b = a + ucast (3 + g mod 38)"
  have "5 + 40 * i + 40 < 2 ^ 64" using i(2) by (simp add: message_count_def)
  moreover have a: "unat a \<le> 5 + 40 * i" using ok by (simp add: arrivals_ok_def)
  ultimately have b: "unat a + 3 \<le> unat b" "unat b \<le> unat a + 40"
    unfolding b_def using gap_bounds [of a "5 + 40 * i" g] by blast+
  have arr: "arrival_of s' j = (if j = i then unat a else arrival_of s j)" for j
    using old new by (simp add: arrival_of_def)
  show ?thesis
    using ok a b unfolding arrivals_ok_def arr b_def [symmetric]
    by (auto simp: Let_def less_Suc_eq split: if_splits)
qed

lemma generated_step:
  fixes g :: u32
  assumes gen: "generated i a s orders book" and i: "i < message_count"
    and run: "generate_message i s = Some s1" and step: "message_step i s s1"
  shows "\<exists>orders' book'. generated (Suc i) (a + ucast (3 + g mod 38)) (finish_message i a s1) orders' book'"
proof -
  define s' where "s' = finish_message i a s1"
  have holds: "book_holds (resting_orders s) orders book" using gen by (simp add: generated_def)
  from step obtain e where inv: "synth_inv (Suc i) s1" and quotes: "sy_quotes s1 = sy_quotes s"
    and old: "\<forall>j. j \<noteq> i \<longrightarrow> sy_messages s1 ! j = sy_messages s ! j"
    and e: "carries e (sy_messages s1 ! i)"
    and app: "\<forall>orders book. book_holds (resting_orders s) orders book \<longrightarrow>
      (\<exists>orders' book'. apply_event e orders book = Some (True, orders', book')
         \<and> book_holds (resting_orders s1) orders' book')"
    unfolding message_step_def by blast
  from app holds obtain orders' book' where ev: "apply_event e orders book = Some (True, orders', book')"
    and holds': "book_holds (resting_orders s1) orders' book'" by blast
  have len: "i < length (sy_messages s1)" "i < length (sy_quotes s1)"
    using inv i by (simp_all add: synth_inv_def)
  have old': "\<forall>j. j \<noteq> i \<longrightarrow> sy_messages s' ! j = sy_messages s ! j"
    using old by (simp add: s'_def finish_message_fields)
  have e': "carries e (sy_messages s' ! i)" "sm_arrival (sy_messages s' ! i) = a"
    "sent_bytes (sy_messages s' ! i) = sent_bytes (sy_messages s1 ! i)"
    using e len by (simp_all add: s'_def finish_message_fields)
  have quote: "synth_quote s1 = quote_of max_i32 book'" by (rule synth_quote_correct [OF inv holds'])
  have books: "book_after st (Suc i) = Some (orders', book') \<and> (\<forall>j < Suc i. expected_quote st j = sy_quotes s' ! j)"
    if agrees: "agrees st s' (Suc i)" for st
  proof -
    have "agrees st s i" using agrees old' by (auto simp: agrees_def)
    with gen have before: "book_after st i = Some (orders, book)" "\<forall>j < i. expected_quote st j = sy_quotes s ! j"
      by (auto simp: generated_def)
    have "decoded (message_bytes st i) = e" using agrees e'(1) by (simp add: agrees_def carries_def)
    with before(1) ev have after: "book_after st (Suc i) = Some (orders', book')" by simp
    moreover have "expected_quote st i = sy_quotes s' ! i"
      using after quote agrees len by (simp add: expected_quote_def agrees_def s'_def finish_message_fields)
    moreover have "expected_quote st j = sy_quotes s' ! j" if "j < i" for j
      using before(2) that quotes by (simp add: s'_def finish_message_fields)
    ultimately show ?thesis by (auto simp: less_Suc_eq)
  qed
  moreover have "arrivals_ok (Suc i) (a + ucast (3 + g mod 38)) s'"
  proof (rule arrivals_step)
    show "arrivals_ok i a s" using gen by (simp add: generated_def)
    show "i < length (sy_messages s')" using len by (simp add: s'_def finish_message_fields)
  qed (use i old' e'(2) in simp_all)
  moreover have "\<forall>j < Suc i. \<exists>e. carries e (sy_messages s' ! j)"
    using gen old' e'(1) by (auto simp: generated_def less_Suc_eq)
  moreover have "synth_inv (Suc i) s'" "book_holds (resting_orders s') orders' book'"
    using finish_message_inv [OF inv i] holds' by (simp_all add: s'_def finish_message_fields)
  ultimately have "generated (Suc i) (a + ucast (3 + g mod 38)) s' orders' book'"
    unfolding generated_def by blast
  then show ?thesis unfolding s'_def by blast
qed

lemma generate_generated:
  "i \<le> message_count \<Longrightarrow> \<exists>a s orders book. generate seed i = Some (a, s) \<and> generated i a s orders book"
proof (induction i)
  case 0
  show ?case using generated_0 by auto
next
  case (Suc i)
  then have i: "i < message_count" by simp
  from Suc obtain a s orders book where s: "generate seed i = Some (a, s)" "generated i a s orders book"
    by auto
  from s(2) have "synth_inv i s" by (simp add: generated_def)
  from generate_message_step [OF this i] obtain s1 where
    s1: "generate_message i s = Some s1" "message_step i s s1" by blast
  define g where "g = fst (synth_next (set_arrival i a s1))"
  have "generate seed (Suc i) = Some (a + ucast (3 + g mod 38), finish_message i a s1)"
    by (simp add: s(1) s1(1) Let_def g_def finish_message_def split: prod.split)
  with generated_step [OF s(2) i s1, of g] show ?case by auto
qed

text \<open>The generated stream is one the pipeline can process.\<close>

lemma synth_itch_fields [simp]:
  "is_capacity (synth_itch s) = message_count" "is_count (synth_itch s) = message_count"
  "is_messages (synth_itch s) = sy_messages s" "is_order_capacity (synth_itch s) = order_capacity"
  "is_empty_ask (synth_itch s) = max_i32" "message (synth_itch s) i = sy_messages s ! i"
  "message_bytes (synth_itch s) i = sent_bytes (sy_messages s ! i)"
  "message_arrival (synth_itch s) i = arrival_of s i"
  by (simp_all add: synth_itch_def message_def message_bytes_def message_size_def sent_bytes_def
      message_arrival_def arrival_of_def)

lemma synthetic_generated:
  "\<exists>a s orders book. synthetic_stream seed = Some s \<and> generated message_count a s orders book"
  using generate_generated [of message_count seed] by (auto simp: synthetic_stream_def)

lemma generated_wf:
  assumes "generated message_count a s orders book"
  shows "wf_stream (synth_itch s)" "book_after (synth_itch s) message_count = Some (orders, book)"
    "i < message_count \<Longrightarrow> expected_quote (synth_itch s) i = sy_quotes s ! i" "ob_overflow book = 0"
proof -
  have "agrees (synth_itch s) s message_count" by (simp add: agrees_def)
  with assms show after: "book_after (synth_itch s) message_count = Some (orders, book)"
    "i < message_count \<Longrightarrow> expected_quote (synth_itch s) i = sy_quotes s ! i"
    by (auto simp: generated_def)
  show "ob_overflow book = 0" using assms by (simp add: generated_def book_holds_def)
  have carried_by: "message_size (synth_itch s) k \<le> length (sm_bytes (sy_messages s ! k))
      \<and> wf_message (sent_bytes (sy_messages s ! k))" if "k < message_count" for k
    using assms that by (fastforce simp: generated_def carries_def message_size_def)
  have "length (sy_messages s) = message_count" using assms by (simp add: generated_def synth_inv_def)
  moreover have "message_count < 2 ^ 31" by (simp add: message_count_def)
  ultimately show "wf_stream (synth_itch s)" using after(1) carried_by by (simp add: wf_stream_def)
qed

lemma generated_wire:
  assumes "generated message_count a s orders book"
  shows "k < message_count \<Longrightarrow> wire_start (synth_itch s) k \<le> 5 + 47 * k"
proof (induction k)
  case 0
  then show ?case using assms by (simp add: generated_def arrivals_ok_def)
next
  case (Suc k)
  have "\<forall>j < message_count. arrival_of s j \<le> 5 + 40 * j"
    using assms by (simp add: generated_def arrivals_ok_def)
  from this [rule_format, OF Suc.prems] have "arrival_of s (Suc k) \<le> 5 + 40 * Suc k" .
  moreover have "wire_blocks (synth_itch s) k \<le> 7"
    by (rule wire_blocks_bounds(2) [OF generated_wf(1) [OF assms]]) (use Suc.prems in simp)
  ultimately show ?case using Suc by simp
qed

lemma generated_finish:
  assumes "generated message_count a s orders book"
  shows "finish (synth_itch s) \<le> 12007"
proof -
  have "wire_blocks (synth_itch s) 255 \<le> 7"
    by (rule wire_blocks_bounds(2) [OF generated_wf(1) [OF assms]]) (simp add: message_count_def)
  with generated_wire [OF assms, of 255] show ?thesis
    by (simp add: finish_def received_def message_count_def)
qed

subsection \<open>Properties\<close>

text \<open>
  C9. For every seed the generator is well defined (no index outside an array, no division by zero, no
  signed overflow) and produces 256 messages the pipeline can process: each has the layout of
  its type, an order is only reduced while it rests, the live-order array and the order table never
  fill, no add is dropped by the five-level book, and the best quotes the generator publishes are
  those of the order book after each message. Arrivals are 3 to 40 cycles apart, from cycle 5.
\<close>

theorem synthetic_stream_correct:
  "\<exists>s orders book. synthetic_stream seed = Some s \<and> wf_stream (synth_itch s)
    \<and> book_after (synth_itch s) message_count = Some (orders, book) \<and> ob_overflow book = 0
    \<and> map (expected_quote (synth_itch s)) [0..<message_count] = sy_quotes s
    \<and> count_of s (ascii CHR ''A'') + count_of s (ascii CHR ''E'') + count_of s (ascii CHR ''X'') = message_count
    \<and> arrival_of s 0 = 5
    \<and> (\<forall>j. Suc j < message_count \<longrightarrow> arrival_of s j + 3 \<le> arrival_of s (Suc j)
         \<and> arrival_of s (Suc j) \<le> arrival_of s j + 40)"
proof -
  obtain a s orders book where s: "synthetic_stream seed = Some s"
    and gen: "generated message_count a s orders book" using synthetic_generated by blast
  have inv: "synth_inv message_count s" and arr: "arrivals_ok message_count a s"
    using gen by (simp_all add: generated_def)
  have "map (expected_quote (synth_itch s)) [0..<message_count] = sy_quotes s"
    using generated_wf(3) [OF gen] inv by (intro nth_equalityI) (simp_all add: synth_inv_def)
  moreover have "count_of s (ascii CHR ''A'') + count_of s (ascii CHR ''E'')
      + count_of s (ascii CHR ''X'') = message_count"
    using inv by (simp add: count_of_def synth_inv_def)
  moreover have "arrival_of s 0 = 5" using arr by (simp add: arrivals_ok_def message_count_def)
  moreover have "arrival_of s j + 3 \<le> arrival_of s (Suc j) \<and> arrival_of s (Suc j) \<le> arrival_of s j + 40"
    if "Suc j < message_count" for j
  proof -
    have "j < message_count" "Suc j \<noteq> message_count" using that by simp_all
    with arr show ?thesis unfolding arrivals_ok_def Let_def by auto
  qed
  ultimately show ?thesis using s generated_wf [OF gen] by blast
qed

theorem synthetic_stream_correct_witness:
  "\<exists>s. synthetic_stream default_seed = Some s \<and> wf_stream (synth_itch s) \<and> arrival_of s 0 = 5
    \<and> 8 \<le> arrival_of s 1 \<and> arrival_of s 1 \<le> 45"
proof -
  obtain s where s: "synthetic_stream default_seed = Some s" "wf_stream (synth_itch s)" "arrival_of s 0 = 5"
    and gap: "\<forall>j. Suc j < message_count \<longrightarrow> arrival_of s j + 3 \<le> arrival_of s (Suc j)
      \<and> arrival_of s (Suc j) \<le> arrival_of s j + 40"
    using synthetic_stream_correct [of default_seed] by blast
  from gap [rule_format, of 0] s(3) have "8 \<le> arrival_of s 1 \<and> arrival_of s 1 \<le> 45"
    by (simp add: message_count_def)
  with s show ?thesis by blast
qed

end
