(* ===== verification/Vcd_Logger.thy ===== *)
theory Vcd_Logger
  imports Discrete_Engine
begin

text \<open>
  \<open>VcdLogger\<close> of \<open>include/trace/vcd_logger.hpp\<close>. The state is what has been written to the file
  and the last time stamp; \<open>fopen\<close> may fail, then nothing is written. The output of
  \<open>std::fprintf\<close> is modelled for the formats the code uses.
\<close>

subsection \<open>Text\<close>

definition newline :: char where "newline = CHR 0x0A"
definition quote_mark :: char where "quote_mark = CHR 0x22"

definition digit :: "nat \<Rightarrow> char" where
  "digit n = char_of (48 + n)"

text \<open>The conversion \<open>%llu\<close>.\<close>

fun decimal :: "nat \<Rightarrow> string" where
  "decimal n = (if n < 10 then [digit n] else decimal (n div 10) @ [digit (n mod 10)])"

declare decimal.simps [simp del]

definition out_line :: "string \<Rightarrow> string" where
  "out_line s = s @ [newline]"

subsection \<open>State and operations\<close>

definition units_per_cycle :: u64 where
  "units_per_cycle = (cycle_ns_num * 1000000 + cycle_ns_den div 2) div cycle_ns_den"

definition units_per_half_cycle :: u64 where
  "units_per_half_cycle = units_per_cycle div 2"

record vcd =
  vcd_open :: bool
  vcd_text :: string
  vcd_last :: u64

definition vcd_header :: "string list" where
  "vcd_header =
     [''$timescale 1 fs $end'', ''$scope module fpga_sim $end'', ''$var wire 1 ! clk $end'',
      ''$var wire 1 '' @ [quote_mark] @ '' tick_valid $end'', ''$var wire 32 # ofi $end'',
      ''$upscope $end'', ''$enddefinitions $end'',
      ''#0'', ''$dumpvars'', ''0!'', ''0'' @ [quote_mark], ''b0 #'', ''$end'']"

definition vcd_new :: "bool \<Rightarrow> vcd" where
  "vcd_new opened =
     \<lparr>vcd_open = opened, vcd_text = (if opened then concat (map out_line vcd_header) else []),
      vcd_last = 0\<rparr>"

definition vcd_put :: "string \<Rightarrow> vcd \<Rightarrow> vcd" where
  "vcd_put s v = v\<lparr>vcd_text := vcd_text v @ s\<rparr>"

definition vcd_stamp :: "u64 \<Rightarrow> vcd \<Rightarrow> vcd" where
  "vcd_stamp t v =
     (if t \<noteq> vcd_last v then (vcd_put (out_line (CHR ''#'' # decimal (unat t))) v)\<lparr>vcd_last := t\<rparr> else v)"

definition vector_bits :: "u32 \<Rightarrow> string" where
  "vector_bits w = map (\<lambda>i. if drop_bit (31 - i) w AND 1 \<noteq> 0 then CHR ''1'' else CHR ''0'') [0..<32]"

definition write_vector :: "u32 \<Rightarrow> vcd \<Rightarrow> vcd" where
  "write_vector w = vcd_put (out_line (CHR ''b'' # vector_bits w @ '' #''))"

definition vcd_cycle :: "u64 \<Rightarrow> bool \<Rightarrow> i32 \<Rightarrow> vcd \<Rightarrow> vcd" where
  "vcd_cycle cycle tick_valid ofi v =
     (if \<not> vcd_open v then v
      else
        let t = cycle * units_per_cycle;
            v1 = vcd_stamp t v;
            v2 = vcd_put (out_line ''1!'' @ out_line [if tick_valid then CHR ''1'' else CHR ''0'', quote_mark]) v1;
            v3 = write_vector ofi v2;
            v4 = vcd_stamp (t + units_per_half_cycle) v3
        in vcd_put (out_line ''0!'') v4)"

text \<open>The cycles of a run, from \<open>c\<close> on.\<close>

fun vcd_cycles :: "u64 \<Rightarrow> (bool \<times> i32) list \<Rightarrow> vcd \<Rightarrow> vcd" where
  "vcd_cycles c [] v = v"
| "vcd_cycles c ((b, ofi) # xs) v = vcd_cycles (c + 1) xs (vcd_cycle c b ofi v)"

subsection \<open>A reader of the trace\<close>

text \<open>What a viewer does with the text: lines, time stamps that must increase, value changes of
  the three signals. A sample is taken at each falling edge of the clock: the times of the two
  edges and the values of the other signals.\<close>

fun split_lines :: "string \<Rightarrow> string \<Rightarrow> string list" where
  "split_lines acc [] = (if acc = [] then [] else [acc])"
| "split_lines acc (c # cs) = (if c = newline then acc # split_lines [] cs else split_lines (acc @ [c]) cs)"

definition undecimal :: "string \<Rightarrow> nat" where
  "undecimal s = foldl (\<lambda>n c. 10 * n + (of_char c - 48)) 0 s"

definition unvector :: "string \<Rightarrow> u32" where
  "unvector s = foldl (\<lambda>w c. push_bit 1 w OR (if c = CHR ''1'' then 1 else 0)) 0 s"

record reader =
  rd_time :: "nat option"
  rd_rise :: "nat option"
  rd_valid :: bool
  rd_ofi :: u32
  rd_samples :: "(nat \<times> nat \<times> bool \<times> u32) list"

definition reader_start :: reader where
  "reader_start = \<lparr>rd_time = None, rd_rise = None, rd_valid = False, rd_ofi = 0, rd_samples = []\<rparr>"

definition read_line :: "string \<Rightarrow> reader \<Rightarrow> reader option" where
  "read_line l r =
     (if l = [] then None
      else if hd l = CHR ''$'' then Some r
      else if hd l = CHR ''#'' then
        (let t = undecimal (tl l) in
         if (case rd_time r of None \<Rightarrow> True | Some t0 \<Rightarrow> t0 < t) then Some (r\<lparr>rd_time := Some t\<rparr>) else None)
      else if hd l = CHR ''b'' then Some (r\<lparr>rd_ofi := unvector (takeWhile (\<lambda>c. c \<noteq> CHR '' '') (tl l))\<rparr>)
      else if tl l = [quote_mark] then Some (r\<lparr>rd_valid := (hd l = CHR ''1'')\<rparr>)
      else if l = ''1!'' then Some (r\<lparr>rd_rise := rd_time r\<rparr>)
      else if l = ''0!'' then
        (case (rd_rise r, rd_time r) of
           (Some t0, Some t1) \<Rightarrow> Some (r\<lparr>rd_rise := None,
             rd_samples := rd_samples r @ [(t0, t1, rd_valid r, rd_ofi r)]\<rparr>)
         | _ \<Rightarrow> Some r)
      else None)"

fun read_lines :: "string list \<Rightarrow> reader \<Rightarrow> reader option" where
  "read_lines [] r = Some r"
| "read_lines (l # ls) r = do { r' \<leftarrow> read_line l r; read_lines ls r' }"

definition read_trace :: "string \<Rightarrow> (nat \<times> nat \<times> bool \<times> u32) list option" where
  "read_trace s = map_option rd_samples (read_lines (split_lines [] s) reader_start)"

subsection \<open>Numbers and lines\<close>

lemma of_char_digit: "n < 10 \<Longrightarrow> of_char (digit n) = 48 + n"
  by (simp add: digit_def)

lemma undecimal_append: "undecimal (s @ [c]) = 10 * undecimal s + (of_char c - 48)"
  by (simp add: undecimal_def)

lemma undecimal_decimal: "undecimal (decimal n) = n"
proof (induction n rule: decimal.induct)
  case (1 n)
  show ?case
  proof (cases "n < 10")
    case True
    then show ?thesis by (simp add: decimal.simps [of n] undecimal_def of_char_digit)
  next
    case False
    with 1 show ?thesis by (simp add: decimal.simps [of n] undecimal_append of_char_digit)
  qed
qed

lemma digit_not_newline: "n < 10 \<Longrightarrow> digit n \<noteq> newline"
proof
  assume "n < 10" "digit n = newline"
  then have "(of_char newline :: nat) = 48 + n" using of_char_digit [of n] by simp
  then show False by (simp add: newline_def)
qed

lemma decimal_line: "newline \<notin> set (decimal n)"
proof (induction n rule: decimal.induct)
  case (1 n)
  then show ?case
    using digit_not_newline [of n] digit_not_newline [of "n mod 10"] by (auto simp: decimal.simps [of n])
qed

lemma vector_bits_line: "newline \<notin> set (vector_bits w)" "CHR '' '' \<notin> set (vector_bits w)"
  by (auto simp: vector_bits_def newline_def)

lemma split_lines_line:
  "newline \<notin> set l \<Longrightarrow> split_lines acc (l @ newline # s) = (acc @ l) # split_lines [] s"
  by (induction l arbitrary: acc) auto

lemma split_out_lines:
  "\<forall>l \<in> set ls. newline \<notin> set l \<Longrightarrow> split_lines [] (concat (map out_line ls)) = ls"
  by (induction ls) (simp_all add: out_line_def split_lines_line)

lemma unvector_append: "unvector (s @ [c]) = push_bit 1 (unvector s) OR (if c = CHR ''1'' then 1 else 0)"
  by (simp add: unvector_def)

lemma rejoin_low_bit: "push_bit 1 (drop_bit 1 y) OR (y AND 1) = (y :: u32)"
proof (rule bit_word_eqI)
  fix k assume "k < LENGTH(32)"
  then show "bit (push_bit 1 (drop_bit 1 y) OR (y AND 1)) k = bit y k"
    unfolding bit_or_iff bit_and_iff bit_push_bit_iff bit_drop_bit_eq o_def bit_1_iff
    by (cases k) auto
qed

lemma low_bit: "(if y AND 1 \<noteq> 0 then 1 else 0) = y AND (1 :: u32)"
  by (auto simp: and_one_eq mod_2_eq_odd)

lemma bit_step:
  assumes "n < 32"
  shows "push_bit 1 (drop_bit (32 - n) w) OR (if drop_bit (31 - n) w AND 1 \<noteq> 0 then 1 else 0)
    = drop_bit (31 - n) (w :: u32)"
proof -
  have "drop_bit (32 - n) w = drop_bit 1 (drop_bit (31 - n) w)"
    using assms by (simp only: drop_bit_drop_bit) (simp add: Suc_diff_le [symmetric] Suc_diff_Suc)
  then show ?thesis unfolding low_bit using rejoin_low_bit [of "drop_bit (31 - n) w"] by simp
qed

lemma unvector_bits: "unvector (vector_bits w) = w"
proof -
  define f where "f i = (if drop_bit (31 - i) w AND 1 \<noteq> 0 then CHR ''1'' else CHR ''0'')" for i
  have f: "f i = CHR ''1'' \<longleftrightarrow> drop_bit (31 - i) w AND 1 \<noteq> 0" for i by (simp add: f_def)
  have "n \<le> 32 \<Longrightarrow> unvector (map f [0..<n]) = drop_bit (32 - n) w" for n
  proof (induction n)
    case 0
    have "drop_bit 32 w = 0" by (rule bit_word_eqI) (simp add: bit_simps)
    then show ?case by (simp add: unvector_def)
  next
    case (Suc n)
    have "unvector (map f [0..<Suc n]) = push_bit 1 (unvector (map f [0..<n])) OR (if f n = CHR ''1'' then 1 else 0)"
      unfolding unvector_append [symmetric] by simp
    also have "\<dots> = push_bit 1 (drop_bit (32 - n) w) OR (if drop_bit (31 - n) w AND 1 \<noteq> 0 then 1 else 0)"
      using Suc by (simp only: f Suc_leD)
    also have "\<dots> = drop_bit (32 - Suc n) w" using bit_step [of n w] Suc.prems by simp
    finally show ?case .
  qed
  from this [of 32] show ?thesis by (simp add: vector_bits_def f_def [abs_def, symmetric])
qed

subsection \<open>The lines of a cycle\<close>

definition stamp_lines :: "u64 \<Rightarrow> u64 \<Rightarrow> string list" where
  "stamp_lines t prev = (if t \<noteq> prev then [CHR ''#'' # decimal (unat t)] else [])"

definition cycle_lines :: "u64 \<Rightarrow> bool \<Rightarrow> i32 \<Rightarrow> u64 \<Rightarrow> string list" where
  "cycle_lines t b ofi prev = stamp_lines t prev
     @ [''1!'', [if b then CHR ''1'' else CHR ''0'', quote_mark], CHR ''b'' # vector_bits ofi @ '' #'']
     @ stamp_lines (t + units_per_half_cycle) t @ [''0!'']"

lemma vcd_cycle_text:
  assumes "vcd_open v"
  shows "vcd_text (vcd_cycle c b ofi v) = vcd_text v @ concat (map out_line (cycle_lines (c * units_per_cycle) b ofi (vcd_last v)))"
    and "vcd_last (vcd_cycle c b ofi v) = c * units_per_cycle + units_per_half_cycle"
    and "vcd_open (vcd_cycle c b ofi v)"
  using assms
  by (simp_all add: vcd_cycle_def Let_def vcd_stamp_def vcd_put_def write_vector_def cycle_lines_def stamp_lines_def)

lemma cycle_lines_newline: "l \<in> set (cycle_lines t b ofi prev) \<Longrightarrow> newline \<notin> set l"
  using decimal_line vector_bits_line(1) [of ofi]
  by (auto simp: cycle_lines_def stamp_lines_def newline_def quote_mark_def split: if_splits)

lemma header_newline: "l \<in> set vcd_header \<Longrightarrow> newline \<notin> set l"
  by (auto simp: vcd_header_def newline_def quote_mark_def)

lemma read_lines_append: "read_lines (xs @ ys) r = do { r' \<leftarrow> read_lines xs r; read_lines ys r' }"
  by (induction xs arbitrary: r) (auto split: bind_splits)

lemma read_stamp:
  "rd_time r = Some t0 \<Longrightarrow> t0 < unat t \<Longrightarrow>
   read_line (CHR ''#'' # decimal (unat t)) r = Some (r\<lparr>rd_time := Some (unat t)\<rparr>)"
  by (simp add: read_line_def undecimal_decimal)

lemma read_vector:
  "read_line (CHR ''b'' # vector_bits w @ '' #'') r = Some (r\<lparr>rd_ofi := w\<rparr>)"
proof -
  have "takeWhile (\<lambda>c. c \<noteq> CHR '' '') (vector_bits w @ '' #'') = vector_bits w"
    using vector_bits_line(2) [of w] by (subst takeWhile_append2) auto
  then show ?thesis by (simp add: read_line_def unvector_bits)
qed

lemma read_cycle:
  assumes "rd_time r = Some (unat prev)" "rd_rise r = None" "unat prev \<le> unat t"
    and "unat t < unat (t + units_per_half_cycle)"
  shows "read_lines (cycle_lines t b ofi prev) r
    = Some (r\<lparr>rd_time := Some (unat (t + units_per_half_cycle)), rd_valid := b, rd_ofi := ofi,
        rd_samples := rd_samples r @ [(unat t, unat (t + units_per_half_cycle), b, ofi)]\<rparr>)"
proof -
  define r1 where "r1 = r\<lparr>rd_time := Some (unat t)\<rparr>"
  have first: "read_lines (stamp_lines t prev) r = Some r1"
  proof (cases "t = prev")
    case True
    with assms(1) show ?thesis by (simp add: stamp_lines_def r1_def)
  next
    case False
    with assms(3) have "unat prev < unat t" by (simp add: word_unat_eq_iff)
    from read_stamp [OF assms(1) this] False show ?thesis by (simp add: stamp_lines_def r1_def)
  qed
  define r2 where "r2 = r1\<lparr>rd_rise := Some (unat t), rd_valid := b, rd_ofi := ofi\<rparr>"
  have second: "read_lines [''1!'', [if b then CHR ''1'' else CHR ''0'', quote_mark],
      CHR ''b'' # vector_bits ofi @ '' #''] r1 = Some r2"
    unfolding read_lines.simps
    by (simp add: read_vector read_line_def [of "[x, y]" for x y] r1_def r2_def quote_mark_def)
  have "t + units_per_half_cycle \<noteq> t" using assms(4) by auto
  then have third: "read_lines (stamp_lines (t + units_per_half_cycle) t) r2
      = Some (r2\<lparr>rd_time := Some (unat (t + units_per_half_cycle))\<rparr>)"
    using read_stamp [OF _ assms(4), of r2] by (simp add: stamp_lines_def r2_def r1_def)
  have fourth: "read_lines [''0!''] (r2\<lparr>rd_time := Some (unat (t + units_per_half_cycle))\<rparr>)
    = Some (r\<lparr>rd_time := Some (unat (t + units_per_half_cycle)), rd_valid := b, rd_ofi := ofi,
        rd_samples := rd_samples r @ [(unat t, unat (t + units_per_half_cycle), b, ofi)]\<rparr>)"
    using assms(2) by (simp add: read_line_def r2_def r1_def quote_mark_def)
  show ?thesis
    unfolding cycle_lines_def read_lines_append first second third fourth bind.bind_lunit ..
qed

subsection \<open>The trace of a run\<close>

lemma units_value: "units_per_cycle = 3103030" "units_per_half_cycle = 1551515"
  by (simp_all add: units_per_cycle_def units_per_half_cycle_def cycle_ns_num_def cycle_ns_den_def)

text \<open>What has been written is read back as the samples so far, and time has not passed cycle \<open>k\<close>.\<close>

definition trace_inv :: "nat \<Rightarrow> (nat \<times> nat \<times> bool \<times> u32) list \<Rightarrow> vcd \<Rightarrow> bool" where
  "trace_inv k samples v \<longleftrightarrow> vcd_open v \<and> unat (vcd_last v) \<le> k * 3103030
     \<and> (\<exists>ls r. vcd_text v = concat (map out_line ls) \<and> (\<forall>l \<in> set ls. newline \<notin> set l)
          \<and> read_lines ls reader_start = Some r \<and> rd_time r = Some (unat (vcd_last v))
          \<and> rd_rise r = None \<and> rd_samples r = samples)"

definition vcd_sample :: "nat \<Rightarrow> bool \<times> i32 \<Rightarrow> nat \<times> nat \<times> bool \<times> u32" where
  "vcd_sample k x = (k * 3103030, k * 3103030 + 1551515, x)"

lemma trace_inv_new: "trace_inv 0 [] (vcd_new True)"
proof -
  let ?r = "\<lparr>rd_time = Some 0, rd_rise = None, rd_valid = False, rd_ofi = 0, rd_samples = []\<rparr>"
  have "read_lines vcd_header reader_start = Some ?r"
    by (simp add: vcd_header_def read_line_def reader_start_def quote_mark_def undecimal_def unvector_def)
  then show ?thesis using header_newline unfolding trace_inv_def
    by (intro conjI exI [of _ vcd_header] exI [of _ ?r]) (simp_all add: vcd_new_def)
qed

lemma trace_inv_read: "trace_inv k samples v \<Longrightarrow> read_trace (vcd_text v) = Some samples"
  by (auto simp: trace_inv_def read_trace_def split_out_lines)

lemma cycle_times:
  assumes "Suc k * 3103030 \<le> 2 ^ 64"
  shows "unat (of_nat k * units_per_cycle) = k * 3103030"
    and "unat (of_nat k * units_per_cycle + units_per_half_cycle) = k * 3103030 + 1551515"
proof -
  have "of_nat k * units_per_cycle = of_nat (k * 3103030)"
    "of_nat k * units_per_cycle + units_per_half_cycle = of_nat (k * 3103030 + 1551515)"
    by (simp_all add: units_value)
  moreover have "k * 3103030 + 1551515 < 2 ^ 64" using assms by simp
  ultimately show "unat (of_nat k * units_per_cycle) = k * 3103030"
    "unat (of_nat k * units_per_cycle + units_per_half_cycle) = k * 3103030 + 1551515"
    using unat_of_nat_u64 [of "k * 3103030"] unat_of_nat_u64 [of "k * 3103030 + 1551515"] by simp_all
qed

lemma trace_inv_cycle:
  assumes inv: "trace_inv k samples v" and k: "Suc k * 3103030 \<le> 2 ^ 64"
  shows "trace_inv (Suc k) (samples @ [vcd_sample k (b, ofi)]) (vcd_cycle (of_nat k) b ofi v)"
proof -
  note times = cycle_times [OF k]
  obtain ls r where v: "vcd_open v" "unat (vcd_last v) \<le> k * 3103030" "vcd_text v = concat (map out_line ls)"
    "\<forall>l \<in> set ls. newline \<notin> set l" "read_lines ls reader_start = Some r"
    "rd_time r = Some (unat (vcd_last v))" "rd_rise r = None" "rd_samples r = samples"
    using inv by (auto simp: trace_inv_def)
  let ?new = "cycle_lines (of_nat k * units_per_cycle) b ofi (vcd_last v)"
  let ?r = "r\<lparr>rd_time := Some (k * 3103030 + 1551515), rd_valid := b, rd_ofi := ofi,
    rd_samples := samples @ [vcd_sample k (b, ofi)]\<rparr>"
  have "read_lines ?new r = Some ?r"
    using read_cycle [OF v(6,7), of "of_nat k * units_per_cycle" b ofi] v(2,8)
    by (simp add: times vcd_sample_def)
  then have "read_lines (ls @ ?new) reader_start = Some ?r"
    by (simp add: read_lines_append v(5))
  then show ?thesis
    using v cycle_lines_newline vcd_cycle_text [OF v(1), of "of_nat k" b ofi]
    unfolding trace_inv_def by (intro conjI exI [of _ "ls @ ?new"] exI [of _ ?r]) (auto simp: times)
qed

lemma trace_inv_cycles:
  "trace_inv k samples v \<Longrightarrow> (k + length xs) * 3103030 \<le> 2 ^ 64 \<Longrightarrow>
   trace_inv (k + length xs) (samples @ map (\<lambda>i. vcd_sample (k + i) (xs ! i)) [0..<length xs])
     (vcd_cycles (of_nat k) xs v)"
proof (induction xs arbitrary: k samples v)
  case (Cons x xs)
  obtain b ofi where x: "x = (b, ofi)" by (cases x)
  from Cons.prems(2) have "Suc k * 3103030 \<le> 2 ^ 64" "(Suc k + length xs) * 3103030 \<le> 2 ^ 64" by simp_all
  from Cons.IH [OF trace_inv_cycle [OF Cons.prems(1) this(1), of b ofi] this(2)]
  show ?case by (simp add: x upt_conv_Cons map_Suc_upt [symmetric] add.commute comp_def del: upt_Suc)
qed simp

subsection \<open>Properties\<close>

text \<open>
  C23. Round trip of the trace: reading the file written for any run of cycles from 0 gives back
  one sample per cycle, with the validity and the imbalance that were logged (all 32 bits), the
  rising edge at the cycle's time stamp and the falling edge half a cycle later; the time stamps
  increase strictly. The stamp of cycle \<open>k\<close> lags the exact time \<open>k * 512 / 165\<close> ns by
  \<open>50 * k / 165\<close> fs.
\<close>

theorem vcd_trace_round_trip:
  assumes "length xs * unat units_per_cycle \<le> 2 ^ 64"
  shows "read_trace (vcd_text (vcd_cycles 0 xs (vcd_new True)))
      = Some (map (\<lambda>k. (k * unat units_per_cycle, k * unat units_per_cycle + unat units_per_half_cycle, xs ! k))
          [0..<length xs])
    \<and> 165 * (k * unat units_per_cycle) + 50 * k = k * 512 * 1000000"
proof -
  have units: "unat units_per_cycle = 3103030" "unat units_per_half_cycle = 1551515"
    by (simp_all add: units_value)
  have "trace_inv (0 + length xs) ([] @ map (\<lambda>i. vcd_sample (0 + i) (xs ! i)) [0..<length xs])
      (vcd_cycles (of_nat 0) xs (vcd_new True))"
    by (rule trace_inv_cycles [OF trace_inv_new]) (use assms in \<open>simp add: units\<close>)
  from trace_inv_read [OF this] show ?thesis by (simp add: units vcd_sample_def)
qed

theorem vcd_trace_round_trip_witness:
  "read_trace (vcd_text (vcd_cycles 0 [(False, 0), (True, - 5)] (vcd_new True)))
    = Some [(0, 1551515, False, 0), (3103030, 4654545, True, - 5)]"
  using vcd_trace_round_trip [of "[(False, 0), (True, - 5)]" 0] by (simp add: units_value)

end
