(* ===== verification/Doubles.thy ===== *)
theory Doubles
  imports Complex_Main "HOL-Library.Log_Nat"
begin

text \<open>
  The double arithmetic of the reports: conversion of an integer, product and quotient, for
  non-negative numbers, each rounded to the nearest double, and how exact they are.
\<close>

subsection \<open>Definitions\<close>

text \<open>A non-negative double is a fraction. A quotient is rounded to 53 significant bits, to the nearest
  and to the even one of two equally near ones. Neither overflow nor subnormal numbers occur here.\<close>

type_synonym double = "nat \<times> nat"

definition round_div :: "nat \<Rightarrow> nat \<Rightarrow> nat" where
  "round_div a b = (let q = a div b; r = a mod b in
     if 2 * r < b \<or> (2 * r = b \<and> even q) then q else q + 1)"

text \<open>The quotient of \<open>a\<close> and \<open>b\<close> times \<open>2\<close> to the power \<open>s\<close>.\<close>

definition scaled :: "nat \<Rightarrow> nat \<Rightarrow> int \<Rightarrow> nat \<times> nat" where
  "scaled a b s = (if 0 \<le> s then (a * 2 ^ nat s, b) else (a, b * 2 ^ nat (- s)))"

definition double_div :: "nat \<Rightarrow> nat \<Rightarrow> double" where
  "double_div a b =
     (if a = 0 then (0, 1)
      else let s0 = 53 + int (floorlog 2 b) - int (floorlog 2 a);
               s = (case scaled a b s0 of (n, d) \<Rightarrow> if d * 2 ^ 53 \<le> n then s0 - 1 else s0);
               m = (case scaled a b s of (n, d) \<Rightarrow> round_div n d)
           in scaled m 1 (- s))"

definition double_of :: "nat \<Rightarrow> double" where
  "double_of n = double_div n 1"

definition double_times :: "double \<Rightarrow> double \<Rightarrow> double" where
  "double_times = (\<lambda>(a, b) (c, d). double_div (a * c) (b * d))"

definition double_over :: "double \<Rightarrow> double \<Rightarrow> double" where
  "double_over = (\<lambda>(a, b) (c, d). double_div (a * d) (b * c))"

subsection \<open>Accuracy\<close>

definition double_value :: "double \<Rightarrow> real" where
  "double_value x = real (fst x) / real (snd x)"

lemma round_div_error:
  assumes "0 < b"
  shows "\<bar>real (round_div a b) - real a / real b\<bar> \<le> 1 / 2"
proof -
  define q r where "q = a div b" and "r = a mod b"
  have a: "real a = real q * real b + real r" and r: "r < b"
    using assms by (simp_all add: q_def r_def flip: of_nat_mult of_nat_add)
  have "real a / real b = real q + real r / real b" using assms by (simp add: a add_divide_distrib)
  moreover have "real r / real b \<le> 1 / 2" if "2 * r \<le> b" using that assms by (simp add: field_simps flip: of_nat_mult)
  moreover have "1 / 2 \<le> real r / real b" if "b \<le> 2 * r" using that assms by (simp add: field_simps flip: of_nat_mult)
  moreover have "0 \<le> real r / real b" "real r / real b < 1" using r by simp_all
  moreover have "round_div a b = (if 2 * r < b \<or> (2 * r = b \<and> even q) then q else q + 1)"
    by (simp add: round_div_def q_def r_def Let_def)
  ultimately show ?thesis by (auto split: if_splits)
qed

lemma scaled_value:
  assumes "0 < b"
  shows "double_value (scaled a b s) = real a / real b * 2 powi s" and "0 < snd (scaled a b s)"
  using assms by (auto simp: double_value_def scaled_def power_int_def field_simps)

text \<open>The scale puts the quotient between \<open>2 ^ 52\<close> and \<open>2 ^ 53\<close>.\<close>

lemma first_scale:
  assumes "0 < a" "0 < b"
  defines "s \<equiv> 53 + int (floorlog 2 b) - int (floorlog 2 a)"
  shows "2 ^ 52 < real a / real b * 2 powi s" and "real a / real b * 2 powi s < 2 ^ 54"
proof -
  let ?m = "floorlog 2 a" and ?n = "floorlog 2 b"
  have pos: "0 < ?m" "0 < ?n" using assms(1,2) by (simp_all add: floorlog_eq_zero_iff flip: neq0_conv)
  have nat: "2 ^ (?m - 1) \<le> a" "a < 2 ^ ?m" "2 ^ (?n - 1) \<le> b" "b < 2 ^ ?n"
    using floorlog_bounds [of a 2] floorlog_bounds [of b 2] assms(1,2) by auto
  have a: "2 ^ (?m - 1) \<le> real a" "real a < 2 ^ ?m" and b: "2 ^ (?n - 1) \<le> real b" "real b < 2 ^ ?n"
    using nat by (metis of_nat_le_iff of_nat_numeral of_nat_power, metis of_nat_less_iff of_nat_numeral of_nat_power,
      metis of_nat_le_iff of_nat_numeral of_nat_power, metis of_nat_less_iff of_nat_numeral of_nat_power)
  have s: "2 powi s = (2 ^ (53 + ?n) / 2 ^ ?m :: real)"
    by (simp add: s_def power_int_diff power_int_add power_add)
  have half: "2 ^ ?m = 2 * (2 ^ (?m - 1) :: real)" "2 ^ ?n = 2 * (2 ^ (?n - 1) :: real)"
    using pos by (simp_all flip: power_Suc)
  have "2 ^ ?m * real b < 2 * real a * 2 ^ ?n"
  proof -
    have "2 ^ ?m * real b < 2 ^ ?m * 2 ^ ?n" using b(2) by simp
    also have "\<dots> \<le> 2 * real a * 2 ^ ?n" using a(1) by (simp add: half(1))
    finally show ?thesis .
  qed
  then show "2 ^ 52 < real a / real b * 2 powi s"
    using assms(2) by (simp add: s power_add field_simps)
  have "real a * 2 ^ ?n < 2 * 2 ^ ?m * real b"
  proof -
    have "real a * 2 ^ ?n < 2 ^ ?m * 2 ^ ?n" using a(2) by simp
    also have "\<dots> \<le> 2 * 2 ^ ?m * real b" using b(1) by (simp add: half(2))
    finally show ?thesis .
  qed
  then show "real a / real b * 2 powi s < 2 ^ 54"
    using assms(2) by (simp add: s power_add field_simps)
qed

lemma double_div_scale:
  assumes "0 < a" "0 < b"
  obtains s m where "double_div a b = scaled m 1 (- s)" "2 ^ 52 \<le> real a / real b * 2 powi s"
    "\<bar>real m - real a / real b * 2 powi s\<bar> \<le> 1 / 2"
proof -
  define s0 where "s0 = 53 + int (floorlog 2 b) - int (floorlog 2 a)"
  define s where "s = (case scaled a b s0 of (n, d) \<Rightarrow> if d * 2 ^ 53 \<le> n then s0 - 1 else s0)"
  have round: "\<bar>real (case scaled a b s of (n, d) \<Rightarrow> round_div n d) - real a / real b * 2 powi s\<bar> \<le> 1 / 2"
    using round_div_error [of "snd (scaled a b s)" "fst (scaled a b s)"] scaled_value [OF assms(2), of a s]
    by (simp add: double_value_def case_prod_beta)
  have "2 ^ 52 \<le> real a / real b * 2 powi s"
  proof (cases "snd (scaled a b s0) * 2 ^ 53 \<le> fst (scaled a b s0)")
    case True
    then have "real (snd (scaled a b s0)) * 2 ^ 53 \<le> real (fst (scaled a b s0))"
      by (metis of_nat_le_iff of_nat_mult of_nat_numeral of_nat_power)
    then have "2 ^ 53 \<le> double_value (scaled a b s0)"
      using scaled_value(2) [OF assms(2), of a s0] by (simp add: double_value_def pos_le_divide_eq mult.commute)
    then have "2 ^ 53 \<le> real a / real b * 2 powi s0" by (simp only: scaled_value(1) [OF assms(2)])
    moreover have "2 ^ 52 \<le> y / 2" if "2 ^ 53 \<le> y" for y :: real using that by simp
    ultimately have "2 ^ 52 \<le> real a / real b * 2 powi s0 / 2" by blast
    also have "\<dots> = real a / real b * 2 powi s" using True by (simp add: s_def case_prod_beta power_int_diff)
    finally show ?thesis .
  next
    case False
    then show ?thesis using first_scale(1) [OF assms, folded s0_def] by (simp add: s_def case_prod_beta)
  qed
  moreover have "double_div a b = scaled (case scaled a b s of (n, d) \<Rightarrow> round_div n d) 1 (- s)"
    using assms(1) unfolding double_div_def s_def s0_def Let_def by simp
  ultimately show thesis using round by (intro that [of _ s])
qed

text \<open>The rounding of a quotient changes it by at most one part in \<open>2 ^ 53\<close>.\<close>

lemma double_div_error:
  assumes "0 < b"
  shows "\<bar>double_value (double_div a b) - real a / real b\<bar> \<le> real a / real b / 2 ^ 53"
    and "0 < snd (double_div a b)"
proof -
  have "\<bar>double_value (double_div a b) - real a / real b\<bar> \<le> real a / real b / 2 ^ 53 \<and> 0 < snd (double_div a b)"
  proof (cases "a = 0")
    case False
    let ?x = "real a / real b"
    from False have "0 < a" by simp
    then obtain s m where d: "double_div a b = scaled m 1 (- s)" and big: "2 ^ 52 \<le> ?x * 2 powi s"
      and near: "\<bar>real m - ?x * 2 powi s\<bar> \<le> 1 / 2" using assms by (rule double_div_scale)
    have p: "0 < (2 :: real) powi s" by simp
    have "\<bar>real m / 2 powi s - ?x\<bar> = \<bar>(real m - ?x * 2 powi s) / 2 powi s\<bar>"
      using p by (simp add: diff_divide_distrib)
    also have "\<dots> = \<bar>real m - ?x * 2 powi s\<bar> / 2 powi s" by (simp only: abs_divide) simp
    also have "\<dots> \<le> (1 / 2) / 2 powi s" using near p by (intro divide_right_mono) simp_all
    also have "\<dots> = 2 ^ 52 / 2 powi s / 2 ^ 53" by simp
    also have "\<dots> \<le> ?x / 2 ^ 53" using big p by (intro divide_right_mono) (simp_all only: pos_divide_le_eq zero_le_power zero_le_numeral)
    finally have "\<bar>real m / 2 powi s - ?x\<bar> \<le> ?x / 2 ^ 53" .
    moreover have "double_value (double_div a b) = real m / 2 powi s"
      using scaled_value(1) [of 1 m "- s"] by (simp add: d power_int_minus divide_inverse)
    ultimately show ?thesis using scaled_value(2) [of 1 m "- s"] by (simp only: d)
  qed (simp add: double_div_def double_value_def)
  then show "\<bar>double_value (double_div a b) - real a / real b\<bar> \<le> real a / real b / 2 ^ 53"
    and "0 < snd (double_div a b)" by blast+
qed

text \<open>Integers below \<open>2 ^ 53\<close> are doubles.\<close>

lemma double_div_exact:
  assumes "0 < b" "k < 2 ^ 53"
  shows "double_value (double_div (k * b) b) = real k"
proof (cases "k = 0")
  case False
  then have "0 < k * b" using assms(1) by simp
  then obtain s m where d: "double_div (k * b) b = scaled m 1 (- s)" and big: "2 ^ 52 \<le> real (k * b) / real b * 2 powi s"
    and near: "\<bar>real m - real (k * b) / real b * 2 powi s\<bar> \<le> 1 / 2" using assms(1) by (rule double_div_scale)
  have k: "real (k * b) / real b = real k" "real k < 2 ^ 53"
    using assms by (simp, metis of_nat_less_iff of_nat_numeral of_nat_power)
  have "0 \<le> s"
  proof (rule ccontr)
    assume "\<not> 0 \<le> s"
    then have "2 powi s \<le> (2 powi (- 1) :: real)" by (intro power_int_increasing) simp_all
    then have "real k * 2 powi s \<le> real k * (1 / 2)" by (intro mult_left_mono) (simp_all add: power_int_minus)
    with k(2) have "real k * 2 powi s < 2 ^ 52" by simp
    with big show False by (simp only: k)
  qed
  then obtain n where s: "s = int n" using nonneg_int_cases by blast
  have "\<bar>real m - real (k * 2 ^ n)\<bar> \<le> 1 / 2" using near k(1) by (simp add: s)
  then have "m = k * 2 ^ n" by linarith
  then show ?thesis using scaled_value(1) [of 1 m "- s"] by (simp add: d s power_int_minus)
qed (simp add: double_div_def double_value_def)

lemma double_of_value: "k < 2 ^ 53 \<Longrightarrow> double_value (double_of k) = real k" "0 < snd (double_of k)"
  using double_div_exact [of 1 k] double_div_error(2) [of 1 k] by (simp_all add: double_of_def)

lemma double_times_value:
  assumes "double_value x = real i" "double_value y = real j" "0 < snd x" "0 < snd y" "i * j < 2 ^ 53"
  shows "double_value (double_times x y) = real (i * j)" "0 < snd (double_times x y)"
proof -
  obtain a b c d where xy: "x = (a, b)" "y = (c, d)" by (cases x; cases y)
  have pos: "0 < b * d" using assms(3,4) by (simp add: xy)
  have "real a = real i * real b" "real c = real j * real d"
    using assms(1-4) by (simp_all add: xy double_value_def field_simps)
  then have "a = i * b" "c = j * d" by (metis of_nat_eq_iff of_nat_mult)+
  then have "a * c = i * j * (b * d)" by simp
  then show "double_value (double_times x y) = real (i * j)" "0 < snd (double_times x y)"
    using double_div_exact [OF pos assms(5)] double_div_error(2) [OF pos, of "a * c"]
    by (simp_all add: xy double_times_def)
qed

lemma double_over_error:
  assumes "0 < snd x" "0 < snd y" "0 < double_value y"
  shows "\<bar>double_value (double_over x y) - double_value x / double_value y\<bar> \<le> double_value x / double_value y / 2 ^ 53"
    and "0 < snd (double_over x y)"
proof -
  obtain a b c d where xy: "x = (a, b)" "y = (c, d)" by (cases x; cases y)
  have pos: "0 < b * c" using assms by (simp add: xy double_value_def zero_less_divide_iff)
  have "real (a * d) / real (b * c) = double_value x / double_value y"
    by (simp add: xy double_value_def)
  then show "\<bar>double_value (double_over x y) - double_value x / double_value y\<bar> \<le> double_value x / double_value y / 2 ^ 53"
    and "0 < snd (double_over x y)"
    using double_div_error [OF pos, of "a * d"] by (simp_all add: xy double_over_def)
qed

end
