(* ===== verification/Printf.thy ===== *)
theory Printf
  imports Vcd_Logger Doubles
begin

text \<open>
  The conversions of \<open>std::printf\<close> that the two programs use, and a scanner that finds the numbers in a text again.
\<close>

subsection \<open>Integers and strings\<close>

text \<open>Padding with blanks on the left (a field width), on the right (the flag \<open>-\<close>) and with zeros (the
  flag \<open>0\<close>).\<close>

definition pad_left :: "nat \<Rightarrow> string \<Rightarrow> string" where
  "pad_left w s = replicate (w - length s) CHR '' '' @ s"

definition pad_right :: "nat \<Rightarrow> string \<Rightarrow> string" where
  "pad_right w s = s @ replicate (w - length s) CHR '' ''"

definition pad_zero :: "nat \<Rightarrow> string \<Rightarrow> string" where
  "pad_zero w s = replicate (w - length s) CHR ''0'' @ s"

definition signed_decimal :: "int \<Rightarrow> string" where
  "signed_decimal i = (if i < 0 then CHR ''-'' # decimal (nat (- i)) else decimal (nat i))"

text \<open>\<open>%08X\<close> of a 32-bit word.\<close>

definition hex_digit :: "nat \<Rightarrow> char" where
  "hex_digit n = (if n < 10 then digit n else char_of (55 + n))"

definition hex8 :: "u32 \<Rightarrow> string" where
  "hex8 w = map (\<lambda>i. hex_digit (unat (drop_bit (28 - 4 * i) w AND 15))) [0..<8]"

subsection \<open>Doubles\<close>

text \<open>\<open>%.kf\<close>: the exact value of the double in units of the \<open>k\<close>-th decimal, rounded.\<close>

definition units :: "nat \<Rightarrow> double \<Rightarrow> nat" where
  "units k = (\<lambda>(a, b). round_div (a * 10 ^ k) b)"

definition fixed :: "nat \<Rightarrow> double \<Rightarrow> string" where
  "fixed k x = decimal (units k x div 10 ^ k) @ ''.'' @ pad_zero k (decimal (units k x mod 10 ^ k))"

subsection \<open>A scanner\<close>

definition is_digit :: "char \<Rightarrow> bool" where
  "is_digit c \<longleftrightarrow> 48 \<le> (of_char c :: nat) \<and> (of_char c :: nat) \<le> 57"

text \<open>The integers in a text, a minus sign right before a digit being a sign.\<close>

definition scanned :: "bool \<Rightarrow> nat option \<Rightarrow> int list" where
  "scanned neg cur = (case cur of None \<Rightarrow> [] | Some n \<Rightarrow> [if neg then - int n else int n])"

fun scan :: "bool \<Rightarrow> nat option \<Rightarrow> string \<Rightarrow> int list" where
  "scan neg cur [] = scanned neg cur"
| "scan neg cur (c # s) =
     (if is_digit c then scan neg (Some (10 * (case cur of None \<Rightarrow> 0 | Some n \<Rightarrow> n) + (of_char c - 48))) s
      else scanned neg cur @ scan (c = CHR ''-'') None s)"

definition integers :: "string \<Rightarrow> int list" where
  "integers = scan False None"

subsection \<open>Reading numbers\<close>

lemma of_char_digit_below: "n < 10 \<Longrightarrow> is_digit (digit n)"
  by (simp add: is_digit_def of_char_digit)

lemma decimal_digits: "c \<in> set (decimal n) \<Longrightarrow> is_digit c"
proof (induction n rule: decimal.induct)
  case (1 n)
  then show ?case
    using of_char_digit_below [of n] of_char_digit_below [of "n mod 10"]
    by (auto simp: decimal.simps [of n] split: if_splits)
qed

lemma decimal_Cons: "\<exists>c cs. decimal n = c # cs"
  by (cases "decimal n") (simp_all add: decimal.simps [of n] split: if_splits)

lemma scan_digits:
  "(\<And>c. c \<in> set ds \<Longrightarrow> is_digit c) \<Longrightarrow>
   scan neg (Some m) (ds @ s) = scan neg (Some (foldl (\<lambda>n c. 10 * n + (of_char c - 48)) m ds)) s"
  by (induction ds arbitrary: m) simp_all

lemma scan_decimal [simp]: "scan neg None (decimal n @ s) = scan neg (Some n) s"
proof -
  obtain c cs where n: "decimal n = c # cs" using decimal_Cons by blast
  have "undecimal (c # cs) = n" by (simp add: n [symmetric] undecimal_decimal)
  then have val: "foldl (\<lambda>n c. 10 * n + (of_char c - 48)) (of_char c - 48) cs = n" by (simp add: undecimal_def)
  have "is_digit d" if "d \<in> set cs" for d using decimal_digits [of d n] that by (simp add: n)
  moreover have "is_digit c" using decimal_digits [of c n] by (simp add: n)
  ultimately show ?thesis by (simp add: n scan_digits val)
qed

lemma scan_decimal_end [simp]: "scan neg None (decimal n) = [if neg then - int n else int n]"
  using scan_decimal [of neg n "[]"] by (simp add: scanned_def)

lemma scan_signed [simp]: "scan False None (signed_decimal i @ s) = scan (i < 0) (Some (nat \<bar>i\<bar>)) s"
  by (simp add: signed_decimal_def is_digit_def scanned_def)

lemma scan_blanks: "scan neg None (replicate k CHR '' '' @ s) = scan (neg \<and> k = 0) None s"
  by (induction k arbitrary: neg) (simp_all add: is_digit_def scanned_def)

lemma scan_padded [simp]: "scan False None (pad_left w (decimal n) @ s) = scan False (Some n) s"
  by (simp add: pad_left_def scan_blanks)

lemma scan_padded_end [simp]: "scan False None (pad_left w (decimal n)) = [int n]"
  using scan_padded [of w n "[]"] by (simp add: scanned_def)

lemma scanned_signed [simp]: "scanned (i < 0) (Some (nat \<bar>i\<bar>)) = [i]"
  by (simp add: scanned_def)

lemma scanned_simps [simp]: "scanned neg None = []" "scanned False (Some n) = [int n]"
  by (simp_all add: scanned_def)

lemma scan_bar [simp]: "scan neg None (replicate k CHR ''#'') = []"
  by (induction k arbitrary: neg) (simp_all add: is_digit_def)

lemma undecimal_join: "undecimal (a @ b) = undecimal a * 10 ^ length b + undecimal b"
proof -
  have * : "foldl (\<lambda>n c. 10 * n + (of_char c - 48)) m b = m * 10 ^ length b + undecimal b" for m
    by (induction b rule: rev_induct) (simp_all add: undecimal_def algebra_simps)
  show ?thesis using * [of "undecimal a"] by (simp add: undecimal_def [of a] undecimal_def [of "a @ b"])
qed

lemma decimal_length: "n < 10 ^ Suc k \<Longrightarrow> length (decimal n) \<le> Suc k"
proof (induction k arbitrary: n)
  case 0
  then show ?case by (simp add: decimal.simps [of n])
next
  case (Suc k)
  then have "n div 10 < 10 ^ Suc k" by simp
  with Suc.IH [OF this] show ?case by (simp add: decimal.simps [of n])
qed

lemma decimal_other: "\<not> is_digit c \<Longrightarrow> c \<notin> set (decimal n)"
  using decimal_digits by blast

lemma filter_decimal [simp]: "filter is_digit (decimal n) = decimal n"
  using decimal_digits by (simp add: filter_id_conv)

text \<open>A number padded with zeros to a number of digits and put behind another one.\<close>

lemma undecimal_padded: "undecimal (pad_zero k (decimal n)) = n"
proof -
  have "undecimal (replicate j CHR ''0'') = 0" for j
    by (induction j) (simp_all add: undecimal_def)
  then show ?thesis by (simp add: pad_zero_def undecimal_join undecimal_decimal)
qed

lemma undecimal_fraction:
  assumes "f < 10 ^ k" "0 < k"
  shows "undecimal (decimal w @ pad_zero k (decimal f)) = w * 10 ^ k + f"
proof -
  obtain j where k: "k = Suc j" using assms(2) gr0_implies_Suc by blast
  have "length (decimal f) \<le> k" using decimal_length [of f j] assms(1) by (simp only: k)
  then have "length (pad_zero k (decimal f)) = k" by (simp add: pad_zero_def)
  then show ?thesis by (simp add: undecimal_join undecimal_decimal undecimal_padded)
qed

lemma filter_pad_zero [simp]: "filter is_digit (pad_zero k (decimal n)) = pad_zero k (decimal n)"
  by (simp add: pad_zero_def is_digit_def [of "CHR ''0''"])

lemma scan_number:
  assumes "\<And>c. c \<in> set ds \<Longrightarrow> is_digit c" "ds \<noteq> []"
  shows "scan neg None (ds @ s) = scan neg (Some (undecimal ds)) s"
proof -
  obtain c cs where ds: "ds = c # cs" using assms(2) by (cases ds) auto
  have "is_digit d" if "d \<in> set cs" for d using assms(1) that by (simp add: ds)
  then show ?thesis using assms(1) [of c] by (simp add: ds scan_digits undecimal_def)
qed

lemma scan_pad_zero [simp]: "scan neg None (pad_zero k (decimal n) @ s) = scan neg (Some n) s"
proof -
  have "pad_zero k (decimal n) \<noteq> []" using decimal_Cons [of n] by (auto simp: pad_zero_def)
  moreover have "is_digit c" if "c \<in> set (pad_zero k (decimal n))" for c
    using that decimal_digits by (auto simp: pad_zero_def is_digit_def [of "CHR ''0''"])
  ultimately show ?thesis using scan_number [of "pad_zero k (decimal n)" neg s] by (simp add: undecimal_padded)
qed

text \<open>What \<open>%.kf\<close> prints is read as two numbers, which together are the value in units of the last decimal.\<close>

definition joined :: "nat \<Rightarrow> int \<Rightarrow> int \<Rightarrow> nat" where
  "joined k w f = nat w * 10 ^ k + nat f"

lemma scan_fixed [simp]:
  "scan neg None (fixed k x @ s) = (if neg then - int (units k x div 10 ^ k) else int (units k x div 10 ^ k))
     # scan False (Some (units k x mod 10 ^ k)) s"
  by (simp add: fixed_def is_digit_def [of "CHR ''.''"] scanned_def)

lemma joined_units [simp]: "joined k (int (units k x div 10 ^ k)) (int (units k x mod 10 ^ k)) = units k x"
  unfolding joined_def nat_int by (rule div_mult_mod_eq)

lemma units_error:
  assumes "0 < snd x"
  shows "\<bar>real (units k x) / 10 ^ k - double_value x\<bar> \<le> 1 / (2 * 10 ^ k)"
proof -
  obtain a b where x: "x = (a, b)" by (cases x)
  let ?r = "round_div (a * 10 ^ k) b"
  have "\<bar>real ?r - real (a * 10 ^ k) / real b\<bar> \<le> 1 / 2"
    using assms by (intro round_div_error) (simp add: x)
  then have "\<bar>real ?r - real (a * 10 ^ k) / real b\<bar> / 10 ^ k \<le> 1 / 2 / 10 ^ k" by (intro divide_right_mono) simp_all
  then have "\<bar>(real ?r - real (a * 10 ^ k) / real b) / 10 ^ k\<bar> \<le> 1 / 2 / 10 ^ k" by (simp only: abs_divide) simp
  then show ?thesis by (simp add: x units_def double_value_def diff_divide_distrib mult.commute)
qed

lemma hex8_paren: "CHR '')'' \<notin> set (hex8 w)" "newline \<notin> set (hex8 w)"
proof -
  have "hex_digit n \<noteq> CHR '')'' \<and> hex_digit n \<noteq> newline" if "n < 16" for n
  proof -
    have "of_char (hex_digit n) = (if n < 10 then 48 + n else 55 + n)"
      using that by (simp add: hex_digit_def of_char_digit of_char_of)
    then have "(of_char (hex_digit n) :: nat) \<ge> 48" by simp
    then show ?thesis by (auto simp: newline_def)
  qed
  moreover have "unat (x AND 15 :: u32) < 16" for x
    using word_and_le1 [of x 15] by (simp add: word_le_nat_alt)
  ultimately have "CHR '')'' \<noteq> hex_digit (unat (x AND 15 :: u32))" "newline \<noteq> hex_digit (unat (x AND 15 :: u32))" for x
    by metis+
  then show "CHR '')'' \<notin> set (hex8 w)" "newline \<notin> set (hex8 w)" by (auto simp: hex8_def)
qed

subsection \<open>Lines\<close>

lemma printed_line:
  "newline \<notin> set (pad_left w (decimal n))" "newline \<notin> set (pad_zero w (decimal n))" "newline \<notin> set (signed_decimal i)"
  "newline \<notin> set (fixed k x)"
  using decimal_line by (auto simp: pad_left_def pad_zero_def signed_decimal_def fixed_def newline_def)

lemmas no_newline = decimal_line printed_line hex8_paren(2)

end
