(* ===== verification/Demo_Run.thy ===== *)
theory Demo_Run
  imports Synthetic_Run Latency_Stats Vcd_Logger
begin

text \<open>
  The demonstration program of \<open>main.cpp\<close>: the pipeline on the synthetic stream and the trace
  writer under the engine, the loop with its cycle limit, the report and the exit status. The
  printed text is represented by the values it shows. The seed, a constant of the generator, and
  whether the trace file could be opened are parameters.
\<close>

subsection \<open>The rig\<close>

record rig =
  rig_pipeline :: tick_pipeline
  rig_vcd :: vcd

definition rig_new :: "itch_stream \<Rightarrow> bool \<Rightarrow> rig" where
  "rig_new st opened = \<lparr>rig_pipeline = tick_new st, rig_vcd = vcd_new opened\<rparr>"

definition wire_busy :: "tick_pipeline \<Rightarrow> bool" where
  "wire_busy p \<longleftrightarrow> sl_msg (tt_pcs p) \<noteq> None"

text \<open>The two objects a context pointer of the program refers to.\<close>

datatype rig_context = At_Pipeline | At_Rig

definition rig_posedge :: "itch_stream \<Rightarrow> (rig_context, rig) callback" where
  "rig_posedge st context cycle r =
     (if context = Some At_Pipeline then
        map_option (\<lambda>p. r\<lparr>rig_pipeline := p\<rparr>) (tick_posedge st cycle (rig_pipeline r))
      else None)"

definition rig_negedge :: "(rig_context, rig) callback" where
  "rig_negedge context cycle r =
     (if context = Some At_Pipeline then
        map_option (\<lambda>p. r\<lparr>rig_pipeline := p\<rparr>) (tick_negedge cycle (rig_pipeline r))
      else None)"

definition vcd_negedge :: "(rig_context, rig) callback" where
  "vcd_negedge context cycle r =
     (if context = Some At_Rig then
        Some (r\<lparr>rig_vcd := vcd_cycle cycle (wire_busy (rig_pipeline r)) (tt_last_ofi (rig_pipeline r)) (rig_vcd r)\<rparr>)
      else None)"

definition demo_engine :: "itch_stream \<Rightarrow> (rig_context, rig) engine option" where
  "demo_engine st =
     (let (ok1, e1) = on_posedge (Some (rig_posedge st)) (Some At_Pipeline) engine_new in
      if \<not> ok1 then None else
      let (ok2, e2) = on_negedge (Some rig_negedge) (Some At_Pipeline) e1 in
      if \<not> ok2 then None else
      let (ok3, e3) = on_negedge (Some vcd_negedge) (Some At_Rig) e2 in
      if \<not> ok3 then None else Some e3)"

definition cycle_limit :: u64 where "cycle_limit = 100000"

function demo_drive ::
  "itch_stream \<Rightarrow> u64 \<Rightarrow> (rig_context, rig) engine \<Rightarrow> rig \<Rightarrow> ((rig_context, rig) engine \<times> rig) option" where
  "demo_drive st limit e r =
     (if \<not> tick_done st (rig_pipeline r) \<and> en_cycle e < limit then
        (case engine_step e r of None \<Rightarrow> None | Some (e', r') \<Rightarrow> demo_drive st limit e' r')
      else Some (e, r))"
  by pat_completeness auto

termination
  by (relation "measure (\<lambda>(st, limit, e, r). unat limit - unat (en_cycle e))")
    (auto dest!: engine_step_advances dest: cycle_below)

declare demo_drive.simps [simp del]

subsection \<open>The report\<close>

definition to_ns :: "u64 \<Rightarrow> u64 \<times> u64" where
  "to_ns cycles = (let e4 = cycles_to_ns_e4 cycles in (e4 div 10000, e4 mod 10000))"

text \<open>A line of \<open>print_cycles_ns\<close>: the cycles, the whole nanoseconds and four decimals.\<close>

definition cycles_line :: "u32 \<Rightarrow> u32 \<times> u64 \<times> u64" where
  "cycles_line c = (c, to_ns (ucast c))"

definition peak_of :: "u32 list \<Rightarrow> u32" where
  "peak_of h = foldl (\<lambda>peak c. if peak < c then c else peak) 0 h"

text \<open>A row of the histogram: its bounds, its count and the length of its bar; \<open>None\<close> is a
  division by zero.\<close>

definition bar_row :: "u32 list \<Rightarrow> nat \<Rightarrow> (u32 \<times> u32 \<times> u32 \<times> u32) option" where
  "bar_row h b =
     (let peak = peak_of h; lo = of_nat b * bin_width_cycles in
      if peak = 0 then None
      else Some (lo, lo + bin_width_cycles - 1, h ! b, (h ! b * 40 + peak - 1) div peak))"

definition bar_rows :: "u32 list \<Rightarrow> (u32 \<times> u32 \<times> u32 \<times> u32) list option" where
  "bar_rows h = those (map (bar_row h) (filter (\<lambda>b. h ! b \<noteq> 0) [0..<histogram_bins]))"

definition message_ofi :: "tick_pipeline \<Rightarrow> nat \<Rightarrow> i32 option" where
  "message_ofi p i = map_option ms_ofi (at i (tt_state p))"

definition scan_ofi :: "nat \<times> i32 \<times> i32 \<Rightarrow> i32 \<Rightarrow> nat \<times> i32 \<times> i32" where
  "scan_ofi = (\<lambda>(nonzero, lo, hi) v.
     (if v \<noteq> 0 then nonzero + 1 else nonzero, if v <s lo then v else lo, if hi <s v then v else hi))"

record demo_report =
  rep_counts :: "nat \<times> nat \<times> nat"
  rep_cycles :: u64
  rep_posted :: u64
  rep_lines :: "(u32 \<times> u64 \<times> u64) list"
  rep_bars :: "(u32 \<times> u32 \<times> u32 \<times> u32) list"
  rep_ofi :: "nat \<times> i32 \<times> i32"
  rep_cumulative :: i64
  rep_dropped :: u64

definition demo_report_of :: "synth \<Rightarrow> u64 \<Rightarrow> tick_pipeline \<Rightarrow> demo_report option" where
  "demo_report_of s cycle p = do {
     t \<leftarrow> pipeline_stats p;
     rows \<leftarrow> bar_rows (st_histogram t);
     ofis \<leftarrow> those (map (message_ofi p) [0..<message_count]);
     Some \<lparr>rep_counts = (count_of s (ascii CHR ''A''), count_of s (ascii CHR ''E''), count_of s (ascii CHR ''X'')),
           rep_cycles = cycle, rep_posted = dma_posted (tt_engine p),
           rep_lines = map cycles_line [st_min t, st_median t, st_p99 t, st_max t],
           rep_bars = rows, rep_ofi = foldl scan_ofi (0, 0, 0) ofis,
           rep_cumulative = tt_cumulative p, rep_dropped = ob_overflow (tt_book p)\<rparr> }"

text \<open>The exit status, the report if the run was completed, and the trace file.\<close>

definition demo_main :: "u32 \<Rightarrow> bool \<Rightarrow> (nat \<times> demo_report option \<times> string) option" where
  "demo_main seed opened = do {
     s \<leftarrow> synthetic_stream seed;
     let st = synth_itch s;
     case demo_engine st of
       None \<Rightarrow> Some (1, None, vcd_text (rig_vcd (rig_new st opened)))
     | Some e \<Rightarrow> do {
         (e', r) \<leftarrow> demo_drive st cycle_limit e (rig_new st opened);
         if \<not> tick_ok st (rig_pipeline r) then Some (1, None, vcd_text (rig_vcd r))
         else do {
           rep \<leftarrow> demo_report_of s (en_cycle e') (rig_pipeline r);
           Some (if rep_dropped rep = 0 \<and> rep_cumulative rep \<noteq> 0 then 0 else 1, Some rep,
                 vcd_text (rig_vcd r)) } } }"

subsection \<open>The loop\<close>

lemma demo_engine_slots:
  "\<exists>e. demo_engine st = Some e \<and> en_cycle e = 0
    \<and> (\<forall>c r. engine_step (e\<lparr>en_cycle := c\<rparr>) r
        = map_option (\<lambda>p'. (e\<lparr>en_cycle := c + 1\<rparr>, \<lparr>rig_pipeline = p',
             rig_vcd = vcd_cycle c (wire_busy p') (tt_last_ofi p') (rig_vcd r)\<rparr>))
           (tick_cycle st c (rig_pipeline r)))"
proof -
  define e :: "(rig_context, rig) engine" where "e = \<lparr>
    en_posedge = (replicate max_callbacks slot_empty)[0 :=
      \<lparr>slot_callback = Some (rig_posedge st), slot_context = Some At_Pipeline\<rparr>],
    en_negedge = (replicate max_callbacks slot_empty)[
      0 := \<lparr>slot_callback = Some rig_negedge, slot_context = Some At_Pipeline\<rparr>,
      Suc 0 := \<lparr>slot_callback = Some vcd_negedge, slot_context = Some At_Rig\<rparr>],
    en_count = 1, en_negedge_count = 2, en_cycle = 0\<rparr>"
  have "demo_engine st = Some e"
    by (simp add: demo_engine_def on_posedge_def on_negedge_def engine_new_def max_callbacks_def e_def)
  moreover have "take (en_count e) (en_posedge e)
      = [\<lparr>slot_callback = Some (rig_posedge st), slot_context = Some At_Pipeline\<rparr>]"
    "take (en_negedge_count e) (en_negedge e)
      = [\<lparr>slot_callback = Some rig_negedge, slot_context = Some At_Pipeline\<rparr>,
         \<lparr>slot_callback = Some vcd_negedge, slot_context = Some At_Rig\<rparr>]"
    by (simp_all add: e_def max_callbacks_def numeral_eq_Suc)
  then have "engine_step (e\<lparr>en_cycle := c\<rparr>) r
        = map_option (\<lambda>p'. (e\<lparr>en_cycle := c + 1\<rparr>, \<lparr>rig_pipeline = p',
             rig_vcd = vcd_cycle c (wire_busy p') (tt_last_ofi p') (rig_vcd r)\<rparr>))
           (tick_cycle st c (rig_pipeline r))" for c r
    by (cases r) (auto simp: engine_step_def tick_cycle_def rig_posedge_def rig_negedge_def vcd_negedge_def
        map_option_case split: option.splits)
  ultimately show ?thesis by (intro exI [of _ e]) (simp add: e_def)
qed

text \<open>What is logged for cycle \<open>k\<close>: whether a message is on the wire after it, and the last
  imbalance output so far.\<close>

definition demo_sample :: "itch_stream \<Rightarrow> nat \<Rightarrow> bool \<times> i32" where
  "demo_sample st k = (on_wire st (Suc k) \<noteq> None, last_ofi st (passed st 7 (Suc k)))"

definition demo_trace :: "itch_stream \<Rightarrow> bool \<Rightarrow> nat \<Rightarrow> vcd" where
  "demo_trace st opened n = vcd_cycles 0 (map (demo_sample st) [0..<n]) (vcd_new opened)"

lemma vcd_cycles_append:
  "vcd_cycles c (xs @ [(b, ofi)]) v = vcd_cycle (c + of_nat (length xs)) b ofi (vcd_cycles c xs v)"
  by (induction c xs v rule: vcd_cycles.induct) (simp_all add: add.assoc add.commute [of 1])

lemma demo_trace_Suc:
  assumes "tick_inv st (Suc n) p"
  shows "demo_trace st opened (Suc n) = vcd_cycle (of_nat n) (wire_busy p) (tt_last_ofi p) (demo_trace st opened n)"
  using assms by (simp add: demo_trace_def demo_sample_def vcd_cycles_append tick_inv_def pcs_holds_def wire_busy_def)

lemma demo_drive_from:
  assumes wf: "wf_stream st" and step: "\<And>c r. engine_step (e\<lparr>en_cycle := c\<rparr>) r
        = map_option (\<lambda>p'. (e\<lparr>en_cycle := c + 1\<rparr>, \<lparr>rig_pipeline = p',
             rig_vcd = vcd_cycle c (wire_busy p') (tt_last_ofi p') (rig_vcd r)\<rparr>))
           (tick_cycle st c (rig_pipeline r))"
    and n: "n = finish st" "n < unat limit"
  shows "t \<le> n \<Longrightarrow> tick_inv st t p \<Longrightarrow>
    \<exists>p'. demo_drive st limit (e\<lparr>en_cycle := of_nat t\<rparr>) \<lparr>rig_pipeline = p, rig_vcd = demo_trace st opened t\<rparr>
        = Some (e\<lparr>en_cycle := of_nat n\<rparr>, \<lparr>rig_pipeline = p', rig_vcd = demo_trace st opened n\<rparr>)
      \<and> tick_inv st n p'"
proof (induction "n - t" arbitrary: t p)
  case 0
  then have "t = n" "tick_done st p" using tick_inv_done [OF wf_sized [OF wf]] n by auto
  with 0 show ?case by (subst demo_drive.simps) auto
next
  case (Suc d)
  then have less: "t < n" by simp
  with n have t: "t < 2 ^ 64" using unat_u64_less [of limit] by simp
  from tick_cycle_step [OF wf_sized [OF wf] t Suc.prems(2) wf_clear [OF wf]] obtain p' where
    p': "tick_cycle st (of_nat t) p = Some p'" "tick_inv st (Suc t) p'" by blast
  have "\<not> tick_done st p" using tick_inv_done [OF wf_sized [OF wf] Suc.prems(2)] less n by simp
  moreover have "(of_nat t :: u64) < limit" using less n t by (simp add: word_less_nat_alt unat_of_nat)
  ultimately have "demo_drive st limit (e\<lparr>en_cycle := of_nat t\<rparr>) \<lparr>rig_pipeline = p, rig_vcd = demo_trace st opened t\<rparr>
      = demo_drive st limit (e\<lparr>en_cycle := of_nat (Suc t)\<rparr>)
          \<lparr>rig_pipeline = p', rig_vcd = demo_trace st opened (Suc t)\<rparr>"
    using demo_trace_Suc [OF p'(2), of opened]
    by (subst demo_drive.simps) (simp add: step p'(1) add.commute)
  moreover have "d = n - Suc t" "Suc t \<le> n" using Suc.hyps(2) less by auto
  ultimately show ?case using Suc.hyps(1) [OF _ _ p'(2)] by simp
qed

subsection \<open>The values of the report\<close>

lemma those_map: "(\<And>x. x \<in> set xs \<Longrightarrow> f x = Some (g x)) \<Longrightarrow> those (map f xs) = Some (map g xs)"
  by (induction xs) auto

lemma peak_from:
  "m \<le> foldl (\<lambda>peak c. if peak < c then c else peak) m h
   \<and> (\<forall>c \<in> set h. c \<le> foldl (\<lambda>peak c. if peak < c then c else peak) m h)
   \<and> foldl (\<lambda>peak c. if peak < c then c else peak) m h \<in> insert m (set h)" for m :: u32
proof (induction h arbitrary: m)
  case (Cons c h)
  from Cons.IH [of "if m < c then c else m"] show ?case by (auto split: if_splits)
qed simp

lemma bar_length:
  fixes c peak :: u32
  assumes "0 < c" "c \<le> peak" "unat peak \<le> 2 ^ 24"
  shows "1 \<le> unat ((c * 40 + peak - 1) div peak) \<and> unat ((c * 40 + peak - 1) div peak) \<le> 40"
proof -
  have c: "0 < unat c" "unat c \<le> unat peak" using assms by (simp_all add: word_less_nat_alt word_le_nat_alt)
  have "c * 40 + peak - 1 = of_nat (unat c * 40 + unat peak - 1)"
    using c by (simp add: of_nat_diff)
  moreover have "unat c * 40 + unat peak - 1 < 2 ^ 32" using c assms(3) by simp
  ultimately have n: "unat (c * 40 + peak - 1) = unat c * 40 + unat peak - 1" by (simp add: unat_of_nat)
  have "unat peak \<le> unat c * 40 + unat peak - 1" using c by simp
  then have "1 \<le> (unat c * 40 + unat peak - 1) div unat peak"
    using c by (simp add: Suc_le_eq div_greater_zero_iff)
  moreover have "unat c * 40 + unat peak - 1 < 41 * unat peak" using c by simp
  then have "(unat c * 40 + unat peak - 1) div unat peak < 41"
    by (subst div_less_iff_less_mult) (use c in auto)
  ultimately show ?thesis by (simp add: unat_div n)
qed

lemma bar_rows_ok:
  assumes "length h = histogram_bins" "\<forall>c \<in> set h. unat c \<le> 2 ^ 24"
  shows "\<exists>rows. bar_rows h = Some rows
    \<and> (\<forall>(lo, hi, count, bar) \<in> set rows. hi = lo + 1 \<and> count \<in> set h \<and> 1 \<le> unat bar \<and> unat bar \<le> 40)"
proof -
  have peak: "\<forall>c \<in> set h. c \<le> peak_of h" "peak_of h = 0 \<or> peak_of h \<in> set h"
    using peak_from [of 0 h] by (auto simp: peak_of_def)
  then have small: "unat (peak_of h) \<le> 2 ^ 24" using assms(2) by auto
  define row where "row b = (of_nat b * bin_width_cycles, of_nat b * bin_width_cycles + bin_width_cycles - 1,
    h ! b, (h ! b * 40 + peak_of h - 1) div peak_of h)" for b
  have ok: "bar_row h b = Some (row b) \<and> 0 < h ! b \<and> h ! b \<le> peak_of h \<and> h ! b \<in> set h"
    if "b \<in> set (filter (\<lambda>b. h ! b \<noteq> 0) [0..<histogram_bins])" for b
  proof -
    have b: "b < length h" "h ! b \<noteq> 0" using that assms(1) by auto
    then have "h ! b \<in> set h" by simp
    with peak(1) have "h ! b \<le> peak_of h" by blast
    moreover have "0 < h ! b" using b(2) by (simp add: word_neq_0_conv)
    ultimately have "peak_of h \<noteq> 0" by (metis leD)
    with \<open>h ! b \<in> set h\<close> \<open>h ! b \<le> peak_of h\<close> \<open>0 < h ! b\<close> show ?thesis
      by (simp add: bar_row_def row_def Let_def)
  qed
  then have "bar_rows h = Some (map row (filter (\<lambda>b. h ! b \<noteq> 0) [0..<histogram_bins]))"
    unfolding bar_rows_def by (intro those_map) blast
  moreover have "\<forall>(lo, hi, count, bar) \<in> set (map row (filter (\<lambda>b. h ! b \<noteq> 0) [0..<histogram_bins])).
      hi = lo + 1 \<and> count \<in> set h \<and> 1 \<le> unat bar \<and> unat bar \<le> 40"
    using ok bar_length [OF _ _ small] by (auto simp: row_def bin_width_cycles_def)
  ultimately show ?thesis by blast
qed

lemma scan_ofi_fold:
  "case foldl scan_ofi (n, lo, hi) vs of (n', lo', hi') \<Rightarrow>
     n' = n + length (filter (\<lambda>v. v \<noteq> 0) vs) \<and> sint lo' \<le> sint lo \<and> sint hi \<le> sint hi'
     \<and> (\<forall>v \<in> set vs. sint lo' \<le> sint v \<and> sint v \<le> sint hi')
     \<and> lo' \<in> insert lo (set vs) \<and> hi' \<in> insert hi (set vs)"
proof (induction vs arbitrary: n lo hi)
  case (Cons v vs)
  from Cons.IH [of "if v \<noteq> 0 then n + 1 else n" "if v <s lo then v else lo" "if hi <s v then v else hi"]
  show ?case by (auto simp: scan_ofi_def word_sless_alt split: prod.splits if_splits)
qed simp

text \<open>The latencies the pipeline promises for a stream.\<close>

definition latencies :: "itch_stream \<Rightarrow> u32 list" where
  "latencies st = map (\<lambda>k. of_nat (expected_latency st k)) [0..<is_count st]"

lemma finish_received:
  assumes "sized_stream st" "finish st \<le> t"
  shows "\<forall>k < is_count st. received st k + 9 < t"
proof -
  have "passed st 9 t = is_count st" using finish_iff [OF assms(1), of t] assms(2) by simp
  then show ?thesis using passed_less [OF assms(1), of _ 9 t] by auto
qed

lemma finish_passed:
  assumes "sized_stream st" "finish st \<le> t" "d \<le> 9"
  shows "passed st d t = is_count st"
proof (rule nat_eq_by_less)
  fix j show "j < passed st d t \<longleftrightarrow> j < is_count st"
    using finish_received [OF assms(1,2)] assms(3) by (auto simp: passed_less [OF assms(1)] dest: spec [of _ j])
qed

lemma finished_compute:
  assumes wf: "sized_stream st" and inv: "tick_inv st (finish st) p"
  shows "compute_with (tt_latency p) (tt_completed p) scratch = compute_with (latencies st) (is_count st) scratch"
    and "tt_completed p = is_count st"
proof -
  show fin: "tt_completed p = is_count st"
    using inv finish_passed [OF wf order_refl, of 9] by (simp add: tick_inv_def dma_part_def)
  have lat: "length (tt_latency p) = is_capacity st"
    "\<forall>k < is_count st. tt_latency p ! k = of_nat (expected_latency st k)"
    using inv finish_passed [OF wf order_refl, of 9] by (simp_all add: tick_inv_def dma_part_def)
  have cap: "is_count st \<le> is_capacity st" using wf by (simp add: sized_stream_def)
  have take: "take (is_count st) (tt_latency p) = latencies st"
    using lat cap by (intro nth_equalityI) (simp_all add: latencies_def)
  have "length (latencies st) = is_count st" by (simp add: latencies_def)
  then show "compute_with (tt_latency p) (tt_completed p) scratch = compute_with (latencies st) (is_count st) scratch"
    using lat(1) cap take unfolding compute_with_def fin by (simp add: not_less)
qed

lemma finished_stats:
  assumes wf: "sized_stream st" and inv: "tick_inv st (finish st) p"
  shows "pipeline_stats p = stats_compute (latencies st) (is_count st)"
    and "is_count st \<le> stats_scratch \<Longrightarrow> 0 < is_count st \<Longrightarrow>
      \<exists>t. pipeline_stats p = Some t \<and> st_count t = is_count st \<and> length (st_histogram t) = histogram_bins
        \<and> (\<forall>c \<in> set (st_histogram t). unat c \<le> 2 ^ 24)"
proof -
  have len: "length (latencies st) = is_count st" by (simp add: latencies_def)
  show "pipeline_stats p = stats_compute (latencies st) (is_count st)"
    using finished_compute [OF wf inv] by (simp add: pipeline_stats_def stats_compute_def)
  moreover assume n: "is_count st \<le> stats_scratch" "0 < is_count st"
  let ?h = "foldl count_bin (replicate histogram_bins 0) (latencies st)"
  have "length ?h = histogram_bins" and bin: "\<forall>b < histogram_bins. ?h ! b
      = of_nat (length (filter (\<lambda>s. bin_of s = b) (latencies st)))"
    using count_bins [of "replicate histogram_bins 0" "latencies st"] by simp_all
  moreover have "\<forall>c \<in> set ?h. unat c \<le> 2 ^ 24"
  proof
    fix c assume "c \<in> set ?h"
    then obtain b where "b < histogram_bins" "c = ?h ! b" using calculation(2) by (metis in_set_conv_nth)
    with bin have c: "c = of_nat (length (filter (\<lambda>s. bin_of s = b) (latencies st)))" by simp
    have "length (filter (\<lambda>s. bin_of s = b) (latencies st)) \<le> 256"
      using length_filter_le [of "\<lambda>s. bin_of s = b" "latencies st"] n(1) len by (simp add: stats_scratch_def)
    then show "unat c \<le> 2 ^ 24" by (simp add: c unat_of_nat)
  qed
  ultimately show "\<exists>t. pipeline_stats p = Some t \<and> st_count t = is_count st
      \<and> length (st_histogram t) = histogram_bins \<and> (\<forall>c \<in> set (st_histogram t). unat c \<le> 2 ^ 24)"
    using compute_with_defined [of "is_count st" "latencies st" "replicate stats_scratch 0"] n len
    by (simp add: stats_compute_def stats_scratch_def)
qed

lemma demo_report_finished:
  assumes gen: "generated message_count a s orders book" and inv: "tick_inv (synth_itch s) (finish (synth_itch s)) p"
  shows "\<exists>rep t. demo_report_of s cycle p = Some rep \<and> rep_cycles rep = cycle
    \<and> rep_posted rep = of_nat message_count \<and> rep_dropped rep = 0
    \<and> stats_compute (latencies (synth_itch s)) message_count = Some t
    \<and> rep_lines rep = map cycles_line [st_min t, st_median t, st_p99 t, st_max t]
    \<and> bar_rows (st_histogram t) = Some (rep_bars rep)
    \<and> (\<forall>(lo, hi, count, bar) \<in> set (rep_bars rep). hi = lo + 1 \<and> 1 \<le> unat bar \<and> unat bar \<le> 40)
    \<and> sint (rep_cumulative rep) = (\<Sum>j < message_count. sint (expected_ofi (synth_itch s) j))
    \<and> rep_ofi rep = foldl scan_ofi (0, 0, 0) (map (expected_ofi (synth_itch s)) [0..<message_count])"
proof -
  let ?st = "synth_itch s"
  note wf = wf_sized [OF generated_wf(1) [OF gen]]
  note complete = tick_inv_complete [OF wf inv finish_received [OF wf order_refl]]
  have n: "is_count ?st = message_count" "message_count \<le> stats_scratch" "0 < message_count"
    by (simp_all add: message_count_def stats_scratch_def)
  obtain t where t: "pipeline_stats p = Some t" "length (st_histogram t) = histogram_bins"
    "\<forall>c \<in> set (st_histogram t). unat c \<le> 2 ^ 24"
    using finished_stats(2) [OF wf inv] n by auto
  obtain rows where rows: "bar_rows (st_histogram t) = Some rows"
    "\<forall>(lo, hi, count, bar) \<in> set rows. hi = lo + 1 \<and> count \<in> set (st_histogram t) \<and> 1 \<le> unat bar \<and> unat bar \<le> 40"
    using bar_rows_ok [OF t(2,3)] by blast
  have "length (tt_state p) = message_count" using inv by (simp add: tick_inv_def states_ok_def)
  then have ofis: "those (map (message_ofi p) [0..<message_count]) = Some (map (expected_ofi ?st) [0..<message_count])"
    using complete(3) by (intro those_map) (simp add: message_ofi_def at_def)
  have "book_after ?st message_count = Some (tt_orders p, tt_book p)"
    using inv finish_passed [OF wf order_refl, of 3] by (simp add: tick_inv_def book_part_def)
  then have over: "ob_overflow (tt_book p) = 0" using generated_wf(2,4) [OF gen] by simp
  have stats: "stats_compute (latencies ?st) message_count = Some t"
    using finished_stats(1) [OF wf inv] t(1) by simp
  have report: "demo_report_of s cycle p = Some
      \<lparr>rep_counts = (count_of s (ascii CHR ''A''), count_of s (ascii CHR ''E''), count_of s (ascii CHR ''X'')),
       rep_cycles = cycle, rep_posted = dma_posted (tt_engine p),
       rep_lines = map cycles_line [st_min t, st_median t, st_p99 t, st_max t], rep_bars = rows,
       rep_ofi = foldl scan_ofi (0, 0, 0) (map (expected_ofi ?st) [0..<message_count]),
       rep_cumulative = tt_cumulative p, rep_dropped = ob_overflow (tt_book p)\<rparr>"
    by (simp only: demo_report_of_def t(1) rows(1) ofis Option.bind_lunit)
  from rows(2) have "\<forall>(lo, hi, count, bar) \<in> set rows. hi = lo + 1 \<and> 1 \<le> unat bar \<and> unat bar \<le> 40" by auto
  with report rows(1) complete(2,4) over stats n(1) show ?thesis
    by (intro exI [of _ "the (demo_report_of s cycle p)"] exI [of _ t]) (simp only: option.sel demo_report.simps simp_thms)
qed

lemma demo_completes:
  assumes gen: "generated message_count a s orders book"
  shows "\<exists>e p. demo_engine (synth_itch s) = Some e
    \<and> demo_drive (synth_itch s) cycle_limit e (rig_new (synth_itch s) opened)
      = Some (e\<lparr>en_cycle := of_nat (finish (synth_itch s))\<rparr>,
          \<lparr>rig_pipeline = p, rig_vcd = demo_trace (synth_itch s) opened (finish (synth_itch s))\<rparr>)
    \<and> tick_inv (synth_itch s) (finish (synth_itch s)) p"
proof -
  let ?st = "synth_itch s"
  note wf = generated_wf(1) [OF gen]
  obtain e where e: "demo_engine ?st = Some e" "en_cycle e = 0"
    "\<And>c r. engine_step (e\<lparr>en_cycle := c\<rparr>) r
        = map_option (\<lambda>p'. (e\<lparr>en_cycle := c + 1\<rparr>, \<lparr>rig_pipeline = p',
             rig_vcd = vcd_cycle c (wire_busy p') (tt_last_ofi p') (rig_vcd r)\<rparr>))
           (tick_cycle ?st c (rig_pipeline r))"
    using demo_engine_slots [of ?st] by blast
  have "finish ?st < unat cycle_limit" using generated_finish [OF gen] by (simp add: cycle_limit_def)
  moreover have "e\<lparr>en_cycle := 0\<rparr> = e" using e(2) by (cases e) simp
  ultimately show ?thesis
    using demo_drive_from [OF wf e(3) refl, of cycle_limit 0 "tick_new ?st" opened] tick_new_inv [OF wf_sized [OF wf]] e(1)
    by (auto simp: demo_trace_def rig_new_def)
qed

lemma demo_trace_read:
  assumes "n \<le> 12007"
  shows "read_trace (vcd_text (demo_trace st True n)) = Some (map (\<lambda>k. (k * unat units_per_cycle,
         k * unat units_per_cycle + unat units_per_half_cycle, demo_sample st k)) [0..<n])"
proof -
  have "trace_inv (0 + n) ([] @ map (\<lambda>i. vcd_sample (0 + i) (map (demo_sample st) [0..<n] ! i)) [0..<n])
      (demo_trace st True n)"
    using trace_inv_cycles [OF trace_inv_new, of "map (demo_sample st) [0..<n]"] assms
    by (simp add: demo_trace_def)
  from trace_inv_read [OF this] show ?thesis by (simp add: vcd_sample_def units_value cong: map_cong)
qed

lemma scan_ofi_range:
  "fst (foldl scan_ofi (0, 0, 0) (map f [0..<n])) = card {j. j < n \<and> f j \<noteq> 0}
   \<and> (\<forall>j < n. sint (fst (snd (foldl scan_ofi (0, 0, 0) (map f [0..<n])))) \<le> sint (f j)
        \<and> sint (f j) \<le> sint (snd (snd (foldl scan_ofi (0, 0, 0) (map f [0..<n])))))"
  using scan_ofi_fold [where n = 0 and lo = 0 and hi = 0 and vs = "map f [0..<n]"]
  by (auto simp: length_filter_conv_card cong: conj_cong split: prod.splits)

subsection \<open>Property\<close>

lemma demo_main_completes:
  assumes s: "synthetic_stream seed = Some s" and gen: "generated message_count a s orders book"
  shows "\<exists>rep t. demo_main seed opened = Some (if rep_cumulative rep \<noteq> 0 then 0 else 1, Some rep,
        vcd_text (demo_trace (synth_itch s) opened (finish (synth_itch s))))
    \<and> rep_cycles rep = of_nat (finish (synth_itch s))
    \<and> rep_posted rep = of_nat message_count \<and> rep_dropped rep = 0
    \<and> stats_compute (latencies (synth_itch s)) message_count = Some t
    \<and> rep_lines rep = map cycles_line [st_min t, st_median t, st_p99 t, st_max t]
    \<and> bar_rows (st_histogram t) = Some (rep_bars rep)
    \<and> (\<forall>(lo, hi, count, bar) \<in> set (rep_bars rep). hi = lo + 1 \<and> 1 \<le> unat bar \<and> unat bar \<le> 40)
    \<and> sint (rep_cumulative rep) = (\<Sum>j < message_count. sint (expected_ofi (synth_itch s) j))
    \<and> rep_ofi rep = foldl scan_ofi (0, 0, 0) (map (expected_ofi (synth_itch s)) [0..<message_count])"
proof -
  let ?st = "synth_itch s"
  obtain e p where e: "demo_engine ?st = Some e"
    and p: "demo_drive ?st cycle_limit e (rig_new ?st opened) = Some (e\<lparr>en_cycle := of_nat (finish ?st)\<rparr>,
        \<lparr>rig_pipeline = p, rig_vcd = demo_trace ?st opened (finish ?st)\<rparr>)" "tick_inv ?st (finish ?st) p"
    using demo_completes [OF gen] by blast
  have "tick_ok ?st p" using tick_inv_done [OF wf_sized [OF generated_wf(1) [OF gen]] p(2)] by simp
  moreover obtain rep t where rep: "demo_report_of s (of_nat (finish ?st)) p = Some rep" "rep_dropped rep = 0"
    and facts: "rep_cycles rep = of_nat (finish ?st)" "rep_posted rep = of_nat message_count"
      "stats_compute (latencies ?st) message_count = Some t"
      "rep_lines rep = map cycles_line [st_min t, st_median t, st_p99 t, st_max t]"
      "bar_rows (st_histogram t) = Some (rep_bars rep)"
      "\<forall>(lo, hi, count, bar) \<in> set (rep_bars rep). hi = lo + 1 \<and> 1 \<le> unat bar \<and> unat bar \<le> 40"
      "sint (rep_cumulative rep) = (\<Sum>j < message_count. sint (expected_ofi ?st j))"
      "rep_ofi rep = foldl scan_ofi (0, 0, 0) (map (expected_ofi ?st) [0..<message_count])"
    using demo_report_finished [OF gen p(2)] by blast
  ultimately have "demo_main seed opened = Some (if rep_cumulative rep \<noteq> 0 then 0 else 1, Some rep,
      vcd_text (demo_trace ?st opened (finish ?st)))"
    by (simp add: demo_main_def s Let_def e p(1))
  with rep(2) facts show ?thesis by blast
qed

text \<open>
  C8. The demonstration, for every seed: the program meets no undefined behaviour and no failure,
  stops before its limit of 100000 cycles when the last of the 256 decisions has been posted, and
  reports the percentiles of the promised latencies, a histogram with bars of 1 to 40 characters,
  the sum and the number and range of the promised imbalances and no dropped add; the exit status
  is 0 exactly when that sum is not zero. If the trace file could be opened, its text reads back as
  one sample per cycle with the occupancy of the wire and the latest imbalance.
\<close>

theorem demo_run_result:
  "\<exists>s rep trace t. synthetic_stream seed = Some s
    \<and> demo_main seed opened = Some (if (\<Sum>j < message_count. sint (expected_ofi (synth_itch s) j)) \<noteq> 0 then 0 else 1,
        Some rep, trace)
    \<and> unat (rep_cycles rep) = finish (synth_itch s) \<and> finish (synth_itch s) \<le> 12007
    \<and> rep_posted rep = of_nat message_count \<and> rep_dropped rep = 0
    \<and> stats_compute (latencies (synth_itch s)) message_count = Some t
    \<and> rep_lines rep = map cycles_line [st_min t, st_median t, st_p99 t, st_max t]
    \<and> bar_rows (st_histogram t) = Some (rep_bars rep)
    \<and> (\<forall>(lo, hi, count, bar) \<in> set (rep_bars rep). hi = lo + 1 \<and> 1 \<le> unat bar \<and> unat bar \<le> 40)
    \<and> sint (rep_cumulative rep) = (\<Sum>j < message_count. sint (expected_ofi (synth_itch s) j))
    \<and> fst (rep_ofi rep) = card {j. j < message_count \<and> expected_ofi (synth_itch s) j \<noteq> 0}
    \<and> (\<forall>j < message_count. sint (fst (snd (rep_ofi rep))) \<le> sint (expected_ofi (synth_itch s) j)
         \<and> sint (expected_ofi (synth_itch s) j) \<le> sint (snd (snd (rep_ofi rep))))
    \<and> (opened \<longrightarrow> read_trace trace = Some (map (\<lambda>k. (k * unat units_per_cycle,
         k * unat units_per_cycle + unat units_per_half_cycle, demo_sample (synth_itch s) k))
         [0..<finish (synth_itch s)]))"
proof -
  obtain a s orders book where s: "synthetic_stream seed = Some s"
    and gen: "generated message_count a s orders book" using synthetic_generated by blast
  define st where "st = synth_itch s"
  have n: "finish st \<le> 12007" using generated_finish [OF gen] by (simp add: st_def)
  obtain rep t where main: "demo_main seed opened = Some (if rep_cumulative rep \<noteq> 0 then 0 else 1, Some rep,
        vcd_text (demo_trace st opened (finish st)))" and cycles: "rep_cycles rep = of_nat (finish st)"
    and facts: "rep_posted rep = of_nat message_count" "rep_dropped rep = 0"
      "stats_compute (latencies st) message_count = Some t"
      "rep_lines rep = map cycles_line [st_min t, st_median t, st_p99 t, st_max t]"
      "bar_rows (st_histogram t) = Some (rep_bars rep)"
      "\<forall>(lo, hi, count, bar) \<in> set (rep_bars rep). hi = lo + 1 \<and> 1 \<le> unat bar \<and> unat bar \<le> 40"
    and total: "sint (rep_cumulative rep) = (\<Sum>j < message_count. sint (expected_ofi st j))"
    and ofi: "rep_ofi rep = foldl scan_ofi (0, 0, 0) (map (expected_ofi st) [0..<message_count])"
    using demo_main_completes [OF s gen, of opened] unfolding st_def [symmetric] by blast
  have "rep_cumulative rep = 0 \<longleftrightarrow> (\<Sum>j < message_count. sint (expected_ofi st j)) = 0"
    unfolding total [symmetric] by (simp add: signed_eq_0_iff)
  then have "demo_main seed opened = Some (if (\<Sum>j < message_count. sint (expected_ofi st j)) \<noteq> 0 then 0 else 1,
      Some rep, vcd_text (demo_trace st opened (finish st)))" by (simp add: main)
  moreover have "unat (rep_cycles rep) = finish st" using n by (simp add: cycles unat_of_nat)
  moreover note conjunct1 [OF scan_ofi_range [of "expected_ofi st" message_count, folded ofi]]
    conjunct2 [OF scan_ofi_range [of "expected_ofi st" message_count, folded ofi]]
  moreover have "opened \<longrightarrow> read_trace (vcd_text (demo_trace st opened (finish st))) = Some (map (\<lambda>k. (k * unat units_per_cycle,
         k * unat units_per_cycle + unat units_per_half_cycle, demo_sample st k)) [0..<finish st])"
    using demo_trace_read [OF n, of st] by simp
  ultimately show ?thesis using s facts total n unfolding st_def
    by (intro exI [of _ s] exI [of _ rep] exI [of _ "vcd_text (demo_trace (synth_itch s) opened (finish (synth_itch s)))"]
        exI [of _ t]) (simp only: simp_thms)
qed

theorem demo_run_result_witness:
  "\<exists>exit rep trace samples. demo_main default_seed True = Some (exit, Some rep, trace) \<and> rep_dropped rep = 0
    \<and> unat (rep_cycles rep) \<le> 12007 \<and> read_trace trace = Some samples"
  using demo_run_result [of default_seed True] by fastforce

end
