(* ===== verification/Demo_Print.thy ===== *)
theory Demo_Print
  imports Demo_Run Printf
begin

text \<open>
  What \<open>main.cpp\<close> prints: the lines of the report, and a reader of the printed text that gives the
  values of the report back.
\<close>

text \<open>The constant \<open>cycle_ns\<close>, a double.\<close>

definition cycle_ns :: double where
  "cycle_ns = double_over (double_of 1000000000) (double_of (unat clock_hz))"

subsection \<open>The lines\<close>

definition clock_line :: string where
  "clock_line = ''fpga-sim-core: discrete clock = 322.265625 MHz = 512/165 ns/cycle (''
     @ fixed 5 cycle_ns @ '')''"

definition stream_line :: "u32 \<Rightarrow> nat \<times> nat \<times> nat \<Rightarrow> string" where
  "stream_line seed = (\<lambda>(a, e, x).
     ''SYNTHETIC ITCH 5.0 stream (fixed-seed PRNG 0x'' @ hex8 seed @ '', not market data): ''
     @ decimal message_count @ '' messages (A='' @ decimal a @ '' E='' @ decimal e @ '' X='' @ decimal x @ '')'')"

definition run_line :: "u64 \<Rightarrow> u64 \<Rightarrow> string" where
  "run_line cycles posted = ''simulated '' @ decimal (unat cycles) @ '' cycles; '' @ decimal (unat posted)
     @ '' decision records posted to the DMA ring''"

text \<open>\<open>print_cycles_ns\<close>.\<close>

definition cycles_text :: "string \<Rightarrow> u32 \<times> u64 \<times> u64 \<Rightarrow> string" where
  "cycles_text label = (\<lambda>(c, whole, part).
     ''  '' @ pad_right 7 label @ '' '' @ pad_left 4 (decimal (unat c)) @ '' cycles = ''
     @ decimal (unat whole) @ ''.'' @ pad_zero 4 (decimal (unat part)) @ '' ns'')"

definition bar_text :: "u32 \<times> u32 \<times> u32 \<times> u32 \<Rightarrow> string" where
  "bar_text = (\<lambda>(lo, hi, n, bar).
     ''  '' @ pad_left 3 (decimal (unat lo)) @ ''-'' @ pad_left 3 (decimal (unat hi)) @ '' cycles ''
     @ pad_left 4 (decimal (unat n)) @ '' '' @ replicate (unat bar) CHR ''#'')"

definition ofi_line :: "i64 \<Rightarrow> nat \<times> i32 \<times> i32 \<Rightarrow> string" where
  "ofi_line cumulative = (\<lambda>(nonzero, lo, hi).
     ''OFI from best-level changes (Cont-Kukanov-Stoikov, shares): cumulative = ''
     @ signed_decimal (sint cumulative) @ '', per-message min/max = '' @ signed_decimal (sint lo) @ ''/''
     @ signed_decimal (sint hi) @ '', nonzero on '' @ decimal nonzero @ '' of '' @ decimal message_count @ '' messages'')"

definition dropped_line :: "u64 \<Rightarrow> string" where
  "dropped_line n = ''order book adds dropped (side full): '' @ decimal (unat n)"

definition report_lines :: "u32 \<Rightarrow> demo_report \<Rightarrow> string list" where
  "report_lines seed rep =
     [clock_line, stream_line seed (rep_counts rep), run_line (rep_cycles rep) (rep_posted rep),
      ''tick-to-trade latency, simulated cycles (model with documented stage latencies; not a hardware measurement):'']
     @ map2 cycles_text [''min'', ''median'', ''p99'', ''max''] (rep_lines rep)
     @ [''histogram (2-cycle bins, last bin includes overflow):'']
     @ map bar_text (rep_bars rep)
     @ [ofi_line (rep_cumulative rep) (rep_ofi rep), dropped_line (rep_dropped rep), ''VCD trace: fpga_sim_core.vcd'']"

text \<open>The exit status, the text printed to the standard output, and the trace file.\<close>

definition demo_program :: "u32 \<Rightarrow> bool \<Rightarrow> (nat \<times> string \<times> string) option" where
  "demo_program seed opened = map_option
     (\<lambda>(status, rep, trace).
        (status, case rep of None \<Rightarrow> [] | Some r \<Rightarrow> concat (map out_line (report_lines seed r)), trace))
     (demo_main seed opened)"

text \<open>The double nearest to \<open>1.0e9 / 322265625\<close>, step by step.\<close>

lemma cycle_ns_value: "cycle_ns = (6987403058223315, 2251799813685248)"
proof -
  have log: "floorlog 2 1000000000 = 30" "floorlog 2 322265625 = 29" "floorlog 2 (Suc 0) = 1"
    "floorlog 2 140737488355328000000000 = 77" "floorlog 2 45354854645760000000000 = 76"
    by (simp_all add: compute_floorlog)
  have "double_of 1000000000 = (8388608000000000, 8388608)" "double_of 322265625 = (5406720000000000, 16777216)"
    by (simp_all add: double_of_def double_div_def log scaled_def round_div_def Let_def)
  then show ?thesis
    by (simp add: cycle_ns_def clock_hz_def double_over_def double_div_def log scaled_def round_div_def Let_def)
qed

text \<open>Some lines as they are printed.\<close>

lemma printed_examples:
  "fixed 5 cycle_ns = ''3.10303''" "hex8 0x5EEDF00D = ''5EEDF00D''"
  "cycles_text ''p99'' (cycles_line 10) = ''  p99       10 cycles = 31.0303 ns''"
  "bar_text (14, 15, 200, 4) = ''   14- 15 cycles  200 ####''"
  "signed_decimal (- 5) = ''-5''"
proof -
  have pad: "replicate 3 c = [c, c, c]" "replicate 2 c = [c, c]" "replicate 4 c = [c, c, c, c]" for c :: char
    by (simp_all add: numeral_eq_Suc)
  note simps = char_of_eq_iff decimal.simps digit_def pad_zero_def pad_left_def pad_right_def pad
  have "round_div (6987403058223315 * 10 ^ 5) 2251799813685248 = 310303" by (simp add: round_div_def Let_def)
  then show "fixed 5 cycle_ns = ''3.10303''" by (simp add: fixed_def units_def cycle_ns_value) (simp add: simps)
  show "hex8 0x5EEDF00D = ''5EEDF00D''" by (simp add: char_of_eq_iff hex8_def hex_digit_def digit_def upt_rec)
  have "cycles_line 10 = (10, 31, 303)"
    by (simp add: cycles_line_def to_ns_def cycles_to_ns_e4_def cycle_ns_num_def cycle_ns_den_def)
  then show "cycles_text ''p99'' (cycles_line 10) = ''  p99       10 cycles = 31.0303 ns''"
    by (simp add: cycles_text_def simps)
  show "bar_text (14, 15, 200, 4) = ''   14- 15 cycles  200 ####''" by (simp add: bar_text_def simps)
  show "signed_decimal (- 5) = ''-5''" by (simp add: signed_decimal_def simps)
qed

subsection \<open>A reader\<close>

text \<open>A time is read as a decimal number: the digits without the point are ten thousandths.\<close>

definition read_cycles :: "string \<Rightarrow> (u32 \<times> u64 \<times> u64) option" where
  "read_cycles l =
     (case integers (drop 10 l) of
        c # _ \<Rightarrow> let v = undecimal (filter is_digit (dropWhile (\<lambda>c. c \<noteq> CHR ''='') l)) in
          Some (of_int c, of_nat (v div 10000), of_nat (v mod 10000))
      | _ \<Rightarrow> None)"

definition read_bar :: "string \<Rightarrow> (u32 \<times> u32 \<times> u32 \<times> u32) option" where
  "read_bar l =
     (case integers (map (\<lambda>c. if c = CHR ''-'' then CHR '' '' else c) l) of
        [lo, hi, n] \<Rightarrow> Some (of_int lo, of_int hi, of_int n, of_nat (length (filter (\<lambda>c. c = CHR ''#'') l)))
      | _ \<Rightarrow> None)"

definition read_report :: "string \<Rightarrow> demo_report option" where
  "read_report s =
     (let ls = split_lines [] s; n = length ls in
      if n < 12 then None
      else do {
        times \<leftarrow> those (map read_cycles (take 4 (drop 4 ls)));
        bars \<leftarrow> those (map read_bar (take (n - 12) (drop 9 ls)));
        case (integers (dropWhile (\<lambda>c. c \<noteq> CHR '')'') (ls ! 1)), integers (ls ! 2), integers (ls ! (n - 3)), integers (ls ! (n - 2))) of
          ([_, a, e, x], [cycles, posted], [cumulative, lo, hi, nonzero, _], [dropped]) \<Rightarrow>
            Some \<lparr>rep_counts = (nat a, nat e, nat x), rep_cycles = of_int cycles, rep_posted = of_int posted,
              rep_lines = times, rep_bars = bars, rep_ofi = (nat nonzero, of_int lo, of_int hi),
              rep_cumulative = of_int cumulative, rep_dropped = of_int dropped\<rparr>
        | _ \<Rightarrow> None })"

subsection \<open>Reading the lines\<close>

lemma read_cycles_text:
  assumes "length label \<le> 7" "CHR ''='' \<notin> set label" "unat part < 10000"
  shows "read_cycles (cycles_text label (c, whole, part)) = Some (c, whole, part)"
proof -
  let ?a = "''  '' @ pad_right 7 label @ '' ''" and ?n = "pad_left 4 (decimal (unat c))"
  let ?t = "decimal (unat whole) @ ''.'' @ pad_zero 4 (decimal (unat part)) @ '' ns''"
  have shape: "cycles_text label (c, whole, part) = ?a @ ?n @ '' cycles = '' @ ?t" by (simp add: cycles_text_def)
  have "length ?a = 10" using assms(1) by (simp add: pad_right_def)
  then have "drop 10 (?a @ ?n @ '' cycles = '' @ ?t) = ?n @ '' cycles = '' @ ?t" by (metis append_eq_conv_conj)
  then have count: "integers (drop 10 (cycles_text label (c, whole, part))) = int (unat c) # scan False None (tl ('' cycles = '' @ ?t))"
    by (simp add: shape integers_def is_digit_def)
  have no: "\<not> is_digit CHR ''=''" by (simp add: is_digit_def)
  have "x \<noteq> CHR ''=''" if "x \<in> set (?a @ ?n @ '' cycles '')" for x
    using that assms(2) decimal_other [OF no] by (auto simp: pad_right_def pad_left_def)
  then have "dropWhile (\<lambda>c. c \<noteq> CHR ''='') ((?a @ ?n @ '' cycles '') @ (''= '' @ ?t)) = ''= '' @ ?t"
    by (subst dropWhile_append2) simp_all
  moreover have "filter is_digit (''= '' @ ?t) = decimal (unat whole) @ pad_zero 4 (decimal (unat part))"
    by (simp add: is_digit_def [of "CHR ''=''"] is_digit_def [of "CHR '' ''"] is_digit_def [of "CHR ''.''"]
        is_digit_def [of "CHR ''n''"] is_digit_def [of "CHR ''s''"] is_digit_def [of "CHR ''0''"] pad_zero_def)
  ultimately have "undecimal (filter is_digit (dropWhile (\<lambda>c. c \<noteq> CHR ''='') (cycles_text label (c, whole, part))))
      = unat whole * 10000 + unat part"
    using undecimal_fraction [of "unat part" 4 "unat whole"] assms(3) by (simp add: shape)
  with assms(3) show ?thesis by (simp add: read_cycles_def count)
qed

lemma read_bar_text: "read_bar (bar_text b) = Some b"
proof -
  obtain lo hi n k where b: "b = (lo, hi, n, k)" by (cases b)
  let ?f = "\<lambda>c. if c = CHR ''-'' then CHR '' '' else c"
  have no: "\<not> is_digit CHR ''-''" "\<not> is_digit CHR ''#''" by (simp_all add: is_digit_def)
  have same: "map ?f (pad_left w (decimal m)) = pad_left w (decimal m)" for w m
    using decimal_other [OF no(1)] by (intro map_idI) (auto simp: pad_left_def)
  have "filter (\<lambda>c. c = CHR ''#'') (pad_left w (decimal m)) = []" for w m
    using decimal_other [OF no(2)] by (auto simp: filter_empty_conv pad_left_def)
  then have "length (filter (\<lambda>c. c = CHR ''#'') (bar_text b)) = unat k" by (simp add: b bar_text_def)
  moreover have "integers (map ?f (bar_text b)) = [int (unat lo), int (unat hi), int (unat n)]"
    by (simp add: b bar_text_def integers_def same is_digit_def)
  ultimately show ?thesis by (simp add: read_bar_def b)
qed

lemma read_stream_line:
  "integers (dropWhile (\<lambda>c. c \<noteq> CHR '')'') (stream_line seed (a, e, x))) = [int message_count, int a, int e, int x]"
proof -
  let ?s = "''SYNTHETIC ITCH 5.0 stream (fixed-seed PRNG 0x'' @ hex8 seed @ '', not market data''"
  let ?u = "decimal message_count @ '' messages (A='' @ decimal a @ '' E='' @ decimal e @ '' X='' @ decimal x @ '')''"
  have "c \<noteq> CHR '')''" if "c \<in> set ?s" for c using that hex8_paren(1) by auto
  then have "dropWhile (\<lambda>c. c \<noteq> CHR '')'') (?s @ ''): '' @ ?u) = ''): '' @ ?u" by (subst dropWhile_append2) simp_all
  then show ?thesis by (simp add: stream_line_def integers_def is_digit_def)
qed

lemma read_other_lines:
  "integers (run_line cycles posted) = [int (unat cycles), int (unat posted)]"
  "integers (ofi_line cumulative (nonzero, lo, hi)) = [sint cumulative, sint lo, sint hi, int nonzero, int message_count]"
  "integers (dropped_line n) = [int (unat n)]"
  by (simp_all add: run_line_def ofi_line_def dropped_line_def integers_def is_digit_def)

subsection \<open>The whole report\<close>

lemma report_line:
  assumes "length (rep_lines rep) = 4" "l \<in> set (report_lines seed rep)"
  shows "newline \<notin> set l"
proof -
  have "newline \<notin> set (cycles_text label t)" if "newline \<notin> set label" for label t
    using that by (cases t) (simp add: cycles_text_def pad_right_def newline_def no_newline [unfolded newline_def])
  moreover have "newline \<notin> set (bar_text b)" for b
    by (cases b) (simp add: bar_text_def newline_def no_newline [unfolded newline_def])
  moreover have "newline \<notin> set clock_line" "newline \<notin> set (stream_line seed ns)" "newline \<notin> set (run_line c p)"
    "newline \<notin> set (ofi_line k o')" "newline \<notin> set (dropped_line d)" for ns c p k o' d
    by (simp_all add: clock_line_def stream_line_def run_line_def ofi_line_def dropped_line_def newline_def
        no_newline [unfolded newline_def] split: prod.splits)
  ultimately show ?thesis using assms
    by (cases "rep_counts rep"; cases "rep_ofi rep") (auto simp: report_lines_def numeral_eq_Suc length_Suc_conv newline_def)
qed

lemma report_reads_back:
  assumes lines: "length (rep_lines rep) = 4" "\<forall>(c, whole, part) \<in> set (rep_lines rep). unat part < 10000"
  shows "read_report (concat (map out_line (report_lines seed rep))) = Some rep"
proof -
  obtain t1 t2 t3 t4 where times: "rep_lines rep = [t1, t2, t3, t4]"
    using lines(1) by (auto simp: numeral_eq_Suc length_Suc_conv)
  obtain a e x where counts: "rep_counts rep = (a, e, x)" by (cases "rep_counts rep")
  obtain nz lo hi where ofi: "rep_ofi rep = (nz, lo, hi)" by (cases "rep_ofi rep")
  have "read_cycles (cycles_text label t) = Some t" if "t \<in> set (rep_lines rep)" "label \<in> {''min'', ''median'', ''p99'', ''max''}" for t label
    using that lines(2) by (cases t) (auto intro!: read_cycles_text)
  then have "those (map read_cycles (map2 cycles_text [''min'', ''median'', ''p99'', ''max''] (rep_lines rep))) = Some (rep_lines rep)"
    by (simp add: times)
  moreover have "those (map read_bar (map bar_text bs)) = Some bs" for bs
    by (induction bs) (simp_all add: read_bar_text)
  moreover have "split_lines [] (concat (map out_line (report_lines seed rep))) = report_lines seed rep"
    using report_line [OF lines(1)] by (intro split_out_lines) blast
  ultimately show ?thesis
    by (simp add: read_report_def Let_def report_lines_def times counts ofi read_stream_line read_other_lines nth_append)
qed

lemma cycles_line_fraction: "(c, whole, part) = cycles_line n \<Longrightarrow> unat part < 10000"
  by (simp add: cycles_line_def to_ns_def Let_def unat_mod)

text \<open>
  C28. What the demonstration prints, for every seed: the report is printed completely and without
  ambiguity. Reading the printed lines gives back the counts of the generated messages, the cycles,
  the four latencies with their times (the digits of a time, read as one decimal number, are its
  ten thousandths of a nanosecond, so the fraction is printed with its leading zeros), the rows and
  bars of the histogram, the imbalances and the dropped adds, exactly as the program computed them.
\<close>

theorem demo_prints_report:
  "\<exists>status rep trace text. demo_main seed opened = Some (status, Some rep, trace)
    \<and> demo_program seed opened = Some (status, text, trace) \<and> read_report text = Some rep"
proof -
  obtain a s orders book where s: "synthetic_stream seed = Some s"
    and gen: "generated message_count a s orders book" using synthetic_generated by blast
  obtain rep t where rep: "rep_lines rep = map cycles_line [st_min t, st_median t, st_p99 t, st_max t]"
      "stats_compute (latencies (synth_itch s)) message_count = Some t"
    and main: "demo_main seed opened = Some (if rep_cumulative rep \<noteq> 0 then 0 else 1, Some rep,
      vcd_text (demo_trace (synth_itch s) opened (finish (synth_itch s))))"
    using demo_main_completes [OF s gen, of opened] by blast
  have "\<forall>(c, whole, part) \<in> set (rep_lines rep). unat part < 10000"
    unfolding rep(1) by (auto dest: cycles_line_fraction [OF sym])
  then have "read_report (concat (map out_line (report_lines seed rep))) = Some rep"
    by (rule report_reads_back [rotated]) (simp add: rep)
  with main show ?thesis by (simp add: demo_program_def)
qed

end
