(* ===== verification/Std_Map.thy ===== *)
theory Std_Map
  imports Fpga_Prelude
begin

text \<open>
  The ordered and unordered maps of the C++ standard library, as the offline tools use them: a
  list of pairs with strictly increasing keys. \<open>begin\<close> and \<open>rbegin\<close> are its two ends; the order
  is not observed where the code uses \<open>std::unordered_map\<close>.
\<close>

subsection \<open>The interface\<close>

locale dictionary =
  fixes get :: "'m \<Rightarrow> 'k \<rightharpoonup> 'v"
    and put :: "'k \<Rightarrow> 'v \<Rightarrow> 'm \<Rightarrow> 'm"
    and erase :: "'k \<Rightarrow> 'm \<Rightarrow> 'm"
    and count :: "'m \<Rightarrow> nat"
    and ok :: "'m \<Rightarrow> bool"
  assumes get_put: "ok m \<Longrightarrow> get (put k v m) = (get m)(k \<mapsto> v)"
    and get_erase: "ok m \<Longrightarrow> get (erase k m) = (get m)(k := None)"
    and ok_put: "ok m \<Longrightarrow> ok (put k v m)"
    and ok_erase: "ok m \<Longrightarrow> ok (erase k m)"
    and finite_dom: "ok m \<Longrightarrow> finite (dom (get m))"
    and count_dom: "ok m \<Longrightarrow> count m = card (dom (get m))"
begin

lemma count_put: "ok m \<Longrightarrow> count (put k v m) = (if get m k = None then count m + 1 else count m)"
  by (auto simp: count_dom ok_put get_put finite_dom card_insert_if insert_absorb)

lemma count_erase: "ok m \<Longrightarrow> count (erase k m) = (if get m k = None then count m else count m - 1)"
  by (auto simp: count_dom ok_erase get_erase finite_dom card_Diff_singleton_if)

text \<open>Adding to a counter that starts at zero.\<close>

definition bump :: "('v \<Rightarrow> 'v) \<Rightarrow> 'v \<Rightarrow> 'k \<Rightarrow> 'm \<Rightarrow> 'm" where
  "bump f v0 k m = put k (f (case get m k of None \<Rightarrow> v0 | Some v \<Rightarrow> v)) m"

lemma get_bump:
  "ok m \<Longrightarrow> get (bump f v0 k m) = (get m)(k \<mapsto> f (case get m k of None \<Rightarrow> v0 | Some v \<Rightarrow> v))"
  by (simp add: bump_def get_put)

lemma ok_bump: "ok m \<Longrightarrow> ok (bump f v0 k m)"
  by (simp add: bump_def ok_put)

end

subsection \<open>Sorted association lists\<close>

fun std_set :: "'k::linorder \<Rightarrow> 'v \<Rightarrow> ('k \<times> 'v) list \<Rightarrow> ('k \<times> 'v) list" where
  "std_set k v [] = [(k, v)]"
| "std_set k v ((k', v') # xs) =
     (if k < k' then (k, v) # (k', v') # xs
      else if k = k' then (k, v) # xs
      else (k', v') # std_set k v xs)"

definition std_erase :: "'k \<Rightarrow> ('k \<times> 'v) list \<Rightarrow> ('k \<times> 'v) list" where
  "std_erase k xs = filter (\<lambda>(k', v). k' \<noteq> k) xs"

definition std_ok :: "('k::linorder \<times> 'v) list \<Rightarrow> bool" where
  "std_ok xs \<longleftrightarrow> sorted_wrt (<) (map fst xs)"

text \<open>\<open>m[k] = f (m[k])\<close> on a map whose values start as \<open>v0\<close>.\<close>

definition std_bump :: "('v \<Rightarrow> 'v) \<Rightarrow> 'v \<Rightarrow> 'k::linorder \<Rightarrow> ('k \<times> 'v) list \<Rightarrow> ('k \<times> 'v) list" where
  "std_bump f v0 k xs = std_set k (f (case map_of xs k of None \<Rightarrow> v0 | Some v \<Rightarrow> v)) xs"

lemma std_ok_Nil [simp]: "std_ok []"
  by (simp add: std_ok_def)

lemma std_ok_Cons: "std_ok ((k, v) # xs) \<longleftrightarrow> (\<forall>k' \<in> fst ` set xs. k < k') \<and> std_ok xs"
  by (simp add: std_ok_def)

lemma fst_std_set: "fst ` set (std_set k v xs) = insert k (fst ` set xs)"
  by (induction k v xs rule: std_set.induct) auto

lemma std_ok_set: "std_ok xs \<Longrightarrow> std_ok (std_set k v xs)"
  by (induction k v xs rule: std_set.induct) (auto simp: std_ok_Cons fst_std_set)

lemma std_ok_erase: "std_ok xs \<Longrightarrow> std_ok (std_erase k xs)"
  by (induction xs) (auto simp: std_erase_def std_ok_Cons)

lemma map_of_std_set: "std_ok xs \<Longrightarrow> map_of (std_set k v xs) = (map_of xs)(k \<mapsto> v)"
proof (induction k v xs rule: std_set.induct)
  case (2 k v k' v' xs)
  then show ?case by (auto simp: std_ok_Cons fun_upd_twist)
qed simp

lemma map_of_std_erase: "map_of (std_erase k xs) = (map_of xs)(k := None)"
  by (induction xs) (auto simp: std_erase_def)

lemma std_ok_distinct: "std_ok xs \<Longrightarrow> distinct (map fst xs)"
  by (auto simp: std_ok_def strict_sorted_iff)

lemma length_std: "std_ok xs \<Longrightarrow> length xs = card (dom (map_of xs))"
  using distinct_card [OF std_ok_distinct, of xs] by (simp add: dom_map_of_conv_image_fst)

interpretation std: dictionary map_of std_set std_erase length std_ok
  by unfold_locales
    (simp_all add: map_of_std_set map_of_std_erase std_ok_set std_ok_erase length_std finite_dom_map_of)

lemma std_bump_bump: "std_bump = std.bump"
  by (simp add: fun_eq_iff std_bump_def std.bump_def)

lemmas map_of_std_bump = std.get_bump [folded std_bump_bump]
  and std_ok_bump = std.ok_bump [folded std_bump_bump]

text \<open>The ends of a map are its extreme keys.\<close>

lemma std_first:
  assumes "std_ok xs" "xs \<noteq> []"
  shows "map_of xs (fst (hd xs)) = Some (snd (hd xs))" "k \<in> dom (map_of xs) \<Longrightarrow> fst (hd xs) \<le> k"
  using assms by (cases xs; auto simp: std_ok_Cons dom_map_of_conv_image_fst intro: less_imp_le)+

lemma std_last:
  assumes "std_ok xs" "xs \<noteq> []"
  shows "map_of xs (fst (last xs)) = Some (snd (last xs))" "k \<in> dom (map_of xs) \<Longrightarrow> k \<le> fst (last xs)"
proof -
  have "last xs \<in> set xs" using assms(2) by simp
  then show "map_of xs (fst (last xs)) = Some (snd (last xs))"
    using std_ok_distinct [OF assms(1)] by (simp add: map_of_eq_Some_iff)
  have split: "butlast xs @ [last xs] = xs" using assms(2) by simp
  then have "sorted_wrt (<) (map fst (butlast xs @ [last xs]))" using assms(1) by (simp add: std_ok_def)
  then have "\<forall>k \<in> fst ` set (butlast xs). k < fst (last xs)" by (simp add: sorted_wrt_append)
  moreover assume "k \<in> dom (map_of xs)"
  then have "k \<in> fst ` set (butlast xs @ [last xs])" by (simp add: split dom_map_of_conv_image_fst)
  ultimately show "k \<le> fst (last xs)" by auto
qed

text \<open>Counting the elements of a list by a key.\<close>

definition tally :: "('a \<Rightarrow> bool) \<Rightarrow> ('a \<Rightarrow> 'k) \<Rightarrow> 'a list \<Rightarrow> 'k \<Rightarrow> nat" where
  "tally P key ms k = length (filter (\<lambda>m. P m \<and> key m = k) ms)"

definition count_step ::
  "('a \<Rightarrow> bool) \<Rightarrow> ('a \<Rightarrow> 'k::linorder) \<Rightarrow> ('k \<times> 'v::comm_semiring_1) list \<Rightarrow> 'a \<Rightarrow> ('k \<times> 'v) list" where
  "count_step P key d m = (if P m then std_bump (\<lambda>n. n + 1) 0 (key m) d else d)"

lemma count_steps:
  "std_ok d \<Longrightarrow> std_ok (foldl (count_step P key) d ms)
   \<and> map_of (foldl (count_step P key) d ms) k
     = (if tally P key ms k = 0 then map_of d k
        else Some ((case map_of d k of None \<Rightarrow> 0 | Some n \<Rightarrow> n) + of_nat (tally P key ms k)))"
proof (induction ms arbitrary: d)
  case (Cons m ms)
  have "std_ok (count_step P key d m)" using Cons.prems by (simp add: count_step_def std_ok_bump)
  from Cons.IH [OF this] Cons.prems show ?case
    by (auto simp: count_step_def tally_def map_of_std_bump algebra_simps split: option.splits)
qed (simp add: tally_def)

lemma counted:
  "map_of (foldl (count_step P key) [] ms) k = (let n = tally P key ms k in if n = 0 then None else Some (of_nat n))"
  by (simp add: count_steps Let_def)

lemma counted_ok: "std_ok (foldl (count_step P key) [] ms)"
  by (simp add: count_steps)

end
