(* ===== verification/Itch_Analysis.thy ===== *)
theory Itch_Analysis
  imports Itch_Parser Latency_Stats
begin

text \<open>
  The helpers of \<open>tools/itch_analysis.hpp\<close> that read files: the message lengths of the
  specification, big-endian fields, the walker over length-framed messages and the percentile.
  A pointer to a message of \<open>len\<close> bytes is the list of these bytes.
\<close>

subsection \<open>Lengths and fields\<close>

definition spec_length :: "u8 \<Rightarrow> nat" where
  "spec_length t =
     (if t = ascii CHR ''S'' then 12 else if t = ascii CHR ''R'' then 39
      else if t = ascii CHR ''H'' then 25 else if t = ascii CHR ''Y'' then 20
      else if t = ascii CHR ''L'' then 26 else if t = ascii CHR ''V'' then 35
      else if t = ascii CHR ''W'' then 12 else if t = ascii CHR ''K'' then 28
      else if t = ascii CHR ''J'' then 35 else if t = ascii CHR ''h'' then 21
      else if t = ascii CHR ''A'' then 36 else if t = ascii CHR ''F'' then 40
      else if t = ascii CHR ''E'' then 31 else if t = ascii CHR ''C'' then 36
      else if t = ascii CHR ''X'' then 23 else if t = ascii CHR ''D'' then 19
      else if t = ascii CHR ''U'' then 35 else if t = ascii CHR ''P'' then 44
      else if t = ascii CHR ''Q'' then 40 else if t = ascii CHR ''B'' then 19
      else if t = ascii CHR ''I'' then 50 else if t = ascii CHR ''N'' then 20
      else 0)"

definition type_name :: "u8 \<Rightarrow> string" where
  "type_name t =
     (if t = ascii CHR ''S'' then ''System Event''
      else if t = ascii CHR ''R'' then ''Stock Directory''
      else if t = ascii CHR ''H'' then ''Stock Trading Action''
      else if t = ascii CHR ''Y'' then ''Reg SHO Restriction''
      else if t = ascii CHR ''L'' then ''Market Participant Position''
      else if t = ascii CHR ''V'' then ''MWCB Decline Level''
      else if t = ascii CHR ''W'' then ''MWCB Status''
      else if t = ascii CHR ''K'' then ''IPO Quoting Period Update''
      else if t = ascii CHR ''J'' then ''LULD Auction Collar''
      else if t = ascii CHR ''h'' then ''Operational Halt''
      else if t = ascii CHR ''A'' then ''Add Order''
      else if t = ascii CHR ''F'' then ''Add Order (MPID)''
      else if t = ascii CHR ''E'' then ''Order Executed''
      else if t = ascii CHR ''C'' then ''Order Executed With Price''
      else if t = ascii CHR ''X'' then ''Order Cancel''
      else if t = ascii CHR ''D'' then ''Order Delete''
      else if t = ascii CHR ''U'' then ''Order Replace''
      else if t = ascii CHR ''P'' then ''Trade (non-cross)''
      else if t = ascii CHR ''Q'' then ''Cross Trade''
      else if t = ascii CHR ''B'' then ''Broken Trade''
      else if t = ascii CHR ''I'' then ''NOII''
      else if t = ascii CHR ''N'' then ''Retail Price Improvement''
      else ''?'')"

definition be :: "u8 list \<Rightarrow> nat \<Rightarrow> u64" where
  "be p n = foldl (\<lambda>v i. push_bit 8 v OR ucast (p ! i)) 0 [0..<n]"

definition locate_of :: "u8 list \<Rightarrow> u16" where
  "locate_of m = ucast (be (drop 1 m) 2)"

definition timestamp_ns :: "u8 list \<Rightarrow> u64" where
  "timestamp_ns m = be (drop 5 m) 6"

text \<open>The two tables know the same types.\<close>

lemma type_name_known: "type_name t = ''?'' \<longleftrightarrow> spec_length t = 0"
  by (simp add: type_name_def spec_length_def)

text \<open>On the types the parser decodes, its lengths are those of the specification.\<close>

lemma spec_length_for: "length_for t \<noteq> 0 \<Longrightarrow> spec_length t = length_for t"
  by (auto simp: length_for_def spec_length_def split: if_splits)

subsection \<open>The walker\<close>

datatype walk_stop = Stop_End | Truncated_Tail | Bad_Framing

record walker =
  wk_offset :: nat
  wk_stop :: walk_stop

definition walker_new :: walker where
  "walker_new = \<lparr>wk_offset = 0, wk_stop = Stop_End\<rparr>"

definition walker_next :: "u8 list \<Rightarrow> walker \<Rightarrow> u8 list option \<times> walker" where
  "walker_next data w =
     (let offset = wk_offset w; size = length data in
      if size \<le> offset then (None, w\<lparr>wk_stop := Stop_End\<rparr>)
      else if size - offset < 2 then (None, w\<lparr>wk_stop := Truncated_Tail\<rparr>)
      else
        let framed = unat (be (drop offset data) 2) in
        if size - offset - 2 < framed then (None, w\<lparr>wk_stop := Truncated_Tail\<rparr>)
        else
          let m = drop (offset + 2) data in
          if framed = 0 \<or> spec_length (m ! 0) \<noteq> framed then (None, w\<lparr>wk_stop := Bad_Framing\<rparr>)
          else (Some (take framed m), w\<lparr>wk_offset := offset + (2 + framed)\<rparr>))"

text \<open>The loop \<open>while (m = w.next(len))\<close>: the messages it sees and the final walker.\<close>

lemma walker_next_progress:
  "walker_next data w = (Some m, w') \<Longrightarrow> wk_offset w < wk_offset w' \<and> wk_offset w' \<le> length data"
  by (auto simp: walker_next_def Let_def split: if_splits)

function walk :: "u8 list \<Rightarrow> walker \<Rightarrow> u8 list list \<times> walker" where
  "walk data w =
     (case walker_next data w of
        (None, w') \<Rightarrow> ([], w')
      | (Some m, w') \<Rightarrow> (case walk data w' of (ms, w'') \<Rightarrow> (m # ms, w'')))"
  by pat_completeness auto

termination
  by (relation "measure (\<lambda>(data, w). length data - wk_offset w)")
    (auto dest!: walker_next_progress [OF sym])

declare walk.simps [simp del]

subsection \<open>Percentile\<close>

text \<open>The subtraction is of \<open>size_t\<close> values: an index outside the vector is \<open>None\<close>.\<close>

definition percentile :: "u64 list \<Rightarrow> nat \<Rightarrow> u64 option" where
  "percentile v pct =
     (if v = [] then Some 0
      else at (size_sub ((pct * length v + 99) mod 2 ^ 64 div 100) 1) (sort v))"

subsection \<open>Frames\<close>

definition frame :: "u8 list \<Rightarrow> u8 list" where
  "frame m = [ucast (drop_bit 8 (of_nat (length m) :: u64)), ucast (of_nat (length m) :: u64)] @ m"

definition spec_message :: "u8 list \<Rightarrow> bool" where
  "spec_message m \<longleftrightarrow> m \<noteq> [] \<and> length m = spec_length (m ! 0)"

text \<open>Why the walker stops at a rest of the file; \<open>None\<close> if another message follows.\<close>

definition tail_stop :: "u8 list \<Rightarrow> walk_stop option" where
  "tail_stop rest =
     (if rest = [] then Some Stop_End
      else if length rest < 2 then Some Truncated_Tail
      else if length rest - 2 < unat (be rest 2) then Some Truncated_Tail
      else if unat (be rest 2) = 0 \<or> spec_length (rest ! 2) \<noteq> unat (be rest 2) then Some Bad_Framing
      else None)"

lemma be_2: "be p 2 = push_bit 8 (ucast (p ! 0)) OR ucast (p ! 1)"
  by (simp add: be_def numeral_2_eq_2)

lemma spec_length_le: "spec_length t \<le> 50"
  by (simp add: spec_length_def)

lemma be_frame:
  assumes "length m < 2 ^ 16"
  shows "unat (be (frame m @ rest) 2) = length m"
proof -
  define n :: u64 where "n = of_nat (length m)"
  have n: "unat n = length m" using assms by (simp add: n_def unat_of_nat)
  have top: "\<not> bit n k" if "16 \<le> k" for k
  proof
    assume "bit n k"
    then have "bit (unat n) k" by (simp add: bit_unsigned_iff)
    moreover have "take_bit 16 (unat n) = unat n" using assms n by (simp add: take_bit_nat_eq_self)
    ultimately show False using that by (metis bit_take_bit_iff not_le)
  qed
  have "push_bit 8 (ucast (ucast (drop_bit 8 n) :: u8)) OR ucast (ucast n :: u8) = n"
  proof (rule bit_word_eqI)
    fix k assume "k < LENGTH(64)"
    then show "bit (push_bit 8 (ucast (ucast (drop_bit 8 n) :: u8)) OR ucast (ucast n :: u8) :: u64) k = bit n k"
      using top [of k] by (cases "k < 8"; cases "k < 16") (auto simp: bit_simps)
  qed
  then show ?thesis using n by (simp add: be_2 frame_def n_def)
qed

lemma frame_of_be:
  assumes "2 \<le> length rest" "length m = unat (be rest 2)"
  shows "frame m = take 2 rest @ m"
proof -
  define n where "n = be rest 2"
  have n: "n = push_bit 8 (ucast (rest ! 0)) OR ucast (rest ! 1)" by (simp add: n_def be_2)
  have "ucast (drop_bit 8 n) = rest ! 0"
    by (rule bit_word_eqI) (auto simp: n bit_simps dest: bit_imp_le_length)
  moreover have "ucast n = rest ! 1"
    by (rule bit_word_eqI) (auto simp: n bit_simps)
  moreover have "take 2 rest = [rest ! 0, rest ! 1]"
    using assms(1) by (cases rest; cases "tl rest") auto
  ultimately show ?thesis using assms(2) by (simp add: frame_def n_def)
qed

lemma tail_stop_None:
  assumes "tail_stop rest = None"
  shows "\<exists>m rest'. rest = frame m @ rest' \<and> spec_message m"
proof -
  define n where "n = unat (be rest 2)"
  define m where "m = take n (drop 2 rest)"
  have n: "2 \<le> length rest" "n \<le> length rest - 2" "n \<noteq> 0" "spec_length (rest ! 2) = n"
    using assms by (auto simp: tail_stop_def n_def split: if_splits)
  then have m: "length m = n" "m ! 0 = rest ! 2" by (auto simp: m_def)
  with n have "spec_message m" by (auto simp: spec_message_def)
  moreover have "take (2 + n) rest = take 2 rest @ m" by (simp only: take_add m_def)
  then have "frame m = take (2 + n) rest" using frame_of_be [OF n(1), of m] m(1) by (simp add: n_def)
  then have "rest = frame m @ drop (2 + n) rest" by simp
  ultimately show ?thesis by blast
qed

lemma spec_message_bounds: "spec_message m \<Longrightarrow> 0 < length m \<and> length m \<le> 50"
  using spec_length_le [of "m ! 0"] by (simp add: spec_message_def) (metis length_greater_0_conv)

lemma walker_next_message:
  assumes "spec_message m" "wk_offset w = length pre"
  shows "walker_next (pre @ frame m @ rest) w = (Some m, w\<lparr>wk_offset := length pre + length (frame m)\<rparr>)"
proof -
  have len: "0 < length m" "length m \<le> 50" using spec_message_bounds [OF assms(1)] by auto
  then have "unat (be (frame m @ rest) 2) = length m" by (intro be_frame) simp
  moreover have "length (frame m) = 2 + length m" "drop 2 (frame m) = m" by (simp_all add: frame_def)
  moreover have "(m @ rest) ! 0 = m ! 0" using len by (simp add: nth_append)
  ultimately show ?thesis
    using assms len by (simp add: walker_next_def Let_def spec_message_def)
qed

lemma walker_next_stop:
  assumes "tail_stop rest = Some s" "wk_offset w = length pre"
  shows "walker_next (pre @ rest) w = (None, w\<lparr>wk_stop := s\<rparr>)"
proof (cases "length rest < 2")
  case True
  then show ?thesis using assms by (cases rest) (auto simp: walker_next_def tail_stop_def Let_def)
next
  case False
  then have "drop 2 rest ! 0 = rest ! 2" by simp
  then show ?thesis using assms False by (auto simp: walker_next_def tail_stop_def Let_def split: if_splits)
qed

lemma walk_frames_from:
  assumes "\<forall>m \<in> set ms. spec_message m" "tail_stop rest = Some s" "wk_offset w = length pre"
  shows "walk (pre @ concat (map frame ms) @ rest) w
    = (ms, \<lparr>wk_offset = length pre + length (concat (map frame ms)), wk_stop = s\<rparr>)"
  using assms
proof (induction ms arbitrary: pre w)
  case Nil
  with walker_next_stop [OF Nil(2,3)] show ?case by (cases w) (subst walk.simps, simp)
next
  case (Cons m ms)
  let ?w = "w\<lparr>wk_offset := length pre + length (frame m)\<rparr>"
  have "walker_next (pre @ concat (map frame (m # ms)) @ rest) w = (Some m, ?w)"
    using walker_next_message [of m w pre "concat (map frame ms) @ rest"] Cons.prems by simp
  moreover have "walk ((pre @ frame m) @ concat (map frame ms) @ rest) ?w
    = (ms, \<lparr>wk_offset = length (pre @ frame m) + length (concat (map frame ms)), wk_stop = s\<rparr>)"
    by (rule Cons.IH) (use Cons.prems in simp_all)
  ultimately show ?case by (subst walk.simps) simp
qed

lemma frames_exist:
  "\<exists>ms rest s. data = concat (map frame ms) @ rest \<and> (\<forall>m \<in> set ms. spec_message m)
     \<and> tail_stop rest = Some s"
proof (induction data rule: length_induct)
  case (1 data)
  show ?case
  proof (cases "tail_stop data")
    case None
    then obtain m rest where m: "data = frame m @ rest" "spec_message m" using tail_stop_None by blast
    then have "length rest < length data" by (simp add: frame_def)
    with 1 obtain ms rest' s where "rest = concat (map frame ms) @ rest'"
      "\<forall>m \<in> set ms. spec_message m" "tail_stop rest' = Some s" by blast
    with m show ?thesis by (intro exI [of _ "m # ms"] exI [of _ rest'] exI [of _ s]) simp
  next
    case (Some s)
    then show ?thesis by (intro exI [of _ "[]"] exI [of _ data] exI [of _ s]) simp
  qed
qed

subsection \<open>The rank of a percentile\<close>

lemma percentile_index:
  "v \<noteq> [] \<Longrightarrow> (pct + 1) * length v + 99 < 2 ^ 64 \<Longrightarrow>
    percentile v pct = at (size_sub ((pct * length v + 99) div 100) 1) (sort v)"
  by (simp add: percentile_def)

lemma percentile_value:
  assumes "v \<noteq> []" "(pct + 1) * length v + 99 < 2 ^ 64" "0 < pct" "pct \<le> 100"
  shows "percentile v pct = Some (sort v ! rank_index pct (length v))"
proof -
  have n: "0 < length v" using assms(1) by simp
  have "1 \<le> pct * length v" using assms(3) n by (simp add: Suc_le_eq)
  then have "1 \<le> (pct * length v + 99) div 100" by linarith
  then have "size_sub ((pct * length v + 99) div 100) 1 = rank_index pct (length v)"
    by (simp add: size_sub_def rank_index_def)
  moreover have "rank_index pct (length v) < length v" using rank_index_bounds(1) [OF n] assms(3,4) by simp
  ultimately show ?thesis by (simp add: percentile_index [OF assms(1,2)] at_def)
qed

subsection \<open>Properties\<close>

text \<open>
  C22. The walker is exact: for every file it ends, and it has seen the messages \<open>ms\<close> and stopped
  with a reason precisely when the file is the frames of \<open>ms\<close>, each of the length its type has in
  the specification, followed by a rest that is empty, cut off, or not a frame, as the reason
  says. So no message is skipped, invented or cut, and framing the messages again gives back the
  bytes consumed.
\<close>

theorem walk_exact:
  "walk data walker_new = (ms, \<lparr>wk_offset = n, wk_stop = s\<rparr>) \<longleftrightarrow>
    (\<exists>rest. data = concat (map frame ms) @ rest \<and> (\<forall>m \<in> set ms. spec_message m)
       \<and> n = length (concat (map frame ms)) \<and> tail_stop rest = Some s)"
  (is "?walk \<longleftrightarrow> ?frames")
proof
  assume ?frames
  then show ?walk using walk_frames_from [of ms _ s walker_new "[]"] by (auto simp: walker_new_def)
next
  assume walk: ?walk
  obtain ms' rest s' where d: "data = concat (map frame ms') @ rest" "\<forall>m \<in> set ms'. spec_message m"
    "tail_stop rest = Some s'" using frames_exist by blast
  with walk_frames_from [of ms' rest s' walker_new "[]"] have
    "walk data walker_new = (ms', \<lparr>wk_offset = length (concat (map frame ms')), wk_stop = s'\<rparr>)"
    by (simp add: walker_new_def)
  with walk d show ?frames by auto
qed

theorem walk_exact_witness:
  "walk (frame (ascii CHR ''D'' # replicate 18 0) @ [0]) walker_new
    = ([ascii CHR ''D'' # replicate 18 0], \<lparr>wk_offset = 21, wk_stop = Truncated_Tail\<rparr>)"
  unfolding walk_exact
  by (rule exI [of _ "[0]"]) (simp add: spec_message_def spec_length_def tail_stop_def frame_def)

text \<open>
  C38. The percentile is the nearest-rank one for 1 to 100 percent, the convention of the
  pipeline's statistics; for 0 or more than 100 percent of a non-empty
  series the index is outside the vector.
\<close>

theorem percentile_nearest_rank:
  assumes "v \<noteq> []" "(pct + 1) * length v + 99 < 2 ^ 64"
  shows "if 0 < pct \<and> pct \<le> 100 then \<exists>x. percentile v pct = Some x \<and> nearest_rank pct v x
    else percentile v pct = None"
proof -
  note index = percentile_index [OF assms]
  show ?thesis
  proof (cases "0 < pct \<and> pct \<le> 100")
    case True
    then show ?thesis using percentile_value [OF assms] nearest_rank_sort [OF assms(1)] by auto
  next
    case False
    have "length v \<le> size_sub ((pct * length v + 99) div 100) 1"
    proof (cases "pct = 0")
      case True
      then show ?thesis using assms(2) by (simp add: size_sub_def)
    next
      case pos: False
      with False have "101 * length v \<le> pct * length v" by simp
      moreover have "0 < length v" using assms(1) by simp
      ultimately have "length v + 1 \<le> (pct * length v + 99) div 100" by linarith
      then show ?thesis by (simp add: size_sub_def)
    qed
    then show ?thesis using False by (auto simp: index at_def)
  qed
qed

theorem percentile_nearest_rank_witness:
  "(\<exists>x. percentile [5, 3, 9] 50 = Some x \<and> nearest_rank 50 [5, 3, 9] x) \<and> percentile [5, 3, 9] 0 = None"
  using percentile_nearest_rank [of "[5, 3, 9]" 50] percentile_nearest_rank [of "[5, 3, 9]" 0] by simp

end
