(* ===== verification/Real_Book.thy ===== *)
theory Real_Book
  imports Std_Map Itch_Analysis Tick_To_Trade
begin

text \<open>
  \<open>RealBook\<close> of \<open>tools/itch_analysis.hpp\<close>: the book of one stock with every price level and every
  resting order, in standard maps. A price and a number of shares are \<open>int64_t\<close> values, here
  integers whose overflow is \<open>None\<close>. Its two sides are quoted ladders like those of the five-level
  book, without a bound on the number of levels.
\<close>

subsection \<open>One side\<close>

type_synonym real_side = "(int \<times> int) list"

definition i64_checked :: "int \<Rightarrow> int option" where
  "i64_checked x = (if fits_i64 x then Some x else None)"

text \<open>\<open>side[price] += shares\<close>: a new level starts at zero, and \<open>0 + shares\<close> cannot overflow.\<close>

definition level_add :: "int \<Rightarrow> int \<Rightarrow> real_side \<Rightarrow> real_side option" where
  "level_add p n s =
     (case map_of s p of
        None \<Rightarrow> Some (std_set p (0 + n) s)
      | Some m \<Rightarrow> map_option (\<lambda>k. std_set p k s) (i64_checked (m + n)))"

definition level_take :: "int \<Rightarrow> int \<Rightarrow> real_side \<Rightarrow> real_side option" where
  "level_take p n s =
     (case map_of s p of
        None \<Rightarrow> Some s
      | Some m \<Rightarrow> map_option (\<lambda>k. if k \<le> 0 then std_erase p s else std_set p k s) (i64_checked (m - n)))"

definition highest :: "real_side \<Rightarrow> (int \<times> int) option" where
  "highest s = (if s = [] then None else Some (last s))"

definition lowest :: "real_side \<Rightarrow> (int \<times> int) option" where
  "lowest s = (if s = [] then None else Some (hd s))"

lemma level_ladder:
  "price_ladder (\<lambda>p n s. map_option (\<lambda>s'. (s', False)) (level_add p n s)) level_take map_of std_ok
     (\<lambda>s. True) (\<lambda>n. n) fits_i64"
proof
  fix s :: real_side and s' p n d
  assume ok: "std_ok s"
  note maps = std.get_put [OF ok] std.get_erase [OF ok] std.ok_put [OF ok] std.ok_erase [OF ok]
  show "map_option (apfst map_of) (map_option (\<lambda>s'. (s', False)) (level_add p n s))
      = ladder_add fits_i64 True p n (map_of s)"
    by (auto simp: level_add_def ladder_add_def i64_checked_def maps split: option.split)
  show "map_option map_of (level_take p n s) = ladder_execute fits_i64 p n (map_of s)"
    by (auto simp: level_take_def ladder_execute_def i64_checked_def maps split: option.split)
  show "level_take p n s = Some s' \<Longrightarrow> std_ok s'"
    using ok by (auto simp: level_take_def i64_checked_def maps split: option.splits if_splits)
  show "map_option (\<lambda>s'. (s', False)) (level_add p n s) = Some (s', d) \<Longrightarrow> std_ok s'"
    by (auto simp: level_add_def i64_checked_def maps split: option.splits if_splits)
qed

lemma std_empty: "map_of s = Map.empty \<longleftrightarrow> s = []"
  by (cases s) auto

interpretation full_bids: quoted_ladder "\<lambda>p n s. map_option (\<lambda>s'. (s', False)) (level_add p n s)"
  level_take map_of std_ok "\<lambda>s. True" "\<lambda>n. n" fits_i64 highest "\<lambda>x y. y < x"
proof (intro quoted_ladder.intro level_ladder quoted_ladder_axioms.intro)
  fix s :: real_side and p m
  assume ok: "std_ok s"
  show "highest s = None \<longleftrightarrow> map_of s = Map.empty" by (simp add: highest_def std_empty)
  show "highest s = Some (p, m) \<Longrightarrow> map_of s p = Some m \<and> (\<forall>p' \<in> dom (map_of s). \<not> p < p')"
    using std_last [OF ok] by (fastforce simp: highest_def not_less split: if_splits)
qed auto

interpretation full_asks: quoted_ladder "\<lambda>p n s. map_option (\<lambda>s'. (s', False)) (level_add p n s)"
  level_take map_of std_ok "\<lambda>s. True" "\<lambda>n. n" fits_i64 lowest "\<lambda>x y. x < y"
proof (intro quoted_ladder.intro level_ladder quoted_ladder_axioms.intro)
  fix s :: real_side and p m
  assume ok: "std_ok s"
  show "lowest s = None \<longleftrightarrow> map_of s = Map.empty" by (simp add: lowest_def std_empty)
  show "lowest s = Some (p, m) \<Longrightarrow> map_of s p = Some m \<and> (\<forall>p' \<in> dom (map_of s). \<not> p' < p)"
    using std_first [OF ok] by (fastforce simp: lowest_def not_less split: if_splits)
qed auto

subsection \<open>The book\<close>

record real_order =
  ro_bid :: bool
  ro_price :: int
  ro_shares :: int

record real_book =
  fb_bids :: real_side
  fb_asks :: real_side
  fb_orders :: "(u64 \<times> real_order) list"
  fb_unknown :: u64

definition real_new :: real_book where
  "real_new = \<lparr>fb_bids = [], fb_asks = [], fb_orders = [], fb_unknown = 0\<rparr>"

definition fb_side :: "bool \<Rightarrow> real_book \<Rightarrow> real_side" where
  "fb_side bid b = (if bid then fb_bids b else fb_asks b)"

definition set_fb_side :: "bool \<Rightarrow> real_side \<Rightarrow> real_book \<Rightarrow> real_book" where
  "set_fb_side bid s b = (if bid then b\<lparr>fb_bids := s\<rparr> else b\<lparr>fb_asks := s\<rparr>)"

definition real_add :: "u64 \<Rightarrow> bool \<Rightarrow> int \<Rightarrow> int \<Rightarrow> real_book \<Rightarrow> real_book option" where
  "real_add ref bid price shares b =
     (let b1 = b\<lparr>fb_orders := std_set ref \<lparr>ro_bid = bid, ro_price = price, ro_shares = shares\<rparr> (fb_orders b)\<rparr>
      in map_option (\<lambda>s. set_fb_side bid s b1) (level_add price shares (fb_side bid b1)))"

definition real_take :: "real_order \<Rightarrow> int \<Rightarrow> real_book \<Rightarrow> real_book option" where
  "real_take o1 n b =
     map_option (\<lambda>s. set_fb_side (ro_bid o1) s b) (level_take (ro_price o1) n (fb_side (ro_bid o1) b))"

definition real_unknown :: "real_book \<Rightarrow> real_book" where
  "real_unknown b = b\<lparr>fb_unknown := fb_unknown b + 1\<rparr>"

definition real_reduce :: "u64 \<Rightarrow> int \<Rightarrow> real_book \<Rightarrow> real_book option" where
  "real_reduce ref shares b =
     (case map_of (fb_orders b) ref of
        None \<Rightarrow> Some (real_unknown b)
      | Some o1 \<Rightarrow> do {
          let n = min shares (ro_shares o1);
          b1 \<leftarrow> real_take o1 n b;
          left \<leftarrow> i64_checked (ro_shares o1 - n);
          Some (b1\<lparr>fb_orders := (if left \<le> 0 then std_erase ref (fb_orders b1)
                                else std_set ref (o1\<lparr>ro_shares := left\<rparr>) (fb_orders b1))\<rparr>) })"

definition real_remove :: "u64 \<Rightarrow> real_book \<Rightarrow> real_book option" where
  "real_remove ref b =
     (case map_of (fb_orders b) ref of
        None \<Rightarrow> Some (real_unknown b)
      | Some o1 \<Rightarrow> do {
          b1 \<leftarrow> real_take o1 (ro_shares o1) b;
          Some (b1\<lparr>fb_orders := std_erase ref (fb_orders b1)\<rparr>) })"

text \<open>\<open>apply\<close>: whether the message touches the book, and the book.\<close>

definition real_apply :: "u8 list \<Rightarrow> real_book \<Rightarrow> (bool \<times> real_book) option" where
  "real_apply m b =
     (let t = m ! 0; ref = be (drop 11 m) 8 in
      if t = ascii CHR ''A'' \<or> t = ascii CHR ''F'' then
        map_option (Pair True) (real_add ref (m ! 19 = ascii CHR ''B'') (sint (be (drop 32 m) 4)) (sint (be (drop 20 m) 4)) b)
      else if t = ascii CHR ''E'' \<or> t = ascii CHR ''C'' \<or> t = ascii CHR ''X'' then
        map_option (Pair True) (real_reduce ref (sint (be (drop 19 m) 4)) b)
      else if t = ascii CHR ''D'' then map_option (Pair True) (real_remove ref b)
      else if t = ascii CHR ''U'' then
        (case map_of (fb_orders b) ref of
           None \<Rightarrow> Some (True, real_unknown b)
         | Some o1 \<Rightarrow> do {
             b1 \<leftarrow> real_remove ref b;
             b2 \<leftarrow> real_add (be (drop 19 m) 8) (ro_bid o1) (sint (be (drop 31 m) 4)) (sint (be (drop 27 m) 4)) b1;
             Some (True, b2) })
      else Some (False, b))"

fun real_run :: "u8 list list \<Rightarrow> real_book \<Rightarrow> real_book option" where
  "real_run [] b = Some b"
| "real_run (m # ms) b = do { (changed, b1) \<leftarrow> real_apply m b; real_run ms b1 }"

definition real_best_bid :: "real_book \<Rightarrow> int option" where
  "real_best_bid b = (if fb_bids b = [] then None else Some (fst (last (fb_bids b))))"

definition real_best_ask :: "real_book \<Rightarrow> int option" where
  "real_best_ask b = (if fb_asks b = [] then None else Some (fst (hd (fb_asks b))))"

definition bid_levels :: "real_book \<Rightarrow> nat" where "bid_levels b = length (fb_bids b)"
definition ask_levels :: "real_book \<Rightarrow> nat" where "ask_levels b = length (fb_asks b)"
definition real_orders :: "real_book \<Rightarrow> nat" where "real_orders b = length (fb_orders b)"

text \<open>A message about an unknown order is reported as a change, although only the counter of unknown
  references changes.\<close>

lemma real_apply_unknown:
  "m ! 0 = ascii CHR ''D'' \<Longrightarrow> map_of (fb_orders b) (be (drop 11 m) 8) = None \<Longrightarrow>
   real_apply m b = Some (True, b\<lparr>fb_unknown := fb_unknown b + 1\<rparr>)"
  by (simp add: real_apply_def real_remove_def real_unknown_def Let_def)

lemma fb_side_simps [simp]:
  "fb_side b' (set_fb_side b s R) = (if b' = b then s else fb_side b' R)"
  "fb_orders (set_fb_side b s R) = fb_orders R" "fb_unknown (set_fb_side b s R) = fb_unknown R"
  "fb_side b (R\<lparr>fb_orders := os\<rparr>) = fb_side b R"
  by (simp_all add: fb_side_def set_fb_side_def)

subsection \<open>Agreement with the order table and the five-level book\<close>

text \<open>The levels of a side, keyed by the 32-bit price field.\<close>

definition tracks :: "real_side \<Rightarrow> (i32 \<rightharpoonup> int) \<Rightarrow> bool" where
  "tracks s v \<longleftrightarrow> std_ok s \<and> (\<forall>x. map_of s x = (if 0 \<le> x \<and> x < 2 ^ 32 then v (word_of_int x) else None))"

lemma word_of_int_eq: "0 \<le> x \<Longrightarrow> x < 2 ^ 32 \<Longrightarrow> (word_of_int x :: i32) = p \<longleftrightarrow> x = uint p"
  by (auto simp: uint_word_of_int_eq take_bit_int_eq_self)

lemma tracks_at: "tracks s v \<Longrightarrow> map_of s (uint p) = v p"
  by (simp add: tracks_def uint_lt2p [of p, simplified])

lemma tracks_upd:
  assumes "tracks s v" "std_ok s'" "map_of s' = (map_of s)(uint p := y)"
  shows "tracks s' (v(p := y))"
  using assms uint_lt2p [of p] by (auto simp: tracks_def word_of_int_eq)

lemma tracks_add:
  assumes "tracks s v" "fits_i32 m" "resting v p + n = m"
  shows "\<exists>s'. level_add (uint p) n s = Some s' \<and> tracks s' (v(p \<mapsto> m))"
proof -
  have ok: "std_ok s" using assms(1) by (simp add: tracks_def)
  have "fits_i64 m" using assms(2) by (simp add: fits_i32_def fits_i64_def)
  then have "level_add (uint p) n s = Some (std_set (uint p) m s)"
    using tracks_at [OF assms(1), of p] assms(3)
    by (auto simp: level_add_def resting_def i64_checked_def split: option.splits)
  moreover have "tracks (std_set (uint p) m s) (v(p \<mapsto> m))"
    by (rule tracks_upd [OF assms(1) std.ok_put [OF ok] std.get_put [OF ok]])
  ultimately show ?thesis by blast
qed

lemma tracks_take:
  assumes "tracks s v" "\<And>m. v p = Some m \<Longrightarrow> fits_i32 m" "fits_i32 n"
  shows "\<exists>s'. level_take (uint p) n s = Some s'
    \<and> tracks s' (if resting v p \<le> n \<and> v p \<noteq> None then v(p := None)
                 else if v p = None then v else v(p \<mapsto> resting v p - n))"
proof (cases "v p")
  case None
  with assms(1) tracks_at [OF assms(1), of p] show ?thesis by (auto simp: level_take_def)
next
  case (Some m)
  have ok: "std_ok s" using assms(1) by (simp add: tracks_def)
  have "fits_i64 (m - n)" using assms(2) [OF Some] assms(3) by (simp add: fits_i32_def fits_i64_def)
  then have "level_take (uint p) n s = Some (if m - n \<le> 0 then std_erase (uint p) s else std_set (uint p) (m - n) s)"
    using tracks_at [OF assms(1), of p] Some by (simp add: level_take_def i64_checked_def)
  then show ?thesis
    using tracks_upd [OF assms(1) std.ok_put [OF ok] std.get_put [OF ok], of p "m - n"]
      tracks_upd [OF assms(1) std.ok_erase [OF ok] std.get_erase [OF ok], of p] Some
    by (auto simp: resting_def)
qed

text \<open>The same orders and levels; \<open>None\<close> for the flag means that a model price is not below
  \<open>2 ^ 31\<close>, so that its sign differs.\<close>

definition same_book :: "order_table \<Rightarrow> order_book \<Rightarrow> real_book \<Rightarrow> bool" where
  "same_book orders book R \<longleftrightarrow> table_inv orders \<and> book_inv book \<and> std_ok (fb_orders R) \<and> fb_unknown R = 0
     \<and> (\<forall>r. map_of (fb_orders R) r = map_option (\<lambda>(b, p, m). \<lparr>ro_bid = b, ro_price = uint p, ro_shares = m\<rparr>)
          (table_view orders r))
     \<and> (\<forall>b. tracks (fb_side b R) (book_view b book))"

lemma same_book_new: "same_book (table_new cap) book_new real_new"
  by (auto simp: same_book_def real_new_def tracks_def fb_side_def book_inv_def book_view_def book_new_def side_inv_new)

lemma side_view_fits: "side_view s p = Some m \<Longrightarrow> fits_i32 m"
  by (induction s) (auto split: if_splits)

lemma book_view_fits: "book_view b book p = Some m \<Longrightarrow> fits_i32 m"
  by (auto simp: book_view_def side_view_fits)

lemma table_view_fits: "table_view t r = Some (b, p, m) \<Longrightarrow> fits_i32 m"
  by (induction t) (auto split: if_splits)

text \<open>An add that the book keeps, and an execution, on the views.\<close>

lemma book_add_kept:
  assumes "book_add b p n book = Some book'" "book_inv book" "ob_overflow book' = ob_overflow book"
  shows "book_inv book' \<and> fits_i32 (resting (book_view b book) p + sint n)
    \<and> (\<forall>b'. book_view b' book' = (if b' = b then (book_view b book)(p \<mapsto> resting (book_view b book) p + sint n)
         else book_view b' book))"
proof -
  define s where "s = (if b then ob_bids book else ob_asks book)"
  obtain s' d where s': "side_add p n s = Some (s', d)"
    and book': "book' = (let b1 = (if b then book\<lparr>ob_bids := s'\<rparr> else book\<lparr>ob_asks := s'\<rparr>)
       in if d then b1\<lparr>ob_overflow := ob_overflow b1 + 1\<rparr> else b1)"
    using assms(1) by (auto simp: book_add_def s_def Let_def split: bind_splits)
  have inv: "side_inv s" using assms(2) by (simp add: s_def book_inv_def)
  have d: "\<not> d" using assms(3) book' by (cases b) (auto simp: Let_def)
  note view = bids.add_SomeD(2) [OF inv s'] bids.add_invar [OF inv s']
  then have view': "side_view s' = (side_view s)(p \<mapsto> resting (side_view s) p + sint n)" using d by simp
  then have "fits_i32 (resting (side_view s) p + sint n)" using side_view_fits [of s' p] by simp
  moreover have "book_view b book = side_view s" by (simp add: book_view_def s_def)
  ultimately show ?thesis using assms(2) book' d view' view(2)
    by (auto simp: book_inv_def book_view_def Let_def)
qed

lemma book_execute_done:
  assumes "book_execute b p n book = Some book'" "book_inv book"
  shows "book_inv book' \<and> ob_overflow book' = ob_overflow book
    \<and> (\<forall>b'. book_view b' book' = (if b' = b then
         (if resting (book_view b book) p \<le> sint n \<and> book_view b book p \<noteq> None then (book_view b book)(p := None)
          else if book_view b book p = None then book_view b book
          else (book_view b book)(p \<mapsto> resting (book_view b book) p - sint n))
         else book_view b' book))"
proof -
  define s where "s = (if b then ob_bids book else ob_asks book)"
  obtain s' where s': "side_execute p n s = Some s'"
    and book': "book' = (if b then book\<lparr>ob_bids := s'\<rparr> else book\<lparr>ob_asks := s'\<rparr>)"
    using assms(1) by (auto simp: book_execute_def s_def split: bind_splits)
  have inv: "side_inv s" using assms(2) by (simp add: s_def book_inv_def)
  note view = bids.execute_SomeD [OF inv s'] bids.execute_invar [OF inv s']
  have "book_view b book = side_view s" by (simp add: book_view_def s_def)
  then show ?thesis using assms(2) book' view
    by (auto simp: book_inv_def book_view_def)
qed

lemma same_add:
  assumes same: "same_book orders book R" and n: "0 \<le> sint n"
    and app: "apply_insert r b p n orders book = Some (True, orders', book')"
    and kept: "ob_overflow book' = ob_overflow book"
  shows "\<exists>R'. real_add r b (uint p) (sint n) R = Some R' \<and> same_book orders' book' R'"
proof -
  have inv: "table_inv orders" "book_inv book" "std_ok (fb_orders R)" "fb_unknown R = 0"
    "\<And>r. map_of (fb_orders R) r = map_option (\<lambda>(b, p, m). \<lparr>ro_bid = b, ro_price = uint p, ro_shares = m\<rparr>)
          (table_view orders r)"
    "\<And>b. tracks (fb_side b R) (book_view b book)"
    using same by (auto simp: same_book_def)
  obtain t where ins: "table_insert r b p n orders = (True, orders')" and add: "book_add b p n book = Some book'"
    using app by (auto simp: apply_insert_def split: prod.splits bind_splits)
  have view: "table_view orders r = None \<and> card (dom (table_view orders)) < length orders"
  proof (rule ccontr)
    assume "\<not> ?thesis"
    then have "table_view orders r \<noteq> None \<or> card (dom (table_view orders)) = length orders"
      using table.finite_view [OF inv(1)] by auto
    from table.insert_refused [OF inv(1) this] ins show False by simp
  qed
  with table.insert_ok [OF inv(1), of r b p n] ins have t':
    "table_inv orders'" "table_view orders' = (table_view orders)(r \<mapsto> (b, p, sint n))" by auto
  note book' = book_add_kept [OF add inv(2) kept]
  define os where "os = std_set r \<lparr>ro_bid = b, ro_price = uint p, ro_shares = sint n\<rparr> (fb_orders R)"
  from tracks_add [OF inv(6) [of b], of "resting (book_view b book) p + sint n" p "sint n"] book' obtain s' where
    s': "level_add (uint p) (sint n) (fb_side b R) = Some s'"
      "tracks s' ((book_view b book)(p \<mapsto> resting (book_view b book) p + sint n))" by blast
  define R' where "R' = set_fb_side b s' (R\<lparr>fb_orders := os\<rparr>)"
  have "real_add r b (uint p) (sint n) R = Some R'"
    using s'(1) by (simp add: real_add_def os_def R'_def Let_def)
  moreover have "same_book orders' book' R'"
    using t' book' s'(2) inv std.ok_put [OF inv(3)] std.get_put [OF inv(3)]
    by (auto simp: same_book_def R'_def os_def)
  ultimately show ?thesis by blast
qed

text \<open>A reduction on both sides: \<open>applied\<close> shares leave the order and its level.\<close>

lemma same_take:
  assumes same: "same_book orders book R" and n: "0 \<le> sint n"
    and app: "apply_reduce r n orders book = Some ((True, bid), orders', book')"
  shows "\<exists>o1 R1. map_of (fb_orders R) r = Some o1 \<and> ro_bid o1 = bid \<and> fits_i32 (ro_shares o1)
    \<and> real_take o1 (min (sint n) (ro_shares o1)) R = Some R1 \<and> fb_orders R1 = fb_orders R
    \<and> ob_overflow book' = ob_overflow book
    \<and> same_book orders' book' (R1\<lparr>fb_orders :=
        (if ro_shares o1 - min (sint n) (ro_shares o1) \<le> 0 then std_erase r (fb_orders R)
         else std_set r (o1\<lparr>ro_shares := ro_shares o1 - min (sint n) (ro_shares o1)\<rparr>) (fb_orders R))\<rparr>)"
proof -
  have inv: "table_inv orders" "book_inv book" "std_ok (fb_orders R)" "fb_unknown R = 0"
    "\<And>r. map_of (fb_orders R) r = map_option (\<lambda>(b, p, m). \<lparr>ro_bid = b, ro_price = uint p, ro_shares = m\<rparr>)
          (table_view orders r)"
    "\<And>b. tracks (fb_side b R) (book_view b book)"
    using same by (auto simp: same_book_def)
  obtain p a where red: "table_reduce r n orders = Some (Some (bid, p, a), orders')"
    and exe: "book_execute bid p a book = Some book'"
    using app by (auto simp: apply_reduce_def split: bind_splits option.splits)
  obtain b1 p1 m where live: "table_view orders r = Some (b1, p1, m)"
    using table.reduce_unknown [OF inv(1), of r n] red by (cases "table_view orders r") auto
  have fits: "fits_i32 m" by (rule table_view_fits [OF live])
  then have "fits_i32 (m - min (sint n) m)" using n by (auto simp: fits_i32_def min_def)
  from table.reduce_known [OF inv(1) live this] red have
    eq: "b1 = bid" "p1 = p" and a: "sint a = min (sint n) m" and t': "table_inv orders'"
    and view': "table_view orders' = (if m - min (sint n) m \<le> 0 then (table_view orders)(r := None)
                      else (table_view orders)(r \<mapsto> (bid, p, m - min (sint n) m)))" by auto
  define o1 where "o1 = \<lparr>ro_bid = bid, ro_price = uint p, ro_shares = m\<rparr>"
  have o1: "map_of (fb_orders R) r = Some o1" using inv(5) [of r] live eq by (simp add: o1_def)
  note book' = book_execute_done [OF exe inv(2)]
  from tracks_take [OF inv(6) [of bid], of p "sint a"] book_view_fits [of bid book p] obtain s' where
    s': "level_take (uint p) (sint a) (fb_side bid R) = Some s'" "tracks s' (book_view bid book')"
    using book' by auto
  define R1 where "R1 = set_fb_side bid s' R"
  have "real_take o1 (min (sint n) m) R = Some R1" using s'(1) a by (simp add: real_take_def o1_def R1_def)
  moreover have "same_book orders' book' (R1\<lparr>fb_orders := (if m - min (sint n) m \<le> 0 then std_erase r (fb_orders R)
         else std_set r (o1\<lparr>ro_shares := m - min (sint n) m\<rparr>) (fb_orders R))\<rparr>)"
    unfolding same_book_def
  proof (intro conjI allI)
    show "tracks (fb_side b (R1\<lparr>fb_orders := os\<rparr>)) (book_view b book')" for b os
      using s'(2) inv(6) [of b] book' by (cases b; cases bid) (simp_all add: R1_def)
    show "map_of (fb_orders (R1\<lparr>fb_orders := (if m - min (sint n) m \<le> 0 then std_erase r (fb_orders R)
         else std_set r (o1\<lparr>ro_shares := m - min (sint n) m\<rparr>) (fb_orders R))\<rparr>)) r'
      = map_option (\<lambda>(b, p, m). \<lparr>ro_bid = b, ro_price = uint p, ro_shares = m\<rparr>) (table_view orders' r')" for r'
      using inv(5) [of r'] view' std.get_put [OF inv(3)] std.get_erase [OF inv(3)] by (simp add: o1_def)
  qed (use t' book' inv std.ok_put [OF inv(3)] std.ok_erase [OF inv(3)] in \<open>simp_all add: R1_def\<close>)
  moreover have parts: "ro_bid o1 = bid" "ro_shares o1 = m" "fb_orders R1 = fb_orders R"
    by (simp_all add: o1_def R1_def)
  moreover have "ob_overflow book' = ob_overflow book" using book' by simp
  ultimately show ?thesis using o1 fits
    by (intro exI [of _ o1] exI [of _ R1]) (simp only: parts simp_thms)
qed

lemma same_reduce:
  assumes "same_book orders book R" "0 \<le> sint n"
    and "apply_reduce r n orders book = Some ((True, bid), orders', book')"
  shows "\<exists>R'. real_reduce r (sint n) R = Some R' \<and> same_book orders' book' R' \<and> ob_overflow book' = ob_overflow book"
proof -
  from same_take [OF assms] obtain o1 R1 where o1: "map_of (fb_orders R) r = Some o1" "fits_i32 (ro_shares o1)"
    "real_take o1 (min (sint n) (ro_shares o1)) R = Some R1" "fb_orders R1 = fb_orders R"
    and over: "ob_overflow book' = ob_overflow book"
    and same: "same_book orders' book' (R1\<lparr>fb_orders :=
        (if ro_shares o1 - min (sint n) (ro_shares o1) \<le> 0 then std_erase r (fb_orders R)
         else std_set r (o1\<lparr>ro_shares := ro_shares o1 - min (sint n) (ro_shares o1)\<rparr>) (fb_orders R))\<rparr>)"
    by blast
  define left where "left = ro_shares o1 - min (sint n) (ro_shares o1)"
  have "fits_i64 left" using o1(2) assms(2) by (auto simp: left_def fits_i32_def fits_i64_def min_def)
  then have "real_reduce r (sint n) R = Some (R1\<lparr>fb_orders := (if left \<le> 0 then std_erase r (fb_orders R)
      else std_set r (o1\<lparr>ro_shares := left\<rparr>) (fb_orders R))\<rparr>)"
    using o1 by (simp only: real_reduce_def i64_checked_def Let_def left_def [symmetric] if_True
        option.case Option.bind_lunit)
  with over same show ?thesis by (simp only: left_def [symmetric]) blast
qed

lemma sint_max_i32: "sint max_i32 = 2 ^ 31 - 1"
  by (simp add: max_i32_def sint_of_int_i32 fits_i32_def)

lemma same_remove:
  assumes "same_book orders book R"
    and "apply_reduce r max_i32 orders book = Some ((True, bid), orders', book')"
  shows "\<exists>o1 R'. map_of (fb_orders R) r = Some o1 \<and> ro_bid o1 = bid \<and> real_remove r R = Some R'
    \<and> same_book orders' book' R' \<and> ob_overflow book' = ob_overflow book"
proof -
  have "0 \<le> sint max_i32" by (simp add: sint_max_i32)
  from same_take [OF assms(1) this assms(2)] obtain o1 R1 where o1: "map_of (fb_orders R) r = Some o1"
    "ro_bid o1 = bid" "fits_i32 (ro_shares o1)"
    "real_take o1 (min (sint max_i32) (ro_shares o1)) R = Some R1" "fb_orders R1 = fb_orders R"
    and over: "ob_overflow book' = ob_overflow book"
    and same: "same_book orders' book' (R1\<lparr>fb_orders :=
        (if ro_shares o1 - min (sint max_i32) (ro_shares o1) \<le> 0 then std_erase r (fb_orders R)
         else std_set r (o1\<lparr>ro_shares := ro_shares o1 - min (sint max_i32) (ro_shares o1)\<rparr>) (fb_orders R))\<rparr>)"
    by blast
  have "min (sint max_i32) (ro_shares o1) = ro_shares o1"
    using o1(3) by (simp add: sint_max_i32 fits_i32_def)
  then show ?thesis using o1 over same by (simp add: real_remove_def)
qed

subsection \<open>Messages\<close>

lemma be_8: "be p 8 = u64be p"
  by (simp add: be_def u64be_def)

lemma be_4: "sint (be p 4) = uint (u32be p)"
proof -
  have "be p 4 = ucast (u32be p)"
  proof (rule bit_word_eqI)
    fix n :: nat
    consider "n < 8" | "8 \<le> n" "n < 16" | "16 \<le> n" "n < 24" | "24 \<le> n" "n < 32" | "32 \<le> n" by linarith
    then show "bit (be p 4) n = bit (ucast (u32be p) :: u64) n"
      by cases (auto simp: be_def u32be_def upt_rec [of _ 4] upt_rec [of "Suc _" 4] bit_simps
        numeral_2_eq_2 numeral_3_eq_3 dest: bit_imp_le_length)
  qed
  moreover have "sint (ucast w :: u64) = uint w" for w :: u32
    by (rule bit_eqI) (auto simp: bit_simps min_def dest: bit_imp_le_length)
  ultimately show ?thesis by simp
qed

lemma sint_uint_i32:
  assumes "0 \<le> sint (w :: i32)"
  shows "sint w = uint w"
proof -
  have top: "\<not> bit w 31" using assms by (simp add: sint_uint bit_uint_iff)
  then have low: "bit w n \<longrightarrow> n < 31" for n using bit_imp_le_length [of w n] by (cases "n = 31") auto
  show ?thesis
  proof (rule bit_eqI)
    fix n show "bit (sint w) n = bit (uint w) n"
      using low [of n] top by (auto simp: bit_simps min_def)
  qed
qed

lemma same_event:
  assumes same: "same_book orders book R" and wf: "wf_message m" and shares: "0 \<le> sint (ev_shares (decoded m))"
    and app: "apply_event (decoded m) orders book = Some (True, orders', book')"
    and kept: "ob_overflow book' = ob_overflow book"
  shows "\<exists>R'. real_apply m R = Some (True, R') \<and> same_book orders' book' R'"
proof -
  have len: "length m = length_for (m ! 0)" "length_for (m ! 0) \<noteq> 0" using wf_message_length [OF wf] by auto
  note fields = decoded_def itch_decode_def len(1) be_8 be_4 real_apply_def Let_def
  note shares' = sint_uint_i32 [OF shares]
  show ?thesis
  proof (cases "m ! 0" rule: length_for_cases)
    case 1
    with same_add [OF same shares, of "u64be (drop 11 m)" "m ! 19 = ascii CHR ''B''" "u32be (drop 32 m)" orders' book']
      app kept shares' show ?thesis by (simp add: fields apply_event_def)
  next
    case 2
    with same_add [OF same shares, of "u64be (drop 11 m)" "m ! 19 = ascii CHR ''B''" "u32be (drop 32 m)" orders' book']
      app kept shares' show ?thesis by (simp add: fields apply_event_def)
  next
    case 3
    with same_reduce [OF same shares, of "u64be (drop 11 m)" _ orders' book'] app shares' show ?thesis
      by (auto simp: fields apply_event_def)
  next
    case 4
    with same_reduce [OF same shares, of "u64be (drop 11 m)" _ orders' book'] app shares' show ?thesis
      by (auto simp: fields apply_event_def)
  next
    case 5
    with same_reduce [OF same shares, of "u64be (drop 11 m)" _ orders' book'] app shares' show ?thesis
      by (auto simp: fields apply_event_def)
  next
    case 6
    with same_remove [OF same, of "u64be (drop 11 m)" _ orders' book'] app show ?thesis
      by (auto simp: fields apply_event_def)
  next
    case 7
    then obtain bid orders1 book1 where red: "apply_reduce (u64be (drop 11 m)) max_i32 orders book
        = Some ((True, bid), orders1, book1)"
      and ins: "apply_insert (u64be (drop 19 m)) bid (u32be (drop 31 m)) (u32be (drop 27 m)) orders1 book1
        = Some (True, orders', book')"
      using app by (auto simp: fields apply_event_def split: bind_splits if_splits)
    from same_remove [OF same red] obtain o1 R1 where R1: "map_of (fb_orders R) (u64be (drop 11 m)) = Some o1"
      "ro_bid o1 = bid" "real_remove (u64be (drop 11 m)) R = Some R1" "same_book orders1 book1 R1"
      "ob_overflow book1 = ob_overflow book" by blast
    have sh: "ev_shares (decoded m) = u32be (drop 27 m)" using 7 by (simp add: fields)
    from same_add [OF R1(4) shares [unfolded sh] ins] kept R1(5) obtain R2 where
      "real_add (u64be (drop 19 m)) bid (uint (u32be (drop 31 m))) (sint (u32be (drop 27 m))) R1 = Some R2"
      "same_book orders' book' R2" by auto
    with R1 7 shares' [unfolded sh] show ?thesis by (simp add: fields)
  next
    case 8
    with len show ?thesis by simp
  qed
qed

subsection \<open>Runs\<close>

text \<open>The table and the five-level book on a sequence of messages; \<open>None\<close> once a message is
  refused or an add is dropped for want of a level.\<close>

fun model_run :: "u8 list list \<Rightarrow> order_table \<Rightarrow> order_book \<Rightarrow> (order_table \<times> order_book) option" where
  "model_run [] orders book = Some (orders, book)"
| "model_run (m # ms) orders book = do {
     (ok, orders1, book1) \<leftarrow> apply_event (decoded m) orders book;
     if ok \<and> ob_overflow book1 = ob_overflow book then model_run ms orders1 book1 else None }"

definition upright :: "order_book \<Rightarrow> bool" where
  "upright book \<longleftrightarrow> (\<forall>b. \<forall>p \<in> dom (book_view b book). 0 \<le> sint p)"

definition mild_message :: "u8 list \<Rightarrow> bool" where
  "mild_message m \<longleftrightarrow> wf_message m \<and> 0 \<le> sint (ev_shares (decoded m)) \<and> 0 \<le> sint (price_ticks (decoded m))"

lemma insert_upright:
  assumes "apply_insert r b p n orders book = Some (True, orders', book')" "book_inv book"
    "ob_overflow book' = ob_overflow book" "upright book" "0 \<le> sint p"
  shows "upright book'"
proof -
  have "book_add b p n book = Some book'"
    using assms(1) by (auto simp: apply_insert_def split: prod.splits bind_splits)
  from book_add_kept [OF this assms(2,3)] assms(4,5) show ?thesis
    by (auto simp: upright_def split: if_splits)
qed

lemma reduce_upright:
  assumes "apply_reduce r n orders book = Some ((True, bid), orders', book')" "book_inv book" "upright book"
  shows "upright book'" "book_inv book'" "ob_overflow book' = ob_overflow book"
proof -
  obtain p a where "book_execute bid p a book = Some book'"
    using assms(1) by (auto simp: apply_reduce_def split: bind_splits option.splits)
  from book_execute_done [OF this assms(2)] assms(3)
  show "upright book'" "book_inv book'" "ob_overflow book' = ob_overflow book"
    by (auto simp: upright_def split: if_splits)
qed

lemma event_upright:
  assumes "apply_event e orders book = Some (True, orders', book')" "book_inv book"
    "ob_overflow book' = ob_overflow book" "upright book" "0 \<le> sint (price_ticks e)"
  shows "upright book'"
proof (cases "ev_type e = Replace")
  case True
  then obtain bid orders1 book1 where red: "apply_reduce (order_reference e) max_i32 orders book
      = Some ((True, bid), orders1, book1)"
    and ins: "apply_insert (new_reference e) bid (price_ticks e) (ev_shares e) orders1 book1
      = Some (True, orders', book')"
    using assms(1) by (auto simp: apply_event_def split: bind_splits if_splits)
  note r = reduce_upright [OF red assms(2,4)]
  show ?thesis by (rule insert_upright [OF ins r(2) _ r(1) assms(5)]) (simp add: r(3) assms(3))
next
  case False
  with assms(1) show ?thesis
    by (auto simp: apply_event_def Let_def split: if_splits
        elim: insert_upright [OF _ assms(2-5)] reduce_upright(1) [OF _ assms(2,4)])
qed

lemma same_run:
  assumes "same_book orders book R" "upright book" "\<forall>m \<in> set ms. mild_message m"
    "model_run ms orders book = Some (orders', book')"
  shows "\<exists>R'. real_run ms R = Some R' \<and> same_book orders' book' R' \<and> upright book'"
  using assms
proof (induction ms arbitrary: orders book R)
  case (Cons m ms)
  from Cons.prems(4) obtain orders1 book1 where app: "apply_event (decoded m) orders book = Some (True, orders1, book1)"
    and kept: "ob_overflow book1 = ob_overflow book" and rest: "model_run ms orders1 book1 = Some (orders', book')"
    by (auto split: bind_splits if_splits)
  have mild: "wf_message m" "0 \<le> sint (ev_shares (decoded m))" "0 \<le> sint (price_ticks (decoded m))"
    using Cons.prems(3) by (auto simp: mild_message_def)
  from same_event [OF Cons.prems(1) mild(1,2) app kept] obtain R1 where
    R1: "real_apply m R = Some (True, R1)" "same_book orders1 book1 R1" by blast
  have "book_inv book" using Cons.prems(1) by (simp add: same_book_def)
  from Cons.IH [OF R1(2) event_upright [OF app this kept Cons.prems(2) mild(3)] _ rest] Cons.prems(3) R1(1)
  show ?case by simp
qed simp

subsection \<open>What the two books show\<close>

lemma tracks_key: "tracks s v \<Longrightarrow> dom (map_of s) = uint ` dom v"
proof (rule set_eqI)
  fix x assume t: "tracks s v"
  show "x \<in> dom (map_of s) \<longleftrightarrow> x \<in> uint ` dom v"
  proof
    assume "x \<in> dom (map_of s)"
    moreover have "map_of s x = (if 0 \<le> x \<and> x < 2 ^ 32 then v (word_of_int x) else None)"
      using t by (simp add: tracks_def)
    ultimately have "0 \<le> x" "x < 2 ^ 32" "word_of_int x \<in> dom v" by (simp_all add: dom_def split: if_splits)
    then show "x \<in> uint ` dom v"
      by (intro image_eqI [of _ _ "word_of_int x"]) (auto simp: uint_word_of_int_eq take_bit_int_eq_self)
  qed (auto simp: tracks_at [OF t])
qed

lemma uint_inj: "inj (uint :: i32 \<Rightarrow> int)"
  by (rule injI) (simp add: word_uint_eq_iff)

lemma tracks_length: "tracks s v \<Longrightarrow> length s = card (dom v)"
  using length_std [of s] tracks_key [of s v] card_image [OF inj_on_subset [OF uint_inj], of "dom v"]
  by (simp add: tracks_def)

lemma tracks_Nil: "tracks s v \<Longrightarrow> s = [] \<longleftrightarrow> v = Map.empty"
  using tracks_key [of s v] std_empty [of s] by (metis dom_eq_empty_conv image_is_empty)

lemma tracks_last:
  assumes t: "tracks s v" and up: "\<forall>p \<in> dom v. 0 \<le> sint p" and p: "p \<in> dom v" "\<forall>p' \<in> dom v. p' <=s p"
  shows "s \<noteq> [] \<and> fst (last s) = uint p"
proof -
  have ne: "s \<noteq> []" and ok: "std_ok s" using t p tracks_Nil [OF t] by (auto simp: tracks_def)
  have "highest s = Some (fst (last s), snd (last s))" using ne by (simp add: highest_def)
  note ends = conjunct1 [OF full_bids.best_Some [OF ok this]] conjunct2 [OF full_bids.best_Some [OF ok this]]
  obtain p' where p': "p' \<in> dom v" "fst (last s) = uint p'"
    using ends(1) tracks_key [OF t] by (metis domI image_iff)
  have "uint p \<le> uint p'" using bspec [OF ends(2), of "uint p"] p p' tracks_key [OF t] by auto
  moreover have "uint p' \<le> uint p" using p up p'(1) by (auto simp: word_sle_eq sint_uint_i32)
  ultimately show ?thesis using ne p' by simp
qed

lemma tracks_hd:
  assumes t: "tracks s v" and up: "\<forall>p \<in> dom v. 0 \<le> sint p" and p: "p \<in> dom v" "\<forall>p' \<in> dom v. p <=s p'"
  shows "s \<noteq> [] \<and> fst (hd s) = uint p"
proof -
  have ne: "s \<noteq> []" and ok: "std_ok s" using t p tracks_Nil [OF t] by (auto simp: tracks_def)
  have "lowest s = Some (fst (hd s), snd (hd s))" using ne by (simp add: lowest_def)
  note ends = conjunct1 [OF full_asks.best_Some [OF ok this]] conjunct2 [OF full_asks.best_Some [OF ok this]]
  obtain p' where p': "p' \<in> dom v" "fst (hd s) = uint p'"
    using ends(1) tracks_key [OF t] by (metis domI image_iff)
  have "uint p' \<le> uint p" using bspec [OF ends(2), of "uint p"] p p' tracks_key [OF t] by auto
  moreover have "uint p \<le> uint p'" using p up p'(1) by (auto simp: word_sle_eq sint_uint_i32)
  ultimately show ?thesis using ne p' by simp
qed

lemma best_bid_real:
  assumes same: "same_book orders book R" and up: "upright book"
  shows "real_best_bid R = (if bl_valid (best_bid book) then Some (uint (bl_price (best_bid book))) else None)"
proof -
  have inv: "side_inv (ob_bids book)" and t: "tracks (fb_bids R) (book_view True book)"
    using same by (auto simp: same_book_def book_inv_def fb_side_def dest: spec [of _ True])
  show ?thesis
  proof (cases "bl_valid (best_bid book)")
    case True
    then have "bl_price (best_bid book) \<in> dom (book_view True book)"
      "\<forall>p \<in> dom (book_view True book). p <=s bl_price (best_bid book)"
      using bids.best_Some [OF inv, of "bl_price (best_bid book)" "sint (bl_quantity (best_bid book))"]
      by (auto simp: best_bid_level book_view_def level_quote_def word_sless_alt word_sle_eq not_less)
    from tracks_last [OF t _ this] up True show ?thesis by (auto simp: real_best_bid_def upright_def)
  next
    case False
    then have "book_view True book = Map.empty"
      using bids.best_None [OF inv] by (simp add: best_bid_level book_view_def level_quote_def)
    with False tracks_Nil [OF t] show ?thesis by (simp add: real_best_bid_def)
  qed
qed

lemma best_ask_real:
  assumes same: "same_book orders book R" and up: "upright book"
  shows "real_best_ask R = (if bl_valid (best_ask book) then Some (uint (bl_price (best_ask book))) else None)"
proof -
  have inv: "side_inv (ob_asks book)" and t: "tracks (fb_asks R) (book_view False book)"
    using same by (auto simp: same_book_def book_inv_def fb_side_def dest: spec [of _ False])
  show ?thesis
  proof (cases "bl_valid (best_ask book)")
    case True
    then have "bl_price (best_ask book) \<in> dom (book_view False book)"
      "\<forall>p \<in> dom (book_view False book). bl_price (best_ask book) <=s p"
      using asks.best_Some [OF inv, of "bl_price (best_ask book)" "sint (bl_quantity (best_ask book))"]
      by (auto simp: best_ask_level book_view_def level_quote_def word_sless_alt word_sle_eq not_less)
    from tracks_hd [OF t _ this] up True show ?thesis by (auto simp: real_best_ask_def upright_def)
  next
    case False
    then have "book_view False book = Map.empty"
      using asks.best_None [OF inv] by (simp add: best_ask_level book_view_def level_quote_def)
    with False tracks_Nil [OF t] show ?thesis by (simp add: real_best_ask_def)
  qed
qed

text \<open>The best level of the full-depth book with its quantity.\<close>

lemma highest_real:
  assumes same: "same_book orders book R" and up: "upright book"
  shows "highest (fb_bids R) = (if bl_valid (best_bid book)
    then Some (uint (bl_price (best_bid book)), sint (bl_quantity (best_bid book))) else None)"
proof -
  have inv: "side_inv (ob_bids book)" "std_ok (fb_bids R)" and t: "tracks (fb_bids R) (book_view True book)"
    using same by (auto simp: same_book_def book_inv_def fb_side_def tracks_def dest: spec [of _ True])
  have price: "map_option fst (highest (fb_bids R)) = (if bl_valid (best_bid book) then Some (uint (bl_price (best_bid book))) else None)"
    using best_bid_real [OF assms]
    by (cases "fb_bids R = []") (simp_all add: real_best_bid_def highest_def split del: if_split)
  show ?thesis
  proof (cases "bl_valid (best_bid book)")
    case True
    then obtain m where m: "highest (fb_bids R) = Some (uint (bl_price (best_bid book)), m)" using price by auto
    then have "map_of (fb_bids R) (uint (bl_price (best_bid book))) = Some m"
      using full_bids.best_Some [OF inv(2)] by blast
    moreover have "book_view True book (bl_price (best_bid book)) = Some (sint (bl_quantity (best_bid book)))"
      using bids.best_Some [OF inv(1), of "bl_price (best_bid book)" "sint (bl_quantity (best_bid book))"] True
      by (simp add: best_bid_level book_view_def level_quote_def)
    ultimately show ?thesis using m True tracks_at [OF t] by simp
  qed (use price in simp)
qed

lemma lowest_real:
  assumes same: "same_book orders book R" and up: "upright book"
  shows "lowest (fb_asks R) = (if bl_valid (best_ask book)
    then Some (uint (bl_price (best_ask book)), sint (bl_quantity (best_ask book))) else None)"
proof -
  have inv: "side_inv (ob_asks book)" "std_ok (fb_asks R)" and t: "tracks (fb_asks R) (book_view False book)"
    using same by (auto simp: same_book_def book_inv_def fb_side_def tracks_def dest: spec [of _ False])
  have price: "map_option fst (lowest (fb_asks R)) = (if bl_valid (best_ask book) then Some (uint (bl_price (best_ask book))) else None)"
    using best_ask_real [OF assms]
    by (cases "fb_asks R = []") (simp_all add: real_best_ask_def lowest_def split del: if_split)
  show ?thesis
  proof (cases "bl_valid (best_ask book)")
    case True
    then obtain m where m: "lowest (fb_asks R) = Some (uint (bl_price (best_ask book)), m)" using price by auto
    then have "map_of (fb_asks R) (uint (bl_price (best_ask book))) = Some m"
      using full_asks.best_Some [OF inv(2)] by blast
    moreover have "book_view False book (bl_price (best_ask book)) = Some (sint (bl_quantity (best_ask book)))"
      using asks.best_Some [OF inv(1), of "bl_price (best_ask book)" "sint (bl_quantity (best_ask book))"] True
      by (simp add: best_ask_level book_view_def level_quote_def)
    ultimately show ?thesis using m True tracks_at [OF t] by simp
  qed (use price in simp)
qed

text \<open>
  C5. The pipeline's order table and five-level book against the full-depth reference book: on
  any sequence of well-formed messages with share counts and prices below \<open>2 ^ 31\<close> that the table
  and book take without refusing a message or dropping an add, the reference book stays within
  its 64-bit arithmetic, meets no unknown reference, and holds the same orders, the same levels
  with the same quantities, the same number of levels, and the same best prices.
\<close>

theorem real_book_equivalence:
  assumes "\<forall>m \<in> set ms. mild_message m"
    and "model_run ms (table_new cap) book_new = Some (orders, book)"
  shows "\<exists>R. real_run ms real_new = Some R \<and> fb_unknown R = 0
    \<and> (\<forall>r. map_of (fb_orders R) r = map_option (\<lambda>(b, p, m). \<lparr>ro_bid = b, ro_price = uint p, ro_shares = m\<rparr>)
          (table_view orders r))
    \<and> (\<forall>p. map_of (fb_bids R) (uint p) = book_view True book p
         \<and> map_of (fb_asks R) (uint p) = book_view False book p)
    \<and> real_orders R = card (dom (table_view orders))
    \<and> bid_levels R = card (dom (book_view True book)) \<and> ask_levels R = card (dom (book_view False book))
    \<and> real_best_bid R = (if bl_valid (best_bid book) then Some (uint (bl_price (best_bid book))) else None)
    \<and> real_best_ask R = (if bl_valid (best_ask book) then Some (uint (bl_price (best_ask book))) else None)"
proof -
  have "upright book_new"
    using same_book_new [of cap] by (auto simp: upright_def book_view_def book_new_def)
  from same_run [OF same_book_new this assms] obtain R where
    R: "real_run ms real_new = Some R" "same_book orders book R" "upright book" by blast
  have t: "tracks (fb_bids R) (book_view True book)" "tracks (fb_asks R) (book_view False book)"
    and ok: "std_ok (fb_orders R)" "fb_unknown R = 0"
    and orders: "\<forall>r. map_of (fb_orders R) r
      = map_option (\<lambda>(b, p, m). \<lparr>ro_bid = b, ro_price = uint p, ro_shares = m\<rparr>) (table_view orders r)"
    using R(2) by (auto simp: same_book_def fb_side_def dest: spec [of _ True] spec [of _ False])
  have "dom (map_of (fb_orders R)) = dom (table_view orders)"
    using orders by (auto simp: dom_def)
  with R ok orders best_bid_real [OF R(2,3)] best_ask_real [OF R(2,3)] tracks_at [OF t(1)] tracks_at [OF t(2)]
    tracks_length [OF t(1)] tracks_length [OF t(2)] length_std [OF ok(1)]
  show ?thesis
    by (intro exI [of _ R]) (simp add: real_orders_def bid_levels_def ask_levels_def)
qed

text \<open>An order for 10 shares of which 4 are executed.\<close>

definition sample_bid :: itch_event where
  "sample_bid = event_empty\<lparr>ev_type := Add, order_reference := 7, ev_side := ascii CHR ''B'',
     ev_shares := 10, price_ticks := 5\<rparr>"

definition sample_fill :: itch_event where
  "sample_fill = event_empty\<lparr>ev_type := Executed, order_reference := 7, ev_shares := 4\<rparr>"

definition sample_orders :: "u8 list list" where
  "sample_orders = [itch_message (replicate 10 0) sample_bid [],
     itch_message (replicate 10 0) sample_fill (replicate 8 0)]"

lemma sample_orders_decoded:
  "wf_message (itch_message (replicate 10 0) sample_bid [])"
  "decoded (itch_message (replicate 10 0) sample_bid []) = sample_bid"
  "wf_message (itch_message (replicate 10 0) sample_fill (replicate 8 0))"
  "decoded (itch_message (replicate 10 0) sample_fill (replicate 8 0)) = sample_fill"
proof -
  have "carried sample_bid" "carried sample_fill"
    by (simp_all add: carried_def sample_bid_def sample_fill_def event_empty_def)
  moreover have "tail_length (ev_type sample_bid) = 0" "tail_length (ev_type sample_fill) = 8"
    by (simp_all add: sample_bid_def sample_fill_def)
  ultimately show "wf_message (itch_message (replicate 10 0) sample_bid [])"
    "decoded (itch_message (replicate 10 0) sample_bid []) = sample_bid"
    "wf_message (itch_message (replicate 10 0) sample_fill (replicate 8 0))"
    "decoded (itch_message (replicate 10 0) sample_fill (replicate 8 0)) = sample_fill"
    by (simp_all add: message_wf message_decoded)
qed

lemma sample_events:
  "ev_type sample_bid = Add" "order_reference sample_bid = 7" "ev_side sample_bid = ascii CHR ''B''"
  "ev_shares sample_bid = 10" "price_ticks sample_bid = 5"
  "ev_type sample_fill = Executed" "order_reference sample_fill = 7" "ev_shares sample_fill = 4"
  "price_ticks sample_fill = 0"
  by (simp_all add: sample_bid_def sample_fill_def event_empty_def)

lemma empty_levels [simp]:
  "\<not> bl_valid level_empty" "add_existing p q (replicate n level_empty) = Some (False, replicate n level_empty)"
  "side_view (replicate n level_empty) p = None"
  "foldl (\<lambda>best l. if bl_valid l \<and> (bl_valid best \<longrightarrow> bl_price best <s bl_price l) then l else best) b
     (replicate n level_empty) = b"
  by (induction n) (simp_all add: level_empty_def)

theorem real_book_equivalence_witness:
  "\<exists>R. real_run sample_orders real_new = Some R \<and> real_best_bid R = Some 5 \<and> bid_levels R = 1
    \<and> map_of (fb_bids R) 5 = Some 6"
proof -
  have mild: "\<forall>m \<in> set sample_orders. mild_message m"
    unfolding mild_message_def by (simp add: sample_orders_def sample_orders_decoded sample_events)
  define t1 where "t1 = [\<lparr>oe_reference = 7, oe_price = 5, oe_remaining = 10, oe_bid = True, oe_live = True\<rparr>]"
  define b1 where "b1 = book_new\<lparr>ob_bids := \<lparr>bl_price = 5, bl_quantity = 10, bl_valid = True\<rparr> # replicate 4 level_empty\<rparr>"
  have bids: "ob_bids book_new = level_empty # replicate 4 level_empty"
    by (simp add: book_new_def levels_def numeral_eq_Suc)
  have "apply_event sample_bid (table_new 1) book_new = Some (True, t1, b1)"
    by (simp add: sample_events apply_event_def apply_insert_def table_insert_def table_new_def entry_empty_def
        book_add_def side_add_def bids t1_def b1_def Let_def)
  moreover define b2 where "b2 = book_new\<lparr>ob_bids := \<lparr>bl_price = 5, bl_quantity = 6, bl_valid = True\<rparr> # replicate 4 level_empty\<rparr>"
  have "\<exists>t2. apply_event sample_fill t1 b1 = Some (True, t2, b2)"
    by (simp add: sample_events apply_event_def apply_reduce_def t1_def b1_def b2_def Let_def book_execute_def
        i32_sub_def fits_i32_def word_sle_eq word_sless_alt)
  ultimately have "\<exists>orders book. model_run sample_orders (table_new 1) book_new = Some (orders, book)
    \<and> book_view True book = [5 \<mapsto> 6] \<and> bl_valid (best_bid book) \<and> bl_price (best_bid book) = 5"
    by (auto simp: sample_orders_def sample_orders_decoded b1_def b2_def book_view_def best_bid_def fun_eq_iff)
  then obtain orders book where run: "model_run sample_orders (table_new 1) book_new = Some (orders, book)"
    and view: "book_view True book = [5 \<mapsto> 6]" "bl_valid (best_bid book)" "bl_price (best_bid book) = 5"
    by blast
  from real_book_equivalence [OF mild run] obtain R where R: "real_run sample_orders real_new = Some R"
    "\<forall>p. map_of (fb_bids R) (uint p) = book_view True book p" "bid_levels R = card (dom (book_view True book))"
    "real_best_bid R = Some 5"
    using view by auto
  have "map_of (fb_bids R) 5 = Some 6" using R(2) [THEN spec, of 5] view by simp
  with R view show ?thesis by auto
qed

end
