(* ===== verification/Replay_Tool.thy ===== *)
theory Replay_Tool
  imports Real_Book Tick_Run Demo_Run
begin

text \<open>
  The replay tool \<open>tools/itch_replay.cpp\<close>: its options, the two passes over the file, the choice
  of the stock and the replay of that stock's messages through the pipeline. The file is the list
  of its bytes; opening and mapping it stay out. What it
  prints is in \<open>Replay_Print\<close>.
\<close>

subsection \<open>Constants and options\<close>

definition model_capacity :: nat where "model_capacity = 20000"
definition replay_order_capacity :: nat where "replay_order_capacity = 16384"

definition stock_of :: "u8 list \<Rightarrow> string" where
  "stock_of r = rev (dropWhile (\<lambda>c. c = CHR '' '') (rev (map (\<lambda>b. char_of (unat b)) (take 8 (drop 11 r)))))"

definition book_type :: "u8 \<Rightarrow> bool" where
  "book_type t \<longleftrightarrow> t = ascii CHR ''A'' \<or> t = ascii CHR ''F'' \<or> t = ascii CHR ''E'' \<or> t = ascii CHR ''C''
     \<or> t = ascii CHR ''X'' \<or> t = ascii CHR ''D'' \<or> t = ascii CHR ''U''"

text \<open>\<open>strtoull\<close> in base 10: white space, a sign, digits; too large a number is the maximum.\<close>

definition white :: "char \<Rightarrow> bool" where
  "white c \<longleftrightarrow> c = CHR '' '' \<or> of_char c \<in> {9 :: nat .. 13}"

definition strtoull :: "string \<Rightarrow> u64" where
  "strtoull s =
     (let s1 = dropWhile white s;
          negative = (s1 \<noteq> [] \<and> hd s1 = CHR ''-'');
          s2 = (if s1 \<noteq> [] \<and> (hd s1 = CHR ''-'' \<or> hd s1 = CHR ''+'') then tl s1 else s1);
          n = undecimal (takeWhile (\<lambda>c. of_char c \<in> {48 :: nat .. 57}) s2)
      in if 2 ^ 64 \<le> n then - 1 else if negative then - of_nat n else of_nat n)"

record replay_options =
  op_symbol :: string
  op_messages :: nat
  op_gap_cap :: u64

definition default_options :: replay_options where
  "default_options = \<lparr>op_symbol = [], op_messages = model_capacity, op_gap_cap = 256\<rparr>"

text \<open>The arguments from the third on; \<open>None\<close> for an unknown option. A last one without a value
  is ignored.\<close>

fun parse_options :: "string list \<Rightarrow> replay_options \<Rightarrow> replay_options option" where
  "parse_options (k # v # args) opts =
     (if k = ''--symbol'' then parse_options args (opts\<lparr>op_symbol := v\<rparr>)
      else if k = ''--model-messages'' then
        parse_options args (opts\<lparr>op_messages := min (unat (strtoull v)) model_capacity\<rparr>)
      else if k = ''--gap-cap-cycles'' then parse_options args (opts\<lparr>op_gap_cap := strtoull v\<rparr>)
      else None)"
| "parse_options _ opts = Some opts"

subsection \<open>Pass 1\<close>

record pass1 =
  p1_mix :: "(u8 \<times> u64) list"
  p1_directory :: "(u16 \<times> string) list"
  p1_adds :: "(u16 \<times> u64) list"
  p1_total :: u64
  p1_first :: u64
  p1_last :: u64
  p1_per_ms :: "(u64 \<times> u32) list"

definition pass1_new :: pass1 where
  "pass1_new = \<lparr>p1_mix = [], p1_directory = [], p1_adds = [], p1_total = 0, p1_first = 0, p1_last = 0,
     p1_per_ms = []\<rparr>"

definition pass1_step :: "pass1 \<Rightarrow> u8 list \<Rightarrow> pass1" where
  "pass1_step p m =
     (let t = m ! 0; ts = timestamp_ns m in
      \<lparr>p1_mix = std_bump (\<lambda>n. n + 1) 0 t (p1_mix p),
       p1_directory = (if t = ascii CHR ''R'' then std_set (locate_of m) (stock_of m) (p1_directory p)
                       else p1_directory p),
       p1_adds = (if t = ascii CHR ''A'' \<or> t = ascii CHR ''F'' then std_bump (\<lambda>n. n + 1) 0 (locate_of m) (p1_adds p)
                  else p1_adds p),
       p1_total = p1_total p + 1,
       p1_first = (if p1_first p = 0 then ts else p1_first p),
       p1_last = ts,
       p1_per_ms = std_bump (\<lambda>n. n + 1) 0 (ts div 1000000) (p1_per_ms p)\<rparr>)"

definition peak_ms :: "pass1 \<Rightarrow> u64" where
  "peak_ms p = foldl (\<lambda>peak (ms, n). max peak (ucast n)) 0 (p1_per_ms p)"

subsection \<open>The stock\<close>

definition locate_named :: "string \<Rightarrow> (u16 \<times> string) list \<Rightarrow> u16" where
  "locate_named want directory = foldl (\<lambda>locate (l, s). if s = want then l else locate) 0 directory"

definition busiest :: "(u16 \<times> u64) list \<Rightarrow> u16" where
  "busiest adds = fst (foldl (\<lambda>(locate, best) (l, n). if best < n then (l, n) else (locate, best)) (0, 0) adds)"

text \<open>\<open>None\<close> if the wanted symbol is not in the directory.\<close>

definition choose_stock :: "string \<Rightarrow> pass1 \<Rightarrow> u16 option" where
  "choose_stock want p =
     (if want \<noteq> [] then
        let locate = locate_named want (p1_directory p) in if locate = 0 then None else Some locate
      else Some (busiest (p1_adds p)))"

definition symbol_of :: "u16 \<Rightarrow> pass1 \<Rightarrow> string" where
  "symbol_of locate p = (case map_of (p1_directory p) locate of None \<Rightarrow> ''?'' | Some s \<Rightarrow> s)"

subsection \<open>Pass 2\<close>

record pass2 =
  p2_stream :: itch_stream
  p2_book :: real_book
  p2_bid_levels :: "u64 list"
  p2_ask_levels :: "u64 list"
  p2_orders :: "u64 list"
  p2_msgs :: u64
  p2_over5 :: u64
  p2_prev_ts :: u64
  p2_arrival :: u64
  p2_have_prev :: bool

definition pass2_new :: pass2 where
  "pass2_new = \<lparr>p2_stream = replay_new model_capacity replay_order_capacity, p2_book = real_new,
     p2_bid_levels = [], p2_ask_levels = [], p2_orders = [], p2_msgs = 0, p2_over5 = 0,
     p2_prev_ts = 0, p2_arrival = 0, p2_have_prev = False\<rparr>"

definition followed :: "u16 \<Rightarrow> u8 list \<Rightarrow> bool" where
  "followed locate m \<longleftrightarrow> book_type (m ! 0) \<and> locate_of m = locate"

text \<open>The arrival of a message: the time since the previous one in cycles, capped.\<close>

definition gap_cycles :: "u64 \<Rightarrow> u64 \<Rightarrow> u64 \<Rightarrow> u64" where
  "gap_cycles gap_cap prev ts =
     (let dt_ns = (if prev < ts then ts - prev else 0) in min (dt_ns * 165 div 512) gap_cap)"

definition model_push :: "replay_options \<Rightarrow> u8 list \<Rightarrow> pass2 \<Rightarrow> pass2" where
  "model_push opts m p =
     (if is_count (p2_stream p) < op_messages opts then
        let ts = timestamp_ns m;
            arrival = (if p2_have_prev p then p2_arrival p + gap_cycles (op_gap_cap opts) (p2_prev_ts p) ts
                       else p2_arrival p)
        in p\<lparr>p2_arrival := arrival, p2_prev_ts := ts, p2_have_prev := True,
             p2_stream := snd (replay_push m arrival (p2_stream p))\<rparr>
      else p)"

definition pass2_step :: "replay_options \<Rightarrow> u16 \<Rightarrow> u8 list \<Rightarrow> pass2 \<Rightarrow> pass2 option" where
  "pass2_step opts locate m p =
     (if \<not> followed locate m then Some p
      else do {
        (_, book) \<leftarrow> real_apply m (p2_book p);
        let p1 = p\<lparr>p2_book := book, p2_msgs := p2_msgs p + 1,
                   p2_bid_levels := p2_bid_levels p @ [of_nat (bid_levels book)],
                   p2_ask_levels := p2_ask_levels p @ [of_nat (ask_levels book)],
                   p2_orders := p2_orders p @ [of_nat (real_orders book)],
                   p2_over5 := (if levels < bid_levels book \<or> levels < ask_levels book then p2_over5 p + 1
                                else p2_over5 p)\<rparr>;
        Some (model_push opts m p1) })"

fun pass2_run :: "replay_options \<Rightarrow> u16 \<Rightarrow> u8 list list \<Rightarrow> pass2 \<Rightarrow> pass2 option" where
  "pass2_run opts locate [] p = Some p"
| "pass2_run opts locate (m # ms) p = do { p1 \<leftarrow> pass2_step opts locate m p; pass2_run opts locate ms p1 }"

subsection \<open>The report and the exit status\<close>

text \<open>\<open>print_series\<close>: minimum, median, 99th percentile and maximum. An empty series has no
  minimum to read.\<close>

definition series :: "u64 list \<Rightarrow> (u64 \<times> u64 \<times> u64 \<times> u64) option" where
  "series v =
     (if v = [] then None
      else do { med \<leftarrow> percentile v 50; p99 \<leftarrow> percentile v 99;
                Some (foldl min (hd v) (tl v), med, p99, foldl max (hd v) (tl v)) })"

definition replay_limit :: "itch_stream \<Rightarrow> u64 option" where
  "replay_limit st = map_option (\<lambda>m. sm_arrival m + 100000) (at (size_sub (is_count st) 1) (is_messages st))"

definition type_mix :: "itch_stream \<Rightarrow> (u8 \<times> nat) list" where
  "type_mix st = foldl (\<lambda>d i. std_bump (\<lambda>n. n + 1) 0 (sm_type (message st i)) d) [] [0..<is_count st]"

record replay_report =
  rr_pass1 :: pass1
  rr_peak_ms :: u64
  rr_locate :: u16
  rr_symbol :: string
  rr_series :: "(u64 \<times> u64 \<times> u64 \<times> u64) list"
  rr_pass2 :: pass2
  rr_cycles :: u64
  rr_completed :: nat
  rr_model_mix :: "(u8 \<times> nat) list"
  rr_lines :: "(u32 \<times> u64 \<times> u64) list"
  rr_rows :: "(nat \<times> nat \<times> u32) list"
  rr_dropped :: u64

text \<open>How a run ends, with the exit status of each.\<close>

datatype replay_end =
    Usage | Bad_Option | Not_Opened | Framing_Error nat | No_Symbol | No_Messages
  | Model_Stopped nat nat | Replayed replay_report

fun exit_status :: "replay_end \<Rightarrow> nat" where
  "exit_status Usage = 2"
| "exit_status Bad_Option = 2"
| "exit_status Not_Opened = 2"
| "exit_status (Replayed _) = 0"
| "exit_status _ = 1"

definition histogram_rows :: "u32 list \<Rightarrow> (nat \<times> nat \<times> u32) list" where
  "histogram_rows h = map (\<lambda>b. (b * 2, b * 2 + 1, h ! b)) (filter (\<lambda>b. h ! b \<noteq> 0) [0..<histogram_bins])"

text \<open>From the pipeline on: the drive loop and the statistics.\<close>

definition replay_model :: "pass1 \<Rightarrow> u16 \<Rightarrow> (u64 \<times> u64 \<times> u64 \<times> u64) list \<Rightarrow> pass2 \<Rightarrow> replay_end option" where
  "replay_model p1 locate ser p2 =
     (let st = p2_stream p2 in do {
        limit \<leftarrow> replay_limit st;
        (e, p) \<leftarrow> drive st limit (replay_engine st) (tick_new st);
        if \<not> tick_ok st p then Some (Model_Stopped (tt_completed p) (is_count st))
        else do {
          (t, scratch) \<leftarrow> pipeline_stats_with (replicate model_capacity 0) p;
          Some (Replayed
            \<lparr>rr_pass1 = p1, rr_peak_ms = peak_ms p1, rr_locate = locate, rr_symbol = symbol_of locate p1,
             rr_series = ser, rr_pass2 = p2, rr_cycles = en_cycle e, rr_completed = tt_completed p,
             rr_model_mix = type_mix st, rr_lines = map cycles_line [st_min t, st_median t, st_p99 t, st_max t],
             rr_rows = histogram_rows (st_histogram t), rr_dropped = ob_overflow (tt_book p)\<rparr>) } })"

definition replay_main :: "string list \<Rightarrow> u8 list \<Rightarrow> replay_end option" where
  "replay_main args data =
     (case parse_options args default_options of
        None \<Rightarrow> Some Bad_Option
      | Some opts \<Rightarrow>
          let (ms, w) = walk data walker_new; p1 = foldl pass1_step pass1_new ms in
          if wk_stop w = Bad_Framing then Some (Framing_Error (wk_offset w))
          else (case choose_stock (op_symbol opts) p1 of
              None \<Rightarrow> Some No_Symbol
            | Some locate \<Rightarrow> do {
                p2 \<leftarrow> pass2_run opts locate (fst (walk data walker_new)) pass2_new;
                if p2_msgs p2 = 0 then Some No_Messages
                else do {
                  bids \<leftarrow> series (p2_bid_levels p2);
                  asks \<leftarrow> series (p2_ask_levels p2);
                  orders \<leftarrow> series (p2_orders p2);
                  replay_model p1 locate [bids, asks, orders] p2 } }))"

text \<open>The whole program: \<open>argv\<close>, and the contents of the file, \<open>None\<close> if it cannot be opened or mapped.
  An empty file cannot be mapped: \<open>mmap\<close> fails for length 0.\<close>

definition replay_program :: "string list \<Rightarrow> u8 list option \<Rightarrow> replay_end option" where
  "replay_program argv file =
     (if length argv < 2 then Some Usage
      else (case parse_options (drop 2 argv) default_options of
          None \<Rightarrow> Some Bad_Option
        | Some _ \<Rightarrow> (case file of None \<Rightarrow> Some Not_Opened
            | Some data \<Rightarrow> if data = [] then Some Not_Opened else replay_main (drop 2 argv) data)))"

lemma replay_program_main: "data \<noteq> [] \<Longrightarrow> replay_program (prog # path # args) (Some data) = replay_main args data"
  by (simp add: replay_program_def replay_main_def split: option.split)

lemma replay_program_empty:
  "\<exists>r. replay_program (prog # path # args) (Some []) = Some r \<and> exit_status r = 2"
  by (simp add: replay_program_def split: option.split)

end
