(* ===== verification/Replay_Run.thy ===== *)
theory Replay_Run
  imports Replay_Tool
begin

text \<open>
  What the replay tool computes: the counts of pass 1 and the stock it chooses, the book and the
  stream of pass 2 with its arrival times, and how a run ends.
\<close>

subsection \<open>Pass 1\<close>

definition is_add :: "u8 list \<Rightarrow> bool" where
  "is_add m \<longleftrightarrow> m ! 0 = ascii CHR ''A'' \<or> m ! 0 = ascii CHR ''F''"

lemma pass1_counts:
  "p1_mix (foldl pass1_step p ms) = foldl (count_step (\<lambda>m. True) (\<lambda>m. m ! 0)) (p1_mix p) ms"
  "p1_adds (foldl pass1_step p ms) = foldl (count_step is_add locate_of) (p1_adds p) ms"
  "p1_per_ms (foldl pass1_step p ms) = foldl (count_step (\<lambda>m. True) (\<lambda>m. timestamp_ns m div 1000000)) (p1_per_ms p) ms"
  "p1_total (foldl pass1_step p ms) = p1_total p + of_nat (length ms)"
  by (induction ms arbitrary: p) (simp_all add: pass1_step_def count_step_def is_add_def Let_def)

lemma pass1_directory:
  "std_ok (p1_directory p) \<Longrightarrow> std_ok (p1_directory (foldl pass1_step p ms))
   \<and> map_of (p1_directory (foldl pass1_step p ms)) l
     = (case filter (\<lambda>m. m ! 0 = ascii CHR ''R'' \<and> locate_of m = l) ms of
          [] \<Rightarrow> map_of (p1_directory p) l | x # xs \<Rightarrow> Some (stock_of (last (x # xs))))"
proof (induction ms arbitrary: p)
  case (Cons m ms)
  have ok: "std_ok (p1_directory (pass1_step p m))"
    using Cons.prems by (simp add: pass1_step_def Let_def std.ok_put)
  have "map_of (p1_directory (pass1_step p m)) l = (if m ! 0 = ascii CHR ''R'' \<and> locate_of m = l
      then Some (stock_of m) else map_of (p1_directory p) l)"
    using std.get_put [OF Cons.prems] by (simp add: pass1_step_def Let_def)
  with Cons.IH [OF ok] show ?case by (auto split: list.splits)
qed simp

text \<open>The choice: the first of the largest counts.\<close>

definition busier :: "u16 \<times> u64 \<Rightarrow> u16 \<times> u64 \<Rightarrow> u16 \<times> u64" where
  "busier a x = (if snd a < snd x then x else a)"

lemma busiest_busier: "busiest adds = fst (foldl busier (0, 0) adds)"
proof -
  have "(\<lambda>(locate, best) (l, n). if best < n then (l, n) else (locate, best)) = busier"
    by (auto simp: fun_eq_iff busier_def)
  then show ?thesis by (simp only: busiest_def)
qed

definition picked :: "u16 \<times> u64 \<Rightarrow> (u16 \<times> u64) list \<Rightarrow> u16 \<times> u64 \<Rightarrow> bool" where
  "picked a xs r \<longleftrightarrow> snd a \<le> snd r \<and> (\<forall>x \<in> set xs. snd x \<le> snd r)
     \<and> (r = a \<or> snd a < snd r \<and> r \<in> set xs) \<and> (\<forall>x \<in> set xs. snd x = snd r \<longrightarrow> fst r \<le> fst x)"

lemma picked_Cons:
  assumes "picked (busier a x) xs r" "fst a \<le> fst x"
  shows "picked a (x # xs) r"
proof (cases "snd a < snd x")
  case True
  with assms show ?thesis by (auto simp: busier_def picked_def)
next
  case False
  with assms show ?thesis by (auto simp: busier_def picked_def not_less)
qed

lemma picked_fold:
  "std_ok xs \<Longrightarrow> \<forall>x \<in> set xs. fst a \<le> fst x \<Longrightarrow> picked a xs (foldl busier a xs)"
proof (induction xs arbitrary: a)
  case (Cons x xs)
  have "\<forall>y \<in> set xs. fst (busier a x) \<le> fst y"
    using Cons.prems by (cases x) (auto simp: std_ok_Cons busier_def intro: less_imp_le)
  moreover have "std_ok xs" "fst a \<le> fst x" using Cons.prems by (simp_all add: std_ok_def)
  ultimately show ?case using picked_Cons [OF Cons.IH [of "busier a x"]] by simp
qed (simp add: picked_def)

lemma busiest_max:
  assumes "std_ok adds"
  shows "\<exists>best. (\<forall>l n. map_of adds l = Some n \<longrightarrow> n \<le> best \<and> (n = best \<longrightarrow> busiest adds \<le> l))
    \<and> (best = 0 \<or> map_of adds (busiest adds) = Some best)"
proof -
  define r where "r = foldl busier (0, 0) adds"
  have r: "picked (0, 0) adds r" unfolding r_def by (rule picked_fold [OF assms]) simp
  have b: "busiest adds = fst r" by (simp add: busiest_busier r_def)
  have member: "map_of adds l = Some n \<longleftrightarrow> (l, n) \<in> set adds" for l n
    using std_ok_distinct [OF assms] by simp
  show ?thesis unfolding member b
    by (rule exI [of _ "snd r"]) (use r in \<open>auto simp: picked_def\<close>)
qed

text \<open>
  C25. Pass 1 counts exactly: the number of messages, of each type, of the add orders of each
  stock and of each millisecond are those of the file, and the directory gives each stock the
  symbol of its last directory message. Without a wanted symbol the tool follows a stock with the
  largest number of add orders, the one with the smallest locate code among equals.
\<close>

theorem replay_stock_choice:
  assumes "length ms < 2 ^ 64"
  shows "let p = foldl pass1_step pass1_new ms; adds = tally is_add locate_of ms; l = busiest (p1_adds p) in
    unat (p1_total p) = length ms
    \<and> (\<forall>t. map_of (p1_mix p) t = (let n = tally (\<lambda>m. True) (\<lambda>m. m ! 0) ms t in
         if n = 0 then None else Some (of_nat n)))
    \<and> (\<forall>b. map_of (p1_per_ms p) b = (let n = tally (\<lambda>m. True) (\<lambda>m. timestamp_ns m div 1000000) ms b in
         if n = 0 then None else Some (of_nat n)))
    \<and> (\<forall>k. map_of (p1_directory p) k = (case filter (\<lambda>m. m ! 0 = ascii CHR ''R'' \<and> locate_of m = k) ms of
          [] \<Rightarrow> None | x # xs \<Rightarrow> Some (stock_of (last (x # xs)))))
    \<and> choose_stock [] p = Some l
    \<and> (\<forall>k. adds k \<le> adds l \<and> (adds k = adds l \<and> 0 < adds k \<longrightarrow> l \<le> k))"
proof -
  define p where "p = foldl pass1_step pass1_new ms"
  define adds where "adds = tally is_add locate_of ms"
  have less: "adds k < 2 ^ 64" for k
    using order_le_less_trans [OF length_filter_le [of "\<lambda>m. is_add m \<and> locate_of m = k" ms] assms]
    by (simp only: adds_def tally_def)
  have p1: "p1_adds p = foldl (count_step is_add locate_of) [] ms"
    by (simp add: p_def pass1_counts pass1_new_def)
  then have at: "map_of (p1_adds p) k = (if adds k = 0 then None else Some (of_nat (adds k)))" for k
    by (simp add: counted adds_def Let_def)
  have "std_ok (p1_adds p)" unfolding p1 by (rule counted_ok)
  from busiest_max [OF this] obtain best where
    best: "\<And>k n. map_of (p1_adds p) k = Some n \<Longrightarrow> n \<le> best \<and> (n = best \<longrightarrow> busiest (p1_adds p) \<le> k)"
    and hit: "best = 0 \<or> map_of (p1_adds p) (busiest (p1_adds p)) = Some best" by blast
  have unat: "unat (of_nat (adds k) :: u64) = adds k" for k using less [of k] by (simp add: unat_of_nat)
  have "adds k \<le> adds (busiest (p1_adds p)) \<and> (adds k = adds (busiest (p1_adds p)) \<and> 0 < adds k \<longrightarrow> busiest (p1_adds p) \<le> k)"
    for k
  proof (cases "adds k = 0")
    case False
    then have k: "map_of (p1_adds p) k = Some (of_nat (adds k))" by (simp add: at)
    then have "adds k \<le> unat best" using best [OF k] unat [of k] by (simp add: word_le_nat_alt)
    then have "best \<noteq> 0" using False by auto
    with hit have "best = of_nat (adds (busiest (p1_adds p)))" by (auto simp: at split: if_splits)
    with unat have eq: "unat best = adds (busiest (p1_adds p))" by simp
    moreover have "adds k = adds (busiest (p1_adds p)) \<longrightarrow> (of_nat (adds k) :: u64) = best"
      using \<open>best = of_nat (adds (busiest (p1_adds p)))\<close> by simp
    ultimately show ?thesis using best [OF k] \<open>adds k \<le> unat best\<close> by auto
  qed simp
  moreover have "unat (p1_total p) = length ms"
    using assms by (simp add: p_def pass1_counts pass1_new_def unat_of_nat)
  moreover have "map_of (p1_directory p) k = (case filter (\<lambda>m. m ! 0 = ascii CHR ''R'' \<and> locate_of m = k) ms of
          [] \<Rightarrow> None | x # xs \<Rightarrow> Some (stock_of (last (x # xs))))" for k
    using pass1_directory [of pass1_new ms k] by (simp add: p_def pass1_new_def split: list.split)
  ultimately show ?thesis
    by (simp add: p_def [symmetric] adds_def [symmetric] choose_stock_def Let_def)
      (simp add: p_def pass1_counts pass1_new_def counted Let_def)
qed

theorem replay_stock_choice_witness:
  "\<exists>l. choose_stock [] (foldl pass1_step pass1_new [ascii CHR ''A'' # 0 # 3 # replicate 33 0]) = Some l
    \<and> tally is_add locate_of [ascii CHR ''A'' # 0 # 3 # replicate 33 0] 3
        \<le> tally is_add locate_of [ascii CHR ''A'' # 0 # 3 # replicate 33 0] l"
  using replay_stock_choice [of "[ascii CHR ''A'' # 0 # 3 # replicate 33 0]"] by (simp only: Let_def) simp

subsection \<open>The full-depth book stays in range\<close>

text \<open>After \<open>k\<close> messages a level holds at most \<open>k * 2 ^ 32\<close> shares.\<close>

definition level_ok :: "nat \<Rightarrow> real_side \<Rightarrow> bool" where
  "level_ok k s \<longleftrightarrow> std_ok s \<and> (\<forall>p x. map_of s p = Some x \<longrightarrow> 0 \<le> x \<and> x \<le> int k * 2 ^ 32)"

definition real_ok :: "nat \<Rightarrow> real_book \<Rightarrow> bool" where
  "real_ok k b \<longleftrightarrow> (\<forall>bid. level_ok k (fb_side bid b)) \<and> std_ok (fb_orders b)
     \<and> (\<forall>r o1. map_of (fb_orders b) r = Some o1 \<longrightarrow> 0 \<le> ro_shares o1 \<and> ro_shares o1 < 2 ^ 32)"

lemma level_ok_Suc: "level_ok k s \<Longrightarrow> level_ok (Suc k) s"
  by (fastforce simp: level_ok_def algebra_simps)

lemma level_add_ok:
  assumes "level_ok k s" "0 \<le> n" "n < 2 ^ 32" "k < 2 ^ 30"
  shows "\<exists>s'. level_add p n s = Some s' \<and> level_ok (Suc k) s'"
proof -
  have ok: "std_ok s" and range: "\<And>p x. map_of s p = Some x \<Longrightarrow> 0 \<le> x \<and> x \<le> int k * 2 ^ 32"
    using assms(1) by (auto simp: level_ok_def)
  define m where "m = (case map_of s p of None \<Rightarrow> 0 | Some m \<Rightarrow> m)"
  have m: "0 \<le> m" "m \<le> int k * 2 ^ 32" using range by (auto simp: m_def split: option.splits)
  then have "0 \<le> m + n" "m + n \<le> int (Suc k) * 2 ^ 32" "fits_i64 (m + n)"
    using assms(2-4) by (simp_all add: fits_i64_def algebra_simps)
  moreover from this have "level_add p n s = Some (std_set p (m + n) s)"
    by (auto simp: level_add_def i64_checked_def m_def split: option.splits)
  moreover have "x \<le> int (Suc k) * 2 ^ 32" if "map_of s q = Some x" for q x
    using range [OF that] by (simp add: algebra_simps)
  ultimately show ?thesis
    using range by (auto simp: level_ok_def std.ok_put [OF ok] std.get_put [OF ok])
qed

lemma level_take_ok:
  assumes "level_ok k s" "0 \<le> n" "n \<le> 2 ^ 32" "k < 2 ^ 30"
  shows "\<exists>s'. level_take p n s = Some s' \<and> level_ok k s'"
proof (cases "map_of s p")
  case None
  with assms(1) show ?thesis by (simp add: level_take_def)
next
  case (Some m)
  have ok: "std_ok s" and range: "\<And>p x. map_of s p = Some x \<Longrightarrow> 0 \<le> x \<and> x \<le> int k * 2 ^ 32"
    using assms(1) by (auto simp: level_ok_def)
  have "fits_i64 (m - n)" using range [OF Some] assms(2-4) by (simp add: fits_i64_def)
  then have "level_take p n s = Some (if m - n \<le> 0 then std_erase p s else std_set p (m - n) s)"
    using Some by (simp add: level_take_def i64_checked_def)
  moreover have "level_ok k (if m - n \<le> 0 then std_erase p s else std_set p (m - n) s)"
    using range [OF Some] range assms(2)
    by (auto simp: level_ok_def std.ok_put [OF ok] std.get_put [OF ok] std.ok_erase [OF ok] std.get_erase [OF ok])
  ultimately show ?thesis by blast
qed

lemma real_add_ok:
  assumes "real_ok k b" "0 \<le> n" "n < 2 ^ 32" "k < 2 ^ 30"
  shows "\<exists>b'. real_add r bid p n b = Some b' \<and> real_ok (Suc k) b'"
proof -
  have b: "\<And>bid. level_ok k (fb_side bid b)" "std_ok (fb_orders b)"
    "\<And>r o1. map_of (fb_orders b) r = Some o1 \<Longrightarrow> 0 \<le> ro_shares o1 \<and> ro_shares o1 < 2 ^ 32"
    using assms(1) by (auto simp: real_ok_def)
  from level_add_ok [OF b(1) assms(2-4)] obtain s' where
    "level_add p n (fb_side bid b) = Some s'" "level_ok (Suc k) s'" by blast
  then show ?thesis using b assms(2,3)
    by (auto simp: real_add_def real_ok_def Let_def level_ok_Suc std.ok_put std.get_put)
qed

lemma real_take_ok:
  assumes "real_ok k b" "0 \<le> n" "n \<le> 2 ^ 32" "k < 2 ^ 30"
  shows "\<exists>b'. real_take o1 n b = Some b' \<and> real_ok k b' \<and> fb_orders b' = fb_orders b"
proof -
  have b: "\<And>bid. level_ok k (fb_side bid b)" using assms(1) by (auto simp: real_ok_def)
  from level_take_ok [OF b assms(2-4)] obtain s' where
    "level_take (ro_price o1) n (fb_side (ro_bid o1) b) = Some s'" "level_ok k s'" by blast
  then show ?thesis using assms(1) by (auto simp: real_take_def real_ok_def)
qed

lemma real_orders_ok:
  assumes "real_ok k b" "std_ok os" "\<And>r o1. map_of os r = Some o1 \<Longrightarrow> 0 \<le> ro_shares o1 \<and> ro_shares o1 < 2 ^ 32"
  shows "real_ok k (b\<lparr>fb_orders := os\<rparr>)"
  using assms by (simp add: real_ok_def)

lemma real_unknown_ok: "real_ok k (real_unknown b) = real_ok k b"
  by (simp add: real_ok_def real_unknown_def fb_side_def)

lemma real_ok_Suc: "real_ok k b \<Longrightarrow> real_ok (Suc k) b"
  by (simp add: real_ok_def level_ok_Suc)

lemma real_reduce_ok:
  assumes "real_ok k b" "0 \<le> n" "n < 2 ^ 32" "k < 2 ^ 30"
  shows "\<exists>b'. real_reduce r n b = Some b' \<and> real_ok k b'"
proof (cases "map_of (fb_orders b) r")
  case None
  with assms(1) show ?thesis by (simp add: real_reduce_def real_unknown_ok)
next
  case (Some o1)
  have ok: "std_ok (fb_orders b)" and range: "\<And>r o1. map_of (fb_orders b) r = Some o1 \<Longrightarrow> 0 \<le> ro_shares o1 \<and> ro_shares o1 < 2 ^ 32"
    using assms(1) by (auto simp: real_ok_def)
  define a where "a = min n (ro_shares o1)"
  have a: "0 \<le> a" "a \<le> 2 ^ 32" "a \<le> ro_shares o1" using assms(2,3) range [OF Some] by (auto simp: a_def)
  from real_take_ok [OF assms(1) a(1,2) assms(4)] obtain b1 where
    b1: "real_take o1 a b = Some b1" "real_ok k b1" "fb_orders b1 = fb_orders b" by blast
  have "fits_i64 (ro_shares o1 - a)" using a range [OF Some] by (simp add: fits_i64_def)
  then have "real_reduce r n b = Some (b1\<lparr>fb_orders := (if ro_shares o1 - a \<le> 0 then std_erase r (fb_orders b1)
      else std_set r (o1\<lparr>ro_shares := ro_shares o1 - a\<rparr>) (fb_orders b1))\<rparr>)"
    using Some b1(1) by (simp add: real_reduce_def a_def [symmetric] i64_checked_def Let_def)
  moreover have "real_ok k (b1\<lparr>fb_orders := (if ro_shares o1 - a \<le> 0 then std_erase r (fb_orders b1)
      else std_set r (o1\<lparr>ro_shares := ro_shares o1 - a\<rparr>) (fb_orders b1))\<rparr>)"
    by (rule real_orders_ok [OF b1(2)]) (use ok range range [OF Some] a in \<open>auto simp: b1(3) std.ok_put
      std.get_put std.ok_erase std.get_erase split: if_splits\<close>)
  ultimately show ?thesis by blast
qed

lemma real_remove_ok:
  assumes "real_ok k b" "k < 2 ^ 30"
  shows "\<exists>b'. real_remove r b = Some b' \<and> real_ok k b'"
proof (cases "map_of (fb_orders b) r")
  case None
  with assms(1) show ?thesis by (simp add: real_remove_def real_unknown_ok)
next
  case (Some o1)
  have ok: "std_ok (fb_orders b)" and range: "\<And>r o1. map_of (fb_orders b) r = Some o1 \<Longrightarrow> 0 \<le> ro_shares o1 \<and> ro_shares o1 < 2 ^ 32"
    using assms(1) by (auto simp: real_ok_def)
  have a: "0 \<le> ro_shares o1" "ro_shares o1 \<le> 2 ^ 32" using range [OF Some] by auto
  from real_take_ok [OF assms(1) a assms(2)] obtain b1 where
    b1: "real_take o1 (ro_shares o1) b = Some b1" "real_ok k b1" "fb_orders b1 = fb_orders b" by blast
  have "real_ok k (b1\<lparr>fb_orders := std_erase r (fb_orders b1)\<rparr>)"
    by (rule real_orders_ok [OF b1(2)]) (use ok range in \<open>auto simp: b1(3) std.ok_erase std.get_erase split: if_splits\<close>)
  then show ?thesis using Some b1(1) by (simp add: real_remove_def)
qed

lemma real_apply_ok:
  assumes "real_ok k b" "k < 2 ^ 30"
  shows "\<exists>changed b'. real_apply m b = Some (changed, b') \<and> real_ok (Suc k) b'"
proof -
  have n: "0 \<le> sint (be p 4)" "sint (be p 4) < 2 ^ 32" for p
    using uint_lt2p [of "u32be p"] by (simp_all add: be_4)
  consider (add) "m ! 0 = ascii CHR ''A'' \<or> m ! 0 = ascii CHR ''F''"
    | (reduce) "m ! 0 = ascii CHR ''E'' \<or> m ! 0 = ascii CHR ''C'' \<or> m ! 0 = ascii CHR ''X''"
    | (delete) "m ! 0 = ascii CHR ''D''" | (replace) "m ! 0 = ascii CHR ''U''"
    | (other) "\<not> book_type (m ! 0)"
    by (auto simp: book_type_def)
  then show ?thesis
  proof cases
    case add
    from real_add_ok [OF assms(1) n assms(2)] obtain b' where "real_add (be (drop 11 m) 8)
        (m ! 19 = ascii CHR ''B'') (sint (be (drop 32 m) 4)) (sint (be (drop 20 m) 4)) b = Some b'" "real_ok (Suc k) b'"
      by blast
    with add show ?thesis by (auto simp: real_apply_def Let_def)
  next
    case reduce
    from real_reduce_ok [OF assms(1) n assms(2)] obtain b' where
      "real_reduce (be (drop 11 m) 8) (sint (be (drop 19 m) 4)) b = Some b'" "real_ok k b'" by blast
    with reduce show ?thesis by (auto simp: real_apply_def Let_def dest: real_ok_Suc)
  next
    case delete
    from real_remove_ok [OF assms] obtain b' where "real_remove (be (drop 11 m) 8) b = Some b'" "real_ok k b'"
      by blast
    with delete show ?thesis by (auto simp: real_apply_def Let_def dest: real_ok_Suc)
  next
    case other
    with real_ok_Suc [OF assms(1)] show ?thesis by (auto simp: real_apply_def book_type_def Let_def)
  next
    case replace
    show ?thesis
    proof (cases "map_of (fb_orders b) (be (drop 11 m) 8)")
      case None
      with replace real_ok_Suc [OF assms(1)] show ?thesis by (auto simp: real_apply_def Let_def real_unknown_ok)
    next
      case (Some o1)
      from real_remove_ok [OF assms] obtain b1 where b1: "real_remove (be (drop 11 m) 8) b = Some b1" "real_ok k b1"
        by blast
      from real_add_ok [OF b1(2) n assms(2)] obtain b2 where "real_add (be (drop 19 m) 8) (ro_bid o1)
          (sint (be (drop 31 m) 4)) (sint (be (drop 27 m) 4)) b1 = Some b2" "real_ok (Suc k) b2" by blast
      with replace Some b1(1) show ?thesis by (auto simp: real_apply_def Let_def)
    qed
  qed
qed

lemma real_run_append:
  "real_run (xs @ ys) b = do { b1 \<leftarrow> real_run xs b; real_run ys b1 }"
  by (induction xs arbitrary: b) (auto split: bind_splits)

subsection \<open>Arrival times\<close>

fun arrival_at :: "u64 \<Rightarrow> u8 list list \<Rightarrow> nat \<Rightarrow> nat" where
  "arrival_at cap sel 0 = 0"
| "arrival_at cap sel (Suc k) = arrival_at cap sel k
     + min ((unat (timestamp_ns (sel ! Suc k)) - unat (timestamp_ns (sel ! k))) * 165 div 512) (unat cap)"

lemma be_bits: "bit (be p n) k \<Longrightarrow> k < 8 * n"
proof (induction n arbitrary: k)
  case (Suc n)
  have "be p (Suc n) = push_bit 8 (be p n) OR ucast (p ! n)" by (simp add: be_def)
  with Suc show ?case by (fastforce simp: bit_simps dest: bit_imp_le_length)
qed (simp add: be_def)

lemma timestamp_less: "unat (timestamp_ns m) < 2 ^ 48"
proof -
  define w where "w = timestamp_ns m"
  have "take_bit 48 w = w"
    by (rule bit_word_eqI) (auto simp: bit_simps w_def timestamp_ns_def dest: be_bits)
  then have "unat w = take_bit 48 (unat w)" by (metis unsigned_take_bit_eq)
  then show ?thesis unfolding w_def [symmetric] by (metis take_bit_nat_less_exp)
qed

lemma gap_value:
  assumes "unat ts < 2 ^ 48"
  shows "unat (gap_cycles cap prev ts) = min ((unat ts - unat prev) * 165 div 512) (unat cap)"
proof -
  define dt where "dt = (if prev < ts then ts - prev else 0)"
  have dt: "unat dt = unat ts - unat prev"
    by (auto simp: dt_def word_less_nat_alt unat_sub_if')
  then have "unat dt * 165 < 2 ^ 64" using assms by simp
  then have "unat (dt * 165) = unat dt * 165" using unat_mult_lem [of dt 165] by simp
  then have "unat (dt * 165 div 512) = (unat ts - unat prev) * 165 div 512" by (simp add: unat_div dt)
  then show ?thesis by (simp add: gap_cycles_def dt_def [symmetric] Let_def min_def word_le_nat_alt)
qed

lemma arrival_bound: "arrival_at cap sel k \<le> k * 2 ^ 47"
proof (induction k)
  case (Suc k)
  have "(unat (timestamp_ns (sel ! Suc k)) - unat (timestamp_ns (sel ! k))) * 165 div 512 \<le> 2 ^ 47"
    using timestamp_less [of "sel ! Suc k"] by simp
  then have "min ((unat (timestamp_ns (sel ! Suc k)) - unat (timestamp_ns (sel ! k))) * 165 div 512) (unat cap) \<le> 2 ^ 47"
    by (simp only: min.coboundedI1)
  with Suc show ?case by simp
qed simp

lemma arrival_at_append: "k < length sel \<Longrightarrow> arrival_at cap (sel @ ms) k = arrival_at cap sel k"
  by (induction k) (simp_all add: nth_append)

subsection \<open>Pass 2\<close>

definition book_at :: "u8 list list \<Rightarrow> nat \<Rightarrow> real_book" where
  "book_at sel k = the (real_run (take (Suc k) sel) real_new)"

definition deep :: "real_book \<Rightarrow> bool" where
  "deep b \<longleftrightarrow> levels < bid_levels b \<or> levels < ask_levels b"

definition pass2_inv :: "replay_options \<Rightarrow> u8 list list \<Rightarrow> pass2 \<Rightarrow> bool" where
  "pass2_inv opts sel p \<longleftrightarrow> real_run sel real_new = Some (p2_book p) \<and> real_ok (length sel) (p2_book p)
     \<and> p2_msgs p = of_nat (length sel)
     \<and> p2_bid_levels p = map (\<lambda>k. of_nat (bid_levels (book_at sel k))) [0..<length sel]
     \<and> p2_ask_levels p = map (\<lambda>k. of_nat (ask_levels (book_at sel k))) [0..<length sel]
     \<and> p2_orders p = map (\<lambda>k. of_nat (real_orders (book_at sel k))) [0..<length sel]
     \<and> p2_over5 p = of_nat (length (filter (\<lambda>k. deep (book_at sel k)) [0..<length sel]))"

definition stream_inv :: "replay_options \<Rightarrow> u8 list list \<Rightarrow> pass2 \<Rightarrow> bool" where
  "stream_inv opts sel p \<longleftrightarrow> (let n = min (op_messages opts) (length sel) in
     replay_inv (p2_stream p) \<and> is_capacity (p2_stream p) = model_capacity
     \<and> is_order_capacity (p2_stream p) = replay_order_capacity \<and> is_empty_ask (p2_stream p) = max_i32
     \<and> replay_contents (p2_stream p) = map (\<lambda>k. (sel ! k, of_nat (arrival_at (op_gap_cap opts) sel k))) [0..<n]
     \<and> p2_have_prev p = (0 < n)
     \<and> p2_arrival p = (if n = 0 then 0 else of_nat (arrival_at (op_gap_cap opts) sel (n - 1)))
     \<and> (0 < n \<longrightarrow> p2_prev_ts p = timestamp_ns (sel ! (n - 1))))"

lemma followed_wf:
  assumes "followed locate m" "spec_message m"
  shows "wf_message m" "replayable (m, a)"
proof -
  have "length_for (m ! 0) \<noteq> 0" using assms(1) by (auto simp: followed_def book_type_def length_for_def)
  with spec_length_for [OF this] assms(2) length_for_le [of "m ! 0"]
  show "wf_message m" "replayable (m, a)"
    by (auto simp: wf_message_def spec_message_def replayable_def)
qed

lemma book_at_append: "k < length sel \<Longrightarrow> book_at (sel @ ms) k = book_at sel k"
  by (simp add: book_at_def)

lemma model_push_fields:
  "p2_book (model_push opts m p) = p2_book p" "p2_msgs (model_push opts m p) = p2_msgs p"
  "p2_bid_levels (model_push opts m p) = p2_bid_levels p" "p2_ask_levels (model_push opts m p) = p2_ask_levels p"
  "p2_orders (model_push opts m p) = p2_orders p" "p2_over5 (model_push opts m p) = p2_over5 p"
  by (simp_all add: model_push_def Let_def)

lemma stream_inv_push:
  assumes inv: "stream_inv opts sel p" and m: "replayable (m, 0)" and cap: "op_messages opts \<le> model_capacity"
  shows "stream_inv opts (sel @ [m]) (model_push opts m p)"
proof -
  define n where "n = min (op_messages opts) (length sel)"
  define st where "st = p2_stream p"
  have st: "replay_inv st" "is_capacity st = model_capacity" "is_order_capacity st = replay_order_capacity"
    "is_empty_ask st = max_i32"
    "replay_contents st = map (\<lambda>k. (sel ! k, of_nat (arrival_at (op_gap_cap opts) sel k))) [0..<n]"
    and have_prev: "p2_have_prev p = (0 < n)"
    and arr: "p2_arrival p = (if n = 0 then 0 else of_nat (arrival_at (op_gap_cap opts) sel (n - 1)))"
    and prev: "0 < n \<Longrightarrow> p2_prev_ts p = timestamp_ns (sel ! (n - 1))"
    using inv by (auto simp: stream_inv_def Let_def n_def st_def)
  have n_count: "is_count st = n" using arg_cong [OF st(5), of length] by simp
  have old: "(\<lambda>k. ((sel @ [m]) ! k, of_nat (arrival_at (op_gap_cap opts) (sel @ [m]) k) :: u64)) k
      = (sel ! k, of_nat (arrival_at (op_gap_cap opts) sel k))" if "k < n" for k
    using that by (simp add: n_def nth_append arrival_at_append)
  show ?thesis
  proof (cases "n < op_messages opts")
    case False
    then have "op_messages opts \<le> length sel" "n = op_messages opts" by (auto simp: n_def)
    then have "model_push opts m p = p" "min (op_messages opts) (length (sel @ [m])) = n"
      using n_count by (simp_all add: model_push_def st_def)
    then show ?thesis unfolding stream_inv_def Let_def using st have_prev arr prev old
      by (auto simp: st_def)
  next
    case True
    then have n: "n = length sel" "min (op_messages opts) (length (sel @ [m])) = Suc n" "n < model_capacity"
      using cap by (auto simp: n_def)
    define a where "a = (if 0 < n then p2_arrival p + gap_cycles (op_gap_cap opts) (p2_prev_ts p) (timestamp_ns m)
      else p2_arrival p)"
    have a: "a = of_nat (arrival_at (op_gap_cap opts) (sel @ [m]) n)"
    proof (cases n)
      case 0
      then show ?thesis by (simp add: a_def arr)
    next
      case (Suc j)
      have "gap_cycles (op_gap_cap opts) (timestamp_ns (sel ! j)) (timestamp_ns m)
          = of_nat (min ((unat (timestamp_ns m) - unat (timestamp_ns (sel ! j))) * 165 div 512) (unat (op_gap_cap opts)))"
        unfolding gap_value [OF timestamp_less, symmetric] by simp
      with Suc arr prev n(1) show ?thesis by (simp add: a_def nth_append arrival_at_append)
    qed
    have "replayable (m, a)" using m by (simp add: replayable_def)
    with replay_push_accepted [OF st(1), of m a] n_count st(2) n(3) obtain st' where
      st': "replay_push m a st = (True, st')" "replay_inv st'" "is_capacity st' = is_capacity st"
        "replay_contents st' = replay_contents st @ [(m, a)]" by auto
    have "is_order_capacity st' = is_order_capacity st" "is_empty_ask st' = is_empty_ask st"
      using st'(1) by (auto simp: replay_push_def Let_def split: if_splits)
    moreover have "model_push opts m p = p\<lparr>p2_arrival := a, p2_prev_ts := timestamp_ns m, p2_have_prev := True,
        p2_stream := st'\<rparr>"
      using True n_count st'(1) by (simp add: model_push_def Let_def a_def have_prev st_def)
    ultimately show ?thesis unfolding stream_inv_def Let_def n(2)
      using st st' old a n(1) by (simp add: nth_append)
  qed
qed

lemma pass2_inv_step:
  assumes inv: "pass2_inv opts sel p" and str: "stream_inv opts sel p" and m: "followed locate m" "spec_message m"
    and len: "length sel < 2 ^ 30" and cap: "op_messages opts \<le> model_capacity"
  shows "\<exists>p'. pass2_step opts locate m p = Some p' \<and> pass2_inv opts (sel @ [m]) p' \<and> stream_inv opts (sel @ [m]) p'"
proof -
  have p: "real_run sel real_new = Some (p2_book p)" "real_ok (length sel) (p2_book p)"
    using inv by (auto simp: pass2_inv_def)
  from real_apply_ok [OF p(2) len] obtain c b' where
    b': "real_apply m (p2_book p) = Some (c, b')" "real_ok (Suc (length sel)) b'" by blast
  define p1 where "p1 = p\<lparr>p2_book := b', p2_msgs := p2_msgs p + 1,
                   p2_bid_levels := p2_bid_levels p @ [of_nat (bid_levels b')],
                   p2_ask_levels := p2_ask_levels p @ [of_nat (ask_levels b')],
                   p2_orders := p2_orders p @ [of_nat (real_orders b')],
                   p2_over5 := (if levels < bid_levels b' \<or> levels < ask_levels b' then p2_over5 p + 1
                                else p2_over5 p)\<rparr>"
  have step: "pass2_step opts locate m p = Some (model_push opts m p1)"
    using m(1) b'(1) by (simp add: pass2_step_def p1_def Let_def)
  have run: "real_run (sel @ [m]) real_new = Some b'" using p(1) b'(1) by (simp add: real_run_append)
  then have last_book: "book_at (sel @ [m]) (length sel) = b'" by (simp add: book_at_def)
  have series: "map (\<lambda>k. f (book_at (sel @ [m]) k)) [0..<length (sel @ [m])]
      = map (\<lambda>k. f (book_at sel k)) [0..<length sel] @ [f b']" for f :: "real_book \<Rightarrow> u64"
    by (auto simp: book_at_append last_book)
  note series = series [of "\<lambda>b. of_nat (bid_levels b)"] series [of "\<lambda>b. of_nat (ask_levels b)"]
    series [of "\<lambda>b. of_nat (real_orders b)"]
  have "filter (\<lambda>k. deep (book_at (sel @ [m]) k)) [0..<length sel] = filter (\<lambda>k. deep (book_at sel k)) [0..<length sel]"
    by (rule filter_cong) (simp_all add: book_at_append)
  then have over: "(of_nat (length (filter (\<lambda>k. deep (book_at (sel @ [m]) k)) [0..<length (sel @ [m])])) :: u64)
      = (if deep b' then of_nat (length (filter (\<lambda>k. deep (book_at sel k)) [0..<length sel])) + 1
         else of_nat (length (filter (\<lambda>k. deep (book_at sel k)) [0..<length sel])))"
    by (simp add: last_book)
  have "pass2_inv opts (sel @ [m]) (model_push opts m p1)"
    using inv run b'(2) unfolding pass2_inv_def model_push_fields series over
    by (simp add: p1_def deep_def [symmetric])
  moreover have "stream_inv opts sel p1" using str by (simp add: stream_inv_def p1_def)
  then have "stream_inv opts (sel @ [m]) (model_push opts m p1)"
    by (rule stream_inv_push [OF _ followed_wf(2) [OF m] cap])
  ultimately show ?thesis using step by blast
qed

lemma pass2_run_inv:
  assumes "op_messages opts \<le> model_capacity" "\<forall>m \<in> set ms. spec_message m"
  shows "pass2_inv opts sel p \<Longrightarrow> stream_inv opts sel p \<Longrightarrow> length sel + length ms \<le> 2 ^ 30 \<Longrightarrow>
    \<exists>p'. pass2_run opts locate ms p = Some p' \<and> pass2_inv opts (sel @ filter (followed locate) ms) p'
      \<and> stream_inv opts (sel @ filter (followed locate) ms) p'"
  using assms(2)
proof (induction ms arbitrary: sel p)
  case (Cons m ms)
  show ?case
  proof (cases "followed locate m")
    case False
    with Cons.IH [of sel p] Cons.prems show ?thesis by (simp add: pass2_step_def)
  next
    case True
    from pass2_inv_step [OF Cons.prems(1,2) True _ _ assms(1)] Cons.prems(3,4) obtain p1 where
      p1: "pass2_step opts locate m p = Some p1" "pass2_inv opts (sel @ [m]) p1" "stream_inv opts (sel @ [m]) p1"
      by auto
    have "length (sel @ [m]) + length ms \<le> 2 ^ 30" using Cons.prems(3) by simp
    from Cons.IH [OF p1(2,3) this] Cons.prems(4) p1(1) True show ?thesis by simp
  qed
qed simp

lemma pass2_new_inv: "pass2_inv opts [] pass2_new" "stream_inv opts [] pass2_new"
  by (simp_all add: pass2_inv_def pass2_new_def real_ok_def level_ok_def real_new_def fb_side_def
      stream_inv_def replay_new_inv) (simp add: replay_new_def)

lemma spec_length_least: "spec_length t \<in> insert 0 {12..}"
  by (simp add: spec_length_def)

lemma frames_length: "\<forall>m \<in> set ms. spec_message m \<Longrightarrow> 14 * length ms \<le> length (concat (map frame ms))"
proof (induction ms)
  case (Cons m ms)
  then have "spec_message m" by simp
  then have "length m \<noteq> 0" "length m = spec_length (m ! 0)"
    using spec_message_bounds [of m] by (auto simp: spec_message_def)
  then have "12 \<le> length m" using spec_length_least [of "m ! 0"] by (simp del: length_0_conv)
  with Cons show ?case by (simp add: frame_def)
qed simp

lemma walk_messages:
  assumes "walk data walker_new = (ms, w)" "length data \<le> 2 ^ 33"
  shows "\<forall>m \<in> set ms. spec_message m" "length ms \<le> 2 ^ 30"
proof -
  obtain ms' rest s' where d: "data = concat (map frame ms') @ rest" "\<forall>m \<in> set ms'. spec_message m"
    "tail_stop rest = Some s'" using frames_exist by blast
  with walk_frames_from [of ms' rest s' walker_new "[]"] assms(1) have "ms = ms'" by (simp add: walker_new_def)
  with d frames_length [of ms'] assms(2) show "\<forall>m \<in> set ms. spec_message m" "length ms \<le> 2 ^ 30" by auto
qed

lemma replay_pass2_inv:
  assumes "walk data walker_new = (ms, w)" "length data \<le> 2 ^ 33" "op_messages opts \<le> model_capacity"
  shows "\<exists>p. pass2_run opts locate ms pass2_new = Some p \<and> pass2_inv opts (filter (followed locate) ms) p
    \<and> stream_inv opts (filter (followed locate) ms) p"
  using pass2_run_inv [OF assms(3) walk_messages(1) [OF assms(1,2)] pass2_new_inv] walk_messages(2) [OF assms(1,2)]
  by simp

text \<open>The stream of the model: its messages and their arrivals.\<close>

lemma stream_inv_count:
  assumes "stream_inv opts sel p"
  shows "is_count (p2_stream p) = min (op_messages opts) (length sel)"
proof -
  have "replay_contents (p2_stream p) = map (\<lambda>k. (sel ! k, of_nat (arrival_at (op_gap_cap opts) sel k)))
      [0..<min (op_messages opts) (length sel)]"
    using assms by (simp add: stream_inv_def Let_def)
  from arg_cong [OF this, of length] show ?thesis by simp
qed

lemma stream_inv_message:
  assumes "stream_inv opts sel p" "k < is_count (p2_stream p)"
  shows "message_bytes (p2_stream p) k = sel ! k"
    and "sm_arrival (message (p2_stream p) k) = of_nat (arrival_at (op_gap_cap opts) sel k)"
proof -
  have contents: "replay_contents (p2_stream p) = map (\<lambda>k. (sel ! k, of_nat (arrival_at (op_gap_cap opts) sel k)))
      [0..<is_count (p2_stream p)]"
    using assms(1) stream_inv_count [OF assms(1)] by (simp add: stream_inv_def Let_def)
  from arg_cong [OF contents, of "\<lambda>xs. xs ! k"] assms(2)
  show "message_bytes (p2_stream p) k = sel ! k"
    "sm_arrival (message (p2_stream p) k) = of_nat (arrival_at (op_gap_cap opts) sel k)"
    by (simp_all add: replay_contents_def)
qed

lemma stream_inv_arrival:
  assumes "stream_inv opts sel p" "op_messages opts \<le> model_capacity" "k < is_count (p2_stream p)"
  shows "message_arrival (p2_stream p) k = arrival_at (op_gap_cap opts) sel k"
    and "unat (sm_arrival (message (p2_stream p) k) + 100000) = message_arrival (p2_stream p) k + 100000"
proof -
  have "arrival_at (op_gap_cap opts) sel k < 2 ^ 63"
    using arrival_bound [of "op_gap_cap opts" sel k] assms(2,3) stream_inv_count [OF assms(1)]
    by (simp add: model_capacity_def)
  then show "message_arrival (p2_stream p) k = arrival_at (op_gap_cap opts) sel k"
    "unat (sm_arrival (message (p2_stream p) k) + 100000) = message_arrival (p2_stream p) k + 100000"
    using stream_inv_message(2) [OF assms(1,3)]
    by (simp_all add: message_arrival_def unat_word_ariths unat_of_nat)
qed

text \<open>
  C10. Pass 2 on any file of at most 8 GB: the full-depth book never leaves its 64-bit range; the
  series hold its number of levels and orders after each message of the stock, and the count of
  deep books is exact. The stream of the model holds the first messages of the stock in file order,
  each complete and of a type the pipeline supports, at arrival times that start at 0, never
  decrease, and grow by the time stamps in cycles of 512 / 165 ns rounded down, at most by the gap
  limit.
\<close>

theorem replay_pass2:
  assumes "walk data walker_new = (ms, w)" "length data \<le> 2 ^ 33" "op_messages opts \<le> model_capacity"
  shows "\<exists>p. let sel = filter (followed locate) ms; n = min (op_messages opts) (length sel) in
    pass2_run opts locate ms pass2_new = Some p
    \<and> real_run sel real_new = Some (p2_book p) \<and> unat (p2_msgs p) = length sel
    \<and> p2_bid_levels p = map (\<lambda>k. of_nat (bid_levels (book_at sel k))) [0..<length sel]
    \<and> p2_ask_levels p = map (\<lambda>k. of_nat (ask_levels (book_at sel k))) [0..<length sel]
    \<and> p2_orders p = map (\<lambda>k. of_nat (real_orders (book_at sel k))) [0..<length sel]
    \<and> unat (p2_over5 p) = card {k. k < length sel \<and> deep (book_at sel k)}
    \<and> map fst (replay_contents (p2_stream p)) = take n sel
    \<and> (\<forall>m \<in> set (take n sel). wf_message m)
    \<and> (\<forall>k < n. message_arrival (p2_stream p) k = arrival_at (op_gap_cap opts) sel k)"
proof -
  let ?sel = "filter (followed locate) ms"
  define n where "n = min (op_messages opts) (length ?sel)"
  from replay_pass2_inv [OF assms] obtain p where p: "pass2_run opts locate ms pass2_new = Some p"
    "pass2_inv opts ?sel p" "stream_inv opts ?sel p" by blast
  note messages = walk_messages [OF assms(1,2)]
  have len: "length ?sel \<le> 2 ^ 30" using messages(2) length_filter_le [of "followed locate" ms] by linarith
  have count: "is_count (p2_stream p) = n" using stream_inv_count [OF p(3)] by (simp add: n_def)
  then have "message_arrival (p2_stream p) k = arrival_at (op_gap_cap opts) ?sel k" if "k < n" for k
    using stream_inv_arrival(1) [OF p(3) assms(3)] that by simp
  moreover have "map fst (replay_contents (p2_stream p)) = take n ?sel"
    using stream_inv_message(1) [OF p(3)] count
    by (intro nth_equalityI) (simp_all add: n_def replay_contents_def)
  moreover have "\<forall>m \<in> set (take n ?sel). wf_message m"
    using messages(1) followed_wf(1) by (auto dest!: in_set_takeD)
  moreover have "length (filter (\<lambda>k. deep (book_at ?sel k)) [0..<length ?sel]) \<le> length ?sel"
    using length_filter_le [of "\<lambda>k. deep (book_at ?sel k)" "[0..<length ?sel]"] by simp
  then have "unat (p2_over5 p) = length (filter (\<lambda>k. deep (book_at ?sel k)) [0..<length ?sel])"
    using p(2) len by (simp add: pass2_inv_def unat_of_nat)
  moreover have "length (filter (\<lambda>k. deep (book_at ?sel k)) [0..<length ?sel])
      = card {k. k < length ?sel \<and> deep (book_at ?sel k)}"
    by (simp add: length_filter_conv_card cong: conj_cong)
  moreover have "unat (p2_msgs p) = length ?sel" using p(2) len by (simp add: pass2_inv_def unat_of_nat)
  ultimately show ?thesis using p by (intro exI [of _ p]) (simp add: pass2_inv_def n_def Let_def)
qed

text \<open>A file of one message.\<close>

definition sample_add :: "u8 list" where
  "sample_add = itch_message (replicate 10 0) sample_bid []"

lemma sample_add_facts:
  "spec_message sample_add" "decoded sample_add = sample_bid" "followed 0 sample_add"
  "sample_add ! 0 = ascii CHR ''A''" "locate_of sample_add = 0"
proof -
  have wf: "wf_message sample_add" using sample_orders_decoded(1) by (simp add: sample_add_def)
  show "decoded sample_add = sample_bid" using sample_orders_decoded(2) by (simp add: sample_add_def)
  show type: "sample_add ! 0 = ascii CHR ''A''" by (simp add: sample_add_def itch_message_def sample_bid_def)
  show loc: "locate_of sample_add = 0"
  proof -
    have "drop 1 sample_add ! 0 = 0" "drop 1 sample_add ! 1 = 0"
      by (simp_all add: sample_add_def itch_message_def numeral_eq_Suc)
    then show ?thesis by (simp only: locate_of_def be_2) simp
  qed
  show "followed 0 sample_add" using type loc by (simp add: followed_def book_type_def)
  show "spec_message sample_add" using wf_message_length [OF wf] spec_length_for [of "sample_add ! 0"]
    by (auto simp: spec_message_def)
qed

lemma sample_walk:
  "\<exists>n. walk (frame sample_add) walker_new = ([sample_add], \<lparr>wk_offset = n, wk_stop = Stop_End\<rparr>)"
  "length (frame sample_add) \<le> 2 ^ 33"
proof -
  show "\<exists>n. walk (frame sample_add) walker_new = ([sample_add], \<lparr>wk_offset = n, wk_stop = Stop_End\<rparr>)"
    using walk_frames_from [of "[sample_add]" "[]" Stop_End walker_new "[]"] sample_add_facts(1)
    by (simp add: tail_stop_def walker_new_def)
  show "length (frame sample_add) \<le> 2 ^ 33"
    using spec_message_bounds [OF sample_add_facts(1)] by (simp add: frame_def)
qed

theorem replay_pass2_witness:
  "\<exists>ms p. pass2_run default_options 0 ms pass2_new = Some p \<and> unat (p2_msgs p) = 1
    \<and> map fst (replay_contents (p2_stream p)) = [sample_add]"
proof -
  obtain n where w: "walk (frame sample_add) walker_new = ([sample_add], \<lparr>wk_offset = n, wk_stop = Stop_End\<rparr>)"
    using sample_walk(1) by blast
  have "op_messages default_options \<le> model_capacity" by (simp add: default_options_def)
  from replay_pass2 [OF w sample_walk(2) this, of 0] obtain p where
    "pass2_run default_options 0 [sample_add] pass2_new = Some p" "unat (p2_msgs p) = length (filter (followed 0) [sample_add])"
    "map fst (replay_contents (p2_stream p))
      = take (min (op_messages default_options) (length (filter (followed 0) [sample_add]))) (filter (followed 0) [sample_add])"
    unfolding Let_def by blast
  then show ?thesis
    by (intro exI [of _ "[sample_add]"] exI [of _ p])
      (simp add: sample_add_facts default_options_def model_capacity_def)
qed

end
