(* ===== verification/Replay_End.thy ===== *)
theory Replay_End
  imports Replay_Run Tick_Faults
begin

text \<open>
  How the replay tool ends on any file: finished, stopped because a message was refused or the cycle
  limit was too small, or undefined.
\<close>

subsection \<open>From pass 2 to the end\<close>

lemma parse_options_bound:
  "parse_options args opts = Some opts' \<Longrightarrow> op_messages opts \<le> model_capacity \<Longrightarrow> op_messages opts' \<le> model_capacity"
  by (induction args opts rule: parse_options.induct) (auto split: if_splits)

lemma series_defined:
  assumes "v \<noteq> []" "length v \<le> 2 ^ 30"
  shows "\<exists>x. series v = Some x"
  using percentile_value [OF assms(1), of 50] percentile_value [OF assms(1), of 99] assms by (simp add: series_def)

text \<open>The wire falls behind the arrivals by at most seven cycles per message.\<close>

lemma wire_start_bound:
  assumes wf: "sized_stream st" and mono: "\<And>k. Suc k < is_count st \<Longrightarrow> message_arrival st k \<le> message_arrival st (Suc k)"
  shows "k < is_count st \<Longrightarrow> wire_start st k \<le> message_arrival st k + 7 * k"
proof (induction k)
  case (Suc k)
  have "wire_blocks st k \<le> 7" by (rule sized_blocks(2) [OF wf]) (use Suc.prems in simp)
  with Suc mono [of k] show ?case by simp
qed simp

lemma finish_bound:
  assumes "sized_stream st" "\<And>k. Suc k < is_count st \<Longrightarrow> message_arrival st k \<le> message_arrival st (Suc k)"
    and "0 < is_count st"
  shows "finish st \<le> message_arrival st (is_count st - 1) + 7 * is_count st + 10"
proof -
  have "is_count st - 1 < is_count st" using assms(3) by simp
  then have "wire_start st (is_count st - 1) \<le> message_arrival st (is_count st - 1) + 7 * (is_count st - 1)"
    "wire_blocks st (is_count st - 1) \<le> 7"
    using wire_start_bound [OF assms(1,2)] sized_blocks(2) [OF assms(1)] by auto
  then show ?thesis using assms(3) by (simp add: finish_def received_def)
qed

text \<open>From the stream of pass 2 on: the statistics of a finished run, or how far it came.\<close>

lemma replay_model_stopped:
  assumes sz: "sized_stream (p2_stream p2)" and limit: "replay_limit (p2_stream p2) = Some limit"
    and e: "drive (p2_stream p2) limit (replay_engine (p2_stream p2)) (tick_new (p2_stream p2)) = Some (e, p)"
    and t: "t \<le> stop_cycle (p2_stream p2)" "run_state (p2_stream p2) t p" "\<not> tick_ok (p2_stream p2) p"
  shows "replay_model p1 locate ser p2
    = Some (Model_Stopped (card {k. k < is_count (p2_stream p2) \<and> received (p2_stream p2) k + 9 < t}) (is_count (p2_stream p2)))"
proof -
  have "active_cycles (p2_stream p2) t = t"
    using t(1) by (auto simp: active_cycles_def stop_cycle_def split: option.splits)
  then show ?thesis
    using run_state_reports(2) [OF sz t(2)] t(3) by (simp add: replay_model_def limit e Let_def passed_def)
qed

lemma replay_model_finished:
  assumes sz: "sized_stream (p2_stream p2)" and n: "0 < is_count (p2_stream p2)" "is_count (p2_stream p2) \<le> model_capacity"
    and limit: "replay_limit (p2_stream p2) = Some limit"
    and e: "drive (p2_stream p2) limit (replay_engine (p2_stream p2)) (tick_new (p2_stream p2)) = Some (e, p)"
    and fin: "unat (en_cycle e) = finish (p2_stream p2)" "tick_inv (p2_stream p2) (finish (p2_stream p2)) p"
  shows "\<exists>rep t scratch. replay_model p1 locate ser p2 = Some (Replayed rep) \<and> rr_pass1 rep = p1 \<and> rr_pass2 rep = p2
      \<and> rr_series rep = ser \<and> rr_locate rep = locate \<and> rr_completed rep = is_count (p2_stream p2)
      \<and> unat (rr_cycles rep) = finish (p2_stream p2)
      \<and> compute_with (latencies (p2_stream p2)) (is_count (p2_stream p2)) (replicate model_capacity 0) = Some (t, scratch)
      \<and> rr_lines rep = map cycles_line [st_min t, st_median t, st_p99 t, st_max t]"
proof -
  let ?st = "p2_stream p2"
  note compute = finished_compute [OF sz fin(2)]
  have "is_count ?st \<le> length (latencies ?st)" "is_count ?st \<le> length (replicate model_capacity (0 :: u32))"
    "is_count ?st < 2 ^ 32"
    using n by (simp_all add: latencies_def model_capacity_def)
  from compute_with_defined [OF n(1) this] obtain t scratch where
    t: "compute_with (latencies ?st) (is_count ?st) (replicate model_capacity 0) = Some (t, scratch)" by blast
  have "pipeline_stats_with (replicate model_capacity 0) p = Some (t, scratch)"
    using t unfolding pipeline_stats_with_def compute(1) .
  moreover have "tick_ok ?st p" using tick_inv_done [OF sz fin(2)] by simp
  ultimately show ?thesis using fin(1) t compute(2) by (simp add: replay_model_def limit e Let_def)
qed

lemma replay_model_result:
  assumes sz: "sized_stream (p2_stream p2)" and n: "0 < is_count (p2_stream p2)" "is_count (p2_stream p2) \<le> model_capacity"
    and limit: "replay_limit (p2_stream p2) = Some limit"
  shows "if undefined_fault (p2_stream p2) \<and> stop_cycle (p2_stream p2) \<le> unat limit then replay_model p1 locate ser p2 = None
    else if first_fault (p2_stream p2) = None \<and> finish (p2_stream p2) \<le> unat limit
    then \<exists>rep t scratch. replay_model p1 locate ser p2 = Some (Replayed rep) \<and> rr_pass1 rep = p1 \<and> rr_pass2 rep = p2
      \<and> rr_series rep = ser \<and> rr_locate rep = locate \<and> rr_completed rep = is_count (p2_stream p2)
      \<and> unat (rr_cycles rep) = finish (p2_stream p2)
      \<and> compute_with (latencies (p2_stream p2)) (is_count (p2_stream p2)) (replicate model_capacity 0) = Some (t, scratch)
      \<and> rr_lines rep = map cycles_line [st_min t, st_median t, st_p99 t, st_max t]
    else replay_model p1 locate ser p2 = Some (Model_Stopped
      (card {k. k < is_count (p2_stream p2) \<and> received (p2_stream p2) k + 9 < min (unat limit) (stop_cycle (p2_stream p2))})
      (is_count (p2_stream p2)))"
proof (cases "undefined_fault (p2_stream p2) \<and> stop_cycle (p2_stream p2) \<le> unat limit")
  case True
  then show ?thesis using drive_outcome [OF sz, of limit] by (simp add: replay_model_def limit Let_def)
next
  case False
  let ?st = "p2_stream p2"
  from drive_outcome [OF sz, of limit] False obtain e p where
    e: "drive ?st limit (replay_engine ?st) (tick_new ?st) = Some (e, p)"
    and cycle: "unat (en_cycle e) = min (unat limit) (stop_cycle ?st)" and run: "run_state ?st (unat (en_cycle e)) p"
    by (auto simp del: tick_cycles.simps)
  note ok = run_state_ok [OF sz run]
  show ?thesis
  proof (cases "first_fault ?st = None \<and> finish ?st \<le> unat limit")
    case True
    then have "unat (en_cycle e) = finish ?st" by (simp add: cycle stop_cycle_def)
    moreover from this run True have "tick_inv ?st (finish ?st) p" by (simp add: run_state_def)
    ultimately show ?thesis using replay_model_finished [OF sz n limit e] True False by (simp only: if_True if_False simp_thms)
  next
    case not_done: False
    then have "\<not> tick_ok ?st p" unfolding ok cycle by (auto simp: stop_cycle_def)
    from replay_model_stopped [OF sz limit e _ run this] cycle not_done False show ?thesis
      by (simp only: if_False simp_thms min.cobounded2)
  qed
qed

lemma replay_limit_value:
  assumes "stream_inv opts sel p" "op_messages opts \<le> model_capacity"
  shows "if is_count (p2_stream p) = 0 then replay_limit (p2_stream p) = None
    else \<exists>limit. replay_limit (p2_stream p) = Some limit
      \<and> unat limit = message_arrival (p2_stream p) (is_count (p2_stream p) - 1) + 100000"
proof -
  have st: "length (is_messages (p2_stream p)) = model_capacity" "is_count (p2_stream p) \<le> model_capacity"
    using assms(1) by (simp_all add: stream_inv_def replay_inv_def Let_def)
  show ?thesis
  proof (cases "is_count (p2_stream p) = 0")
    case False
    then have "is_count (p2_stream p) - 1 < is_count (p2_stream p)" by simp
    from stream_inv_arrival(2) [OF assms this] False st show ?thesis
      by (simp add: replay_limit_def at_def size_sub_def message_def model_capacity_def)
  qed (simp add: replay_limit_def at_def size_sub_def st(1) model_capacity_def)
qed

lemma replay_stream_sized:
  assumes "stream_inv opts sel p" "\<forall>m \<in> set sel. wf_message m"
  shows "sized_stream (p2_stream p)" "first_fault (p2_stream p) \<noteq> Some (k, Not_Parsed)"
proof -
  have inv: "replay_inv (p2_stream p)" "is_capacity (p2_stream p) < 2 ^ 31"
    using assms(1) by (simp_all add: stream_inv_def Let_def model_capacity_def)
  have wf: "wf_message (message_bytes (p2_stream p) j)" if "j < is_count (p2_stream p)" for j
    using that stream_inv_message(1) [OF assms(1)] stream_inv_count [OF assms(1)] assms(2) by simp
  then have "\<forall>m \<in> set (replay_contents (p2_stream p)). 4 \<le> length (fst m)"
    using wf_message_bounds by (fastforce simp: replay_contents_def)
  from replay_sized [OF inv this] show "sized_stream (p2_stream p)" .
  show "first_fault (p2_stream p) \<noteq> Some (k, Not_Parsed)"
    using wf by (auto simp: first_fault_Some message_fault_def split: option.splits if_splits)
qed

lemma arrival_mono: "arrival_at cap sel k \<le> arrival_at cap sel (Suc k)"
  by simp

text \<open>From the arguments to the model: the two passes, the choice and the series.\<close>

lemma replay_main_model:
  assumes opts: "parse_options args default_options = Some opts"
    and walk: "walk data walker_new = (ms, w)" "wk_stop w \<noteq> Bad_Framing" "length data \<le> 2 ^ 33"
    and choose: "choose_stock (op_symbol opts) (foldl pass1_step pass1_new ms) = Some locate"
    and run: "pass2_run opts locate ms pass2_new = Some p2" and sel: "filter (followed locate) ms \<noteq> []"
  shows "\<exists>ser. map Some ser = [series (p2_bid_levels p2), series (p2_ask_levels p2), series (p2_orders p2)]
    \<and> replay_main args data = replay_model (foldl pass1_step pass1_new ms) locate ser p2
    \<and> op_messages opts \<le> model_capacity \<and> stream_inv opts (filter (followed locate) ms) p2
    \<and> (\<forall>m \<in> set (filter (followed locate) ms). wf_message m)"
proof -
  let ?sel = "filter (followed locate) ms"
  have cap: "op_messages opts \<le> model_capacity"
    by (rule parse_options_bound [OF opts]) (simp add: default_options_def)
  have inv: "pass2_inv opts ?sel p2" "stream_inv opts ?sel p2"
    using replay_pass2_inv [OF walk(1,3) cap, of locate] run by auto
  note messages = walk_messages [OF walk(1,3)]
  have len: "length ?sel \<le> 2 ^ 30" "0 < length ?sel"
    using messages(2) length_filter_le [of "followed locate" ms] sel by (linarith, simp)
  have "\<exists>b a os. series (p2_bid_levels p2) = Some b \<and> series (p2_ask_levels p2) = Some a
      \<and> series (p2_orders p2) = Some os"
    using series_defined [of "p2_bid_levels p2"] series_defined [of "p2_ask_levels p2"]
      series_defined [of "p2_orders p2"] inv(1) len by (auto simp: pass2_inv_def)
  then obtain b a os where ser: "series (p2_bid_levels p2) = Some b" "series (p2_ask_levels p2) = Some a"
    "series (p2_orders p2) = Some os" by blast
  have "unat (p2_msgs p2) = length ?sel" using inv(1) len by (simp add: pass2_inv_def unat_of_nat)
  then have "p2_msgs p2 \<noteq> 0" using len by auto
  then have "replay_main args data = replay_model (foldl pass1_step pass1_new ms) locate [b, a, os] p2"
    using opts walk(1,2) choose run ser by (simp add: replay_main_def)
  moreover have "\<forall>m \<in> set ?sel. wf_message m" using messages(1) followed_wf(1) by auto
  ultimately show ?thesis using ser cap inv(2) by (intro exI [of _ "[b, a, os]"]) simp
qed

lemma replay_main_ends:
  assumes "parse_options args default_options = Some opts"
    and "walk data walker_new = (ms, w)" "wk_stop w \<noteq> Bad_Framing" "length data \<le> 2 ^ 33"
    and "choose_stock (op_symbol opts) (foldl pass1_step pass1_new ms) = Some locate"
    and "pass2_run opts locate ms pass2_new = Some p2" "filter (followed locate) ms \<noteq> []"
  shows "op_messages opts \<le> model_capacity" "stream_inv opts (filter (followed locate) ms) p2"
    and "is_count (p2_stream p2) = 0 \<Longrightarrow> replay_main args data = None"
    and "0 < is_count (p2_stream p2) \<Longrightarrow>
      \<exists>ser. map Some ser = [series (p2_bid_levels p2), series (p2_ask_levels p2), series (p2_orders p2)]
        \<and> replay_main args data = replay_model (foldl pass1_step pass1_new ms) locate ser p2
        \<and> (\<exists>l. replay_limit (p2_stream p2) = Some l
              \<and> unat l = message_arrival (p2_stream p2) (is_count (p2_stream p2) - 1) + 100000)
        \<and> sized_stream (p2_stream p2) \<and> is_count (p2_stream p2) \<le> model_capacity
        \<and> finish (p2_stream p2)
            \<le> message_arrival (p2_stream p2) (is_count (p2_stream p2) - 1) + 7 * is_count (p2_stream p2) + 10
        \<and> (\<forall>k. first_fault (p2_stream p2) \<noteq> Some (k, Not_Parsed))"
proof -
  let ?st = "p2_stream p2"
  obtain ser where ser: "map Some ser = [series (p2_bid_levels p2), series (p2_ask_levels p2), series (p2_orders p2)]"
    and main: "replay_main args data = replay_model (foldl pass1_step pass1_new ms) locate ser p2"
    and cap: "op_messages opts \<le> model_capacity" and inv: "stream_inv opts (filter (followed locate) ms) p2"
    and msgs: "\<forall>m \<in> set (filter (followed locate) ms). wf_message m"
    using replay_main_model [OF assms(1-7)] by (elim exE conjE) (rule that)
  show "op_messages opts \<le> model_capacity" "stream_inv opts (filter (followed locate) ms) p2" by (rule cap, rule inv)
  note limit = replay_limit_value [OF inv cap] and sized = replay_stream_sized [OF inv msgs]
  show "is_count ?st = 0 \<Longrightarrow> replay_main args data = None" using main limit by (simp add: replay_model_def Let_def)
  assume n: "0 < is_count ?st"
  have "message_arrival ?st k \<le> message_arrival ?st (Suc k)" if "Suc k < is_count ?st" for k
    using stream_inv_arrival(1) [OF inv cap] that by simp
  note finish_bound [OF sized(1) this n]
  moreover have "is_count ?st \<le> model_capacity" using stream_inv_count [OF inv] cap by simp
  ultimately show "\<exists>ser. map Some ser = [series (p2_bid_levels p2), series (p2_ask_levels p2), series (p2_orders p2)]
        \<and> replay_main args data = replay_model (foldl pass1_step pass1_new ms) locate ser p2
        \<and> (\<exists>l. replay_limit ?st = Some l \<and> unat l = message_arrival ?st (is_count ?st - 1) + 100000)
        \<and> sized_stream ?st \<and> is_count ?st \<le> model_capacity
        \<and> finish ?st \<le> message_arrival ?st (is_count ?st - 1) + 7 * is_count ?st + 10
        \<and> (\<forall>k. first_fault ?st \<noteq> Some (k, Not_Parsed))"
    using ser main limit n sized by (intro exI [of _ ser]) simp
qed

text \<open>
  C6. The replay tool as a whole, on a file of at most 8 GB whose framing is not broken and which has
  messages of the chosen stock, whatever they are. With \<open>--model-messages 0\<close> the program reads outside
  the message array. Otherwise it finishes with the report, exit status 0, exactly when the order table
  refuses no message and the last decision is posted within 100000 cycles of the last arrival, which
  at most 14000 messages always meet. If a message is refused, or the limit is too small, the run ends
  with status 1 and reports how many decisions were due by then; a message whose share arithmetic
  overflows, reached within the limit, is undefined. No message fails in the parser.
\<close>

theorem replay_tool_result:
  assumes "parse_options args default_options = Some opts"
    and "walk data walker_new = (ms, w)" "wk_stop w \<noteq> Bad_Framing" "length data \<le> 2 ^ 33"
    and "choose_stock (op_symbol opts) (foldl pass1_step pass1_new ms) = Some locate"
    and "pass2_run opts locate ms pass2_new = Some p2" "filter (followed locate) ms \<noteq> []"
  shows "if op_messages opts = 0 then replay_main args data = None
    else let st = p2_stream p2; limit = message_arrival st (is_count st - 1) + 100000 in
      (\<forall>k. first_fault st \<noteq> Some (k, Not_Parsed))
      \<and> (if undefined_fault st \<and> stop_cycle st \<le> limit then replay_main args data = None
         else if first_fault st = None \<and> finish st \<le> limit
         then \<exists>rep t scratch. replay_main args data = Some (Replayed rep) \<and> rr_pass2 rep = p2
           \<and> map Some (rr_series rep) = [series (p2_bid_levels p2), series (p2_ask_levels p2), series (p2_orders p2)]
           \<and> rr_completed rep = is_count st \<and> unat (rr_cycles rep) = finish st
           \<and> compute_with (latencies st) (is_count st) (replicate model_capacity 0) = Some (t, scratch)
           \<and> rr_lines rep = map cycles_line [st_min t, st_median t, st_p99 t, st_max t]
         else (first_fault st = None \<longrightarrow> 14000 < is_count st)
           \<and> replay_main args data = Some (Model_Stopped
               (card {k. k < is_count st \<and> received st k + 9 < min limit (stop_cycle st)}) (is_count st)))"
proof -
  let ?st = "p2_stream p2" and ?sel = "filter (followed locate) ms"
  have count: "is_count ?st = min (op_messages opts) (length ?sel)"
    using replay_main_ends(2) [OF assms(1-7)] by (rule stream_inv_count)
  show ?thesis
  proof (cases "op_messages opts = 0")
    case True
    then show ?thesis using replay_main_ends(3) [OF assms(1-7)] count by simp
  next
    case False
    then have n: "0 < is_count ?st" using assms(7) count by simp
    from replay_main_ends(4) [OF assms(1-7) this] obtain ser l where
      ser: "map Some ser = [series (p2_bid_levels p2), series (p2_ask_levels p2), series (p2_orders p2)]"
      and main: "replay_main args data = replay_model (foldl pass1_step pass1_new ms) locate ser p2"
      and l: "replay_limit ?st = Some l" "unat l = message_arrival ?st (is_count ?st - 1) + 100000"
      and st: "sized_stream ?st" "is_count ?st \<le> model_capacity"
      and late: "finish ?st \<le> message_arrival ?st (is_count ?st - 1) + 7 * is_count ?st + 10"
      and parsed: "\<forall>k. first_fault ?st \<noteq> Some (k, Not_Parsed)" by (elim exE conjE) (rule that)
    have "14000 < is_count ?st" if "\<not> finish ?st \<le> message_arrival ?st (is_count ?st - 1) + 100000"
      using late that by simp
    with replay_model_result [OF st(1) n st(2) l(1), of "foldl pass1_step pass1_new ms" locate ser, unfolded l(2), folded main]
    show ?thesis using False ser parsed unfolding Let_def by (auto split: if_splits)
  qed
qed

lemma sample_book:
  assumes "message_bytes st 0 = sample_add" "0 < is_order_capacity st"
  shows "\<exists>orders book. book_after st 1 = Some (orders, book) \<and> ob_overflow book = 0"
proof -
  let ?t = "table_new (is_order_capacity st)"
  have "table_inv ?t" "\<forall>r. table_view ?t r = None"
    using same_book_new [of "is_order_capacity st"] by (simp_all add: same_book_def real_new_def)
  then have "\<exists>t'. table_insert 7 True 5 10 ?t = (True, t')"
    using table.insert_ok [of ?t 7 True 5 10] assms(2) by (auto simp: dom_def)
  moreover have "\<exists>book'. book_add True 5 10 book_new = Some book' \<and> ob_overflow book' = 0"
    by (simp add: book_add_def side_add_def book_new_def levels_def numeral_eq_Suc)
  ultimately show ?thesis
    using assms(1) by (auto simp: sample_add_facts sample_events apply_event_def apply_insert_def Let_def)
qed

lemma sample_pass2:
  "\<exists>p2 orders book. pass2_run default_options 0 [sample_add] pass2_new = Some p2 \<and> is_count (p2_stream p2) = 1
    \<and> book_after (p2_stream p2) 1 = Some (orders, book) \<and> ob_overflow book = 0"
proof -
  obtain n where w: "walk (frame sample_add) walker_new = ([sample_add], \<lparr>wk_offset = n, wk_stop = Stop_End\<rparr>)"
    using sample_walk(1) by blast
  obtain p2 where p2: "pass2_run default_options 0 [sample_add] pass2_new = Some p2" "stream_inv default_options [sample_add] p2"
    using replay_pass2_inv [OF w sample_walk(2), of default_options 0] sample_add_facts(3)
    by (auto simp: default_options_def)
  have contents: "replay_contents (p2_stream p2) = [(sample_add, 0)]" "is_order_capacity (p2_stream p2) = 16384"
    using p2(2) by (simp_all add: stream_inv_def replay_order_capacity_def default_options_def model_capacity_def)
  have count: "is_count (p2_stream p2) = 1" using arg_cong [OF contents(1), of length] by simp
  have "message_bytes (p2_stream p2) 0 = sample_add" using contents(1) count by (simp add: replay_contents_def)
  from sample_book [OF this] contents(2) p2(1) count show ?thesis by auto
qed

lemma sample_choose: "choose_stock [] (foldl pass1_step pass1_new [sample_add]) = Some 0"
  by (simp add: choose_stock_def busiest_def pass1_step_def pass1_new_def sample_add_facts std_bump_def Let_def)

lemma sample_options:
  "parse_options [] default_options = Some default_options"
  "op_symbol default_options = []" "op_messages default_options = model_capacity"
  by (simp_all add: default_options_def)

lemma sample_replay:
  "\<exists>p2. pass2_run default_options 0 [sample_add] pass2_new = Some p2 \<and> is_count (p2_stream p2) = 1
    \<and> first_fault (p2_stream p2) = None
    \<and> finish (p2_stream p2) \<le> message_arrival (p2_stream p2) 0 + 100000"
proof -
  obtain n where w: "walk (frame sample_add) walker_new = ([sample_add], \<lparr>wk_offset = n, wk_stop = Stop_End\<rparr>)"
    using sample_walk(1) by blast
  obtain p2 where p2: "pass2_run default_options 0 [sample_add] pass2_new = Some p2" and count: "is_count (p2_stream p2) = 1"
    and book: "book_after (p2_stream p2) (Suc 0) \<noteq> None"
    using sample_pass2 by (auto simp del: book_after.simps)
  have inv: "stream_inv default_options [sample_add] p2"
    using replay_pass2_inv [OF w sample_walk(2), of default_options 0] p2 sample_options(3) by (simp add: sample_add_facts)
  have "message_bytes (p2_stream p2) 0 = sample_add" using stream_inv_message(1) [OF inv, of 0] count by simp
  moreover have wf: "wf_message sample_add" using sample_orders_decoded(1) by (simp add: sample_add_def)
  ultimately have "message_fault (p2_stream p2) 0 = None" using book by (intro no_message_fault) simp_all
  then have "first_fault (p2_stream p2) = None" by (simp add: first_fault_None count)
  moreover have "wire_blocks (p2_stream p2) 0 \<le> 7"
    by (rule sized_blocks(2) [OF replay_stream_sized(1) [OF inv]]) (simp_all add: wf count)
  then have "finish (p2_stream p2) \<le> message_arrival (p2_stream p2) 0 + 100000"
    by (simp add: finish_def received_def count)
  ultimately show ?thesis using p2 count by blast
qed

theorem replay_tool_result_witness:
  "\<exists>rep. replay_main [] (frame sample_add) = Some (Replayed rep) \<and> rr_completed rep = 1
    \<and> replay_main [''--model-messages'', ''0''] (frame sample_add) = None"
proof -
  obtain n where w: "walk (frame sample_add) walker_new = ([sample_add], \<lparr>wk_offset = n, wk_stop = Stop_End\<rparr>)"
    using sample_walk(1) by blast
  have go: "wk_stop \<lparr>wk_offset = n, wk_stop = Stop_End\<rparr> \<noteq> Bad_Framing" by simp
  define zero where "zero = default_options\<lparr>op_messages := 0\<rparr>"
  have zero: "parse_options [''--model-messages'', ''0''] default_options = Some zero" "op_symbol zero = []"
    "op_messages zero = 0"
    by (simp_all add: zero_def strtoull_def white_def undecimal_def default_options_def)
  have sel: "filter (followed 0) [sample_add] = [sample_add]" by (simp add: sample_add_facts)
  obtain p0 where p0: "pass2_run zero 0 [sample_add] pass2_new = Some p0"
    using replay_pass2_inv [OF w sample_walk(2), of zero 0] zero by auto
  have "replay_main [''--model-messages'', ''0''] (frame sample_add) = None"
    using replay_tool_result [OF zero(1) w go sample_walk(2) _ p0] sample_choose sel zero by simp
  moreover obtain p2 where p2: "pass2_run default_options 0 [sample_add] pass2_new = Some p2"
    "is_count (p2_stream p2) = 1" "first_fault (p2_stream p2) = None"
    "finish (p2_stream p2) \<le> message_arrival (p2_stream p2) 0 + 100000"
    using sample_replay by blast
  have "\<exists>rep. replay_main [] (frame sample_add) = Some (Replayed rep) \<and> rr_completed rep = 1"
    using replay_tool_result [OF sample_options(1) w go sample_walk(2) _ p2(1)] sample_choose sel sample_options p2(2-4)
    by (auto simp: Let_def undefined_fault_def model_capacity_def split: if_splits)
  ultimately show ?thesis by blast
qed

subsection \<open>The whole program\<close>

text \<open>The stream pass 2 builds, if the run comes that far: options, framing and stock in order, and
  messages of the stock in the file.\<close>

definition replayed_stream :: "string list \<Rightarrow> u8 list \<Rightarrow> itch_stream option" where
  "replayed_stream args data = do {
     opts \<leftarrow> parse_options args default_options;
     let (ms, w) = walk data walker_new;
     locate \<leftarrow> (if wk_stop w = Bad_Framing then None else choose_stock (op_symbol opts) (foldl pass1_step pass1_new ms));
     p2 \<leftarrow> pass2_run opts locate ms pass2_new;
     if p2_msgs p2 = 0 then None else Some (p2_stream p2) }"

lemma replayed_stream_Some:
  assumes "replayed_stream args data = Some st"
  obtains opts ms w locate p2 where "parse_options args default_options = Some opts" "walk data walker_new = (ms, w)"
    "wk_stop w \<noteq> Bad_Framing" "choose_stock (op_symbol opts) (foldl pass1_step pass1_new ms) = Some locate"
    "pass2_run opts locate ms pass2_new = Some p2" "p2_msgs p2 \<noteq> 0" "st = p2_stream p2"
  using assms by (auto simp: replayed_stream_def split: bind_splits prod.splits if_splits)

lemma replayed_stream_empty: "replayed_stream args [] = None"
  by (auto simp: replayed_stream_def walk.simps walker_next_def walker_new_def pass2_new_def split: bind_splits if_splits)

text \<open>Pass 2 is defined on any file of at most 8 GB.\<close>

lemma pass2_defined:
  assumes "parse_options args default_options = Some opts" "walk data walker_new = (ms, w)" "length data \<le> 2 ^ 33"
  shows "\<exists>p2. pass2_run opts locate ms pass2_new = Some p2
    \<and> (p2_msgs p2 = 0 \<longleftrightarrow> filter (followed locate) ms = [])"
proof -
  let ?sel = "filter (followed locate) ms"
  have "op_messages opts \<le> model_capacity"
    by (rule parse_options_bound [OF assms(1)]) (simp add: default_options_def)
  then obtain p2 where p2: "pass2_run opts locate ms pass2_new = Some p2" "pass2_inv opts ?sel p2"
    using replay_pass2_inv [OF assms(2,3)] by blast
  have "length ?sel \<le> 2 ^ 30" using walk_messages(2) [OF assms(2,3)] length_filter_le [of "followed locate" ms] by linarith
  then have "unat (p2_msgs p2) = length ?sel" using p2(2) by (simp add: pass2_inv_def unat_of_nat)
  then have "p2_msgs p2 = 0 \<longleftrightarrow> ?sel = []" by (metis length_0_conv unat_eq_zero)
  with p2(1) show ?thesis by blast
qed

lemma replay_main_no_stream:
  assumes "replayed_stream args data = None" "length data \<le> 2 ^ 33"
  shows "\<exists>r. replay_main args data = Some r \<and> exit_status r \<noteq> 0"
proof (cases "parse_options args default_options")
  case (Some opts)
  obtain ms w where w: "walk data walker_new = (ms, w)" by fastforce
  show ?thesis
  proof (cases "wk_stop w = Bad_Framing")
    case False
    show ?thesis
    proof (cases "choose_stock (op_symbol opts) (foldl pass1_step pass1_new ms)")
      case choose: (Some locate)
      obtain p2 where p2: "pass2_run opts locate ms pass2_new = Some p2"
        using pass2_defined [OF Some w assms(2)] by blast
      then have "p2_msgs p2 = 0" using assms(1) Some w False choose by (simp add: replayed_stream_def split: if_splits)
      then show ?thesis using Some w False choose p2 by (simp add: replay_main_def)
    qed (use Some w False in \<open>simp add: replay_main_def\<close>)
  qed (use Some w in \<open>simp add: replay_main_def\<close>)
qed (simp add: replay_main_def)

lemma sample_replayed:
  "\<exists>st. replayed_stream [] (frame sample_add) = Some st \<and> is_count st = 1 \<and> first_fault st = None
    \<and> finish st \<le> message_arrival st 0 + 100000"
proof -
  obtain n where w: "walk (frame sample_add) walker_new = ([sample_add], \<lparr>wk_offset = n, wk_stop = Stop_End\<rparr>)"
    using sample_walk(1) by blast
  obtain p2 where p2: "pass2_run default_options 0 [sample_add] pass2_new = Some p2"
    "is_count (p2_stream p2) = 1" "first_fault (p2_stream p2) = None"
    "finish (p2_stream p2) \<le> message_arrival (p2_stream p2) 0 + 100000"
    using sample_replay by blast
  have "p2_msgs p2 \<noteq> 0"
    using pass2_defined [OF sample_options(1) w sample_walk(2), of 0] p2(1) sample_add_facts(3) by auto
  then show ?thesis
    using p2 w sample_choose sample_options by (intro exI [of _ "p2_stream p2"]) (simp add: replayed_stream_def del: pass2_run.simps foldl_Cons)
qed

text \<open>
  C31. The replay program on any arguments and any file of at most 8 GB: whether it has defined
  behaviour, and whether it succeeds. It is undefined exactly when it comes to the replay and the
  stream is empty (\<open>--model-messages 0\<close>) or holds a message with overflowing share arithmetic that
  reaches the book within the cycle limit; it ends with status 0 exactly when it comes to the replay,
  the stream is not empty, no message is refused and the limit suffices.
\<close>

theorem replay_program_result:
  assumes "length data \<le> 2 ^ 33"
  shows "let r = replay_program (prog # path # args) (Some data) in
    case replayed_stream args data of
      None \<Rightarrow> r \<noteq> None \<and> exit_status (the r) \<noteq> 0
    | Some st \<Rightarrow> let limit = message_arrival st (is_count st - 1) + 100000 in
        (r = None \<longleftrightarrow> is_count st = 0 \<or> undefined_fault st \<and> stop_cycle st \<le> limit)
        \<and> (r \<noteq> None \<and> exit_status (the r) = 0
             \<longleftrightarrow> is_count st \<noteq> 0 \<and> first_fault st = None \<and> finish st \<le> limit)"
proof (cases "replayed_stream args data")
  case None
  show ?thesis
  proof (cases "data = []")
    case True
    then show ?thesis using None replay_program_empty [of prog path args] by auto
  next
    case False
    then show ?thesis using None replay_main_no_stream [OF None assms] by (auto simp: replay_program_main)
  qed
next
  case (Some st)
  then have "data \<noteq> []" using replayed_stream_empty by auto
  note program = replay_program_main [OF this]
  obtain opts ms w locate p2 where run: "parse_options args default_options = Some opts" "walk data walker_new = (ms, w)"
    "wk_stop w \<noteq> Bad_Framing" "choose_stock (op_symbol opts) (foldl pass1_step pass1_new ms) = Some locate"
    "pass2_run opts locate ms pass2_new = Some p2" "p2_msgs p2 \<noteq> 0" and st: "st = p2_stream p2"
    using replayed_stream_Some [OF Some] by blast
  have "filter (followed locate) ms \<noteq> []" using pass2_defined [OF run(1,2) assms, of locate] run(5,6) by auto
  note ends = replay_main_ends [OF run(1-3) assms run(4,5) this, folded st]
  show ?thesis
  proof (cases "is_count st = 0")
    case True
    then show ?thesis using ends(3) Some by (simp add: program Let_def)
  next
    case False
    then obtain ser l where "replay_main args data = replay_model (foldl pass1_step pass1_new ms) locate ser p2"
      and "sized_stream st" "is_count st \<le> model_capacity"
      and "replay_limit st = Some l" "unat l = message_arrival st (is_count st - 1) + 100000"
      using ends(4) by auto
    moreover have "first_fault st \<noteq> None" if "undefined_fault st" using that by (cases "first_fault st") (auto simp: undefined_fault_def)
    ultimately show ?thesis using replay_model_result [of p2 l "foldl pass1_step pass1_new ms" locate ser] False Some st
      by (auto simp: program Let_def split: if_splits)
  qed
qed

theorem replay_program_result_witness:
  "\<exists>r. replay_program [''replay'', ''file''] (Some (frame sample_add)) = Some r \<and> exit_status r = 0"
proof -
  obtain st where "replayed_stream [] (frame sample_add) = Some st" "is_count st = 1" "first_fault st = None"
    "finish st \<le> message_arrival st 0 + 100000"
    using sample_replayed by blast
  with replay_program_result [OF sample_walk(2), of "''replay''" "''file''" "[]"] show ?thesis
    by (auto simp: Let_def undefined_fault_def)
qed

end
