(* ===== verification/Replay_Quotes.thy ===== *)
theory Replay_Quotes
  imports Replay_End
begin

text \<open>
  The model against the reference on replayed messages: the quotes the pipeline holds for the
  messages of the followed stock are the best levels of the full-depth book the tool rebuilds from
  the same messages, as long as no add was dropped.
\<close>

subsection \<open>Dropped adds\<close>

lemma book_add_overflow:
  "book_add b p n book = Some book' \<Longrightarrow>
   ob_overflow book' = ob_overflow book \<or> ob_overflow book' = ob_overflow book + 1"
  by (auto simp: book_add_def Let_def split: bind_splits if_splits)

lemma book_execute_overflow: "book_execute b p n book = Some book' \<Longrightarrow> ob_overflow book' = ob_overflow book"
  by (auto simp: book_execute_def split: bind_splits if_splits)

lemma insert_overflow:
  "apply_insert r b p n orders book = Some (ok, orders', book') \<Longrightarrow>
   ob_overflow book' = ob_overflow book \<or> ob_overflow book' = ob_overflow book + 1"
  by (auto simp: apply_insert_def split: prod.splits bind_splits dest: book_add_overflow)

lemma reduce_overflow:
  "apply_reduce r n orders book = Some (res, orders', book') \<Longrightarrow> ob_overflow book' = ob_overflow book"
proof -
  assume "apply_reduce r n orders book = Some (res, orders', book')"
  then have "book' = book \<or> (\<exists>bid p a. book_execute bid p a book = Some book')"
    by (auto simp: apply_reduce_def split: bind_splits option.splits)
  then show ?thesis using book_execute_overflow by blast
qed

lemma event_overflow:
  assumes "apply_event e orders book = Some (ok, orders', book')"
  shows "ob_overflow book' = ob_overflow book \<or> ob_overflow book' = ob_overflow book + 1"
proof (cases "ev_type e = Replace")
  case True
  then obtain ok1 bid orders1 book1 where red: "apply_reduce (order_reference e) max_i32 orders book
      = Some ((ok1, bid), orders1, book1)"
    and ins: "(if \<not> ok1 then Some (False, orders1, book1)
      else apply_insert (new_reference e) bid (price_ticks e) (ev_shares e) orders1 book1) = Some (ok, orders', book')"
    using assms by (auto simp: apply_event_def Let_def split: bind_splits)
  from ins reduce_overflow [OF red] show ?thesis by (auto split: if_splits dest: insert_overflow)
next
  case False
  with assms show ?thesis
    by (auto simp: apply_event_def Let_def split: if_splits dest: insert_overflow reduce_overflow)
qed

definition dropped :: "itch_stream \<Rightarrow> nat \<Rightarrow> u64" where
  "dropped st k = ob_overflow (snd (the (book_after st k)))"

lemma dropped_step:
  assumes "book_after st (Suc k) \<noteq> None"
  shows "dropped st (Suc k) = dropped st k \<or> dropped st (Suc k) = dropped st k + 1"
  using assms event_overflow by (fastforce simp: dropped_def split: bind_splits if_splits)

lemma dropped_le: "book_after st k \<noteq> None \<Longrightarrow> unat (dropped st k) \<le> k"
proof (induction k)
  case 0
  show ?case by (simp add: dropped_def book_new_def)
next
  case (Suc k)
  then have "unat (dropped st k) \<le> k" using book_after_prefix [of k "Suc k" st] by simp
  moreover have "unat (w + 1 :: u64) \<le> Suc (unat w)" for w by (simp add: unat_word_ariths)
  then have "unat (dropped st k + 1) \<le> Suc (unat (dropped st k))" .
  ultimately show ?case using dropped_step [OF Suc.prems] by auto
qed

text \<open>The counter does not wrap, so a final count of zero means that no add was dropped at all.\<close>

lemma none_dropped:
  assumes "book_after st n \<noteq> None" "n < 2 ^ 63" "dropped st n = 0"
  shows "k \<le> n \<Longrightarrow> dropped st k = 0"
proof (induction "n - k" arbitrary: k)
  case 0
  with assms(3) show ?case by simp
next
  case (Suc d)
  then have k: "d = n - Suc k" "Suc k \<le> n" by auto
  then have zero: "dropped st (Suc k) = 0" using Suc.hyps(1) by blast
  have "book_after st (Suc k) \<noteq> None" "book_after st k \<noteq> None"
    by (rule book_after_prefix [OF _ assms(1)], use k(2) in simp)+
  from dropped_step [OF this(1)] dropped_le [OF this(2)] show ?case
  proof (elim disjE)
    assume "dropped st (Suc k) = dropped st k + 1"
    with zero have "dropped st k = - 1" by (simp add: eq_neg_iff_add_eq_0)
    then have "unat (dropped st k) = 2 ^ 64 - 1"
      by (simp add: unsigned_minus_1_eq_mask mask_eq_exp_minus_1)
    with \<open>unat (dropped st k) \<le> k\<close> k(2) assms(2) show ?thesis by simp
  qed (use zero in simp)
qed

subsection \<open>The stream's messages on both books\<close>

lemma model_run_append:
  "model_run (xs @ ys) orders book = do { (orders1, book1) \<leftarrow> model_run xs orders book; model_run ys orders1 book1 }"
  by (induction xs arbitrary: orders book) (auto split: bind_splits)

lemma model_run_stream:
  assumes "book_after st n \<noteq> None" "n < 2 ^ 63" "dropped st n = 0"
  shows "k \<le> n \<Longrightarrow> model_run (map (message_bytes st) [0..<k]) (table_new (is_order_capacity st)) book_new = book_after st k"
proof (induction k)
  case (Suc k)
  have after: "book_after st (Suc k) \<noteq> None" by (rule book_after_prefix [OF Suc.prems assms(1)])
  then obtain orders book orders' book' where b: "book_after st k = Some (orders, book)"
    "apply_event (decoded (message_bytes st k)) orders book = Some (True, orders', book')"
    "book_after st (Suc k) = Some (orders', book')"
    by (auto split: bind_splits if_splits)
  have "dropped st k = 0" "dropped st (Suc k) = 0"
    using none_dropped [OF assms] Suc.prems by simp_all
  then have "ob_overflow book' = ob_overflow book" by (simp add: dropped_def b(1,3) del: book_after.simps)
  moreover have "model_run (map (message_bytes st) [0..<k]) (table_new (is_order_capacity st)) book_new = Some (orders, book)"
    using Suc b(1) by simp
  ultimately show ?case using b(2,3) by (simp only: upt_Suc_append [OF le0] map_append model_run_append) simp
qed simp

lemma stream_messages:
  assumes "stream_inv opts sel p" "k \<le> is_count (p2_stream p)"
  shows "map (message_bytes (p2_stream p)) [0..<k] = take k sel"
    and "is_count (p2_stream p) = min (op_messages opts) (length sel)"
  using assms stream_inv_message(1) [OF assms(1)] stream_inv_count [OF assms(1)]
  by (auto intro!: nth_equalityI)

text \<open>The promised quotes: the best levels of the full-depth book.\<close>

lemma expected_quotes_agree:
  assumes "walk data walker_new = (ms, w)" "length data \<le> 2 ^ 33" "op_messages opts \<le> model_capacity"
    and "pass2_run opts locate ms pass2_new = Some p2"
    and "\<forall>m \<in> set (filter (followed locate) ms). 0 \<le> sint (ev_shares (decoded m)) \<and> 0 \<le> sint (price_ticks (decoded m))"
    and "book_after (p2_stream p2) (Suc k) = Some (orders, book)" "ob_overflow book = 0"
    and "k < is_count (p2_stream p2)"
  shows "let q = expected_quote (p2_stream p2) k; R = book_at (filter (followed locate) ms) k in
    fb_unknown R = 0
    \<and> (bq_bid_price q, bq_bid_qty q)
       = (case highest (fb_bids R) of None \<Rightarrow> (0, 0) | Some (p, m) \<Rightarrow> (word_of_int p, word_of_int m))
    \<and> (bq_ask_price q, bq_ask_qty q)
       = (case lowest (fb_asks R) of None \<Rightarrow> (max_i32, 0) | Some (p, m) \<Rightarrow> (word_of_int p, word_of_int m))"
proof -
  let ?sel = "filter (followed locate) ms" and ?st = "p2_stream p2"
  have inv: "stream_inv opts ?sel p2" using replay_pass2_inv [OF assms(1-3), of locate] assms(4) by auto
  have k: "Suc k \<le> is_count ?st" using assms(8) by simp
  have "is_count ?st \<le> model_capacity" using stream_messages(2) [OF inv le0] assms(3) by simp
  with k have n: "Suc k < 2 ^ 63" by (simp add: model_capacity_def)
  have "dropped ?st (Suc k) = 0" "book_after ?st (Suc k) \<noteq> None"
    unfolding dropped_def assms(6) using assms(7) by simp_all
  from model_run_stream [OF this(2) n this(1) order_refl] stream_messages(1) [OF inv k] assms(6)
  have model: "model_run (take (Suc k) ?sel) (table_new (is_order_capacity ?st)) book_new = Some (orders, book)"
    by (simp only:)
  have "\<forall>m \<in> set (take (Suc k) ?sel). mild_message m"
    using assms(5) walk_messages(1) [OF assms(1,2)] followed_wf(1)
    by (auto simp: mild_message_def dest!: in_set_takeD)
  moreover have "upright book_new"
    using same_book_new [of "is_order_capacity ?st"] by (auto simp: upright_def book_view_def book_new_def)
  ultimately obtain R where R: "real_run (take (Suc k) ?sel) real_new = Some R" "same_book orders book R" "upright book"
    using same_run [OF same_book_new _ _ model] by blast
  have "expected_quote ?st k = quote_of max_i32 book"
    using inv assms(6) by (simp add: expected_quote_def stream_inv_def Let_def del: book_after.simps)
  moreover have "book_at ?sel k = R" using R(1) by (simp add: book_at_def)
  moreover have "fb_unknown R = 0" using R(2) by (simp add: same_book_def)
  ultimately show ?thesis
    using highest_real [OF R(2,3)] lowest_real [OF R(2,3)] by (simp add: quote_of_def Let_def)
qed

subsection \<open>The book of the pipeline\<close>

text \<open>Only the book stage changes the book; in a cycle its counter of dropped adds grows by at most one.\<close>

lemma book_fail_if [simp]: "tt_book (fail_if c p) = tt_book p" "tt_book (set_state i s p) = tt_book p"
  by (simp_all add: fail_if_def set_state_def)

lemma post_decision_book: "post_decision st c p = Some p' \<Longrightarrow> tt_book p' = tt_book p"
  by (auto simp: post_decision_def split: bind_splits prod.splits)

lemma front_book:
  "dma_stage st c p = Some p' \<Longrightarrow> tt_book p' = tt_book p"
  "ofi_stage_step c p = Some p' \<Longrightarrow> tt_book p' = tt_book p"
  "read_stage c p = Some (b, p') \<Longrightarrow> tt_book p' = tt_book p"
  by (auto simp: dma_stage_def ofi_stage_step_def read_stage_def Let_def dest!: post_decision_book
      split: bind_splits prod.splits if_splits option.splits)

lemma parse_book: "parse_stage c p = Some p' \<Longrightarrow> tt_book p' = tt_book p"
  by (auto simp: parse_stage_def Let_def split: bind_splits prod.splits if_splits)

lemma mac_book: "mac_stage c p = Some p' \<Longrightarrow> tt_book p' = tt_book p"
proof -
  have "tt_book p1 = tt_book p" if "mac_send c p = Some p1" for p1
    using that by (auto simp: mac_send_def Let_def split: bind_splits prod.splits if_splits)
  then show "mac_stage c p = Some p' \<Longrightarrow> tt_book p' = tt_book p"
    by (auto simp: mac_stage_def split: bind_splits if_splits)
qed

lemma pcs_book: "pcs_stage st c p = Some p' \<Longrightarrow> tt_book p' = tt_book p"
proof -
  have "tt_book p1 = tt_book p" if "pcs_pick st c p = Some p1" for p1
    using that by (auto simp: pcs_pick_def Let_def split: bind_splits prod.splits if_splits)
  then show "pcs_stage st c p = Some p' \<Longrightarrow> tt_book p' = tt_book p"
    by (fastforce simp: pcs_stage_def Let_def split: bind_splits prod.splits if_splits)
qed

lemma negedge_book: "tick_negedge c p = Some p' \<Longrightarrow> tt_book p' = tt_book p"
proof -
  have "tt_book p1 = tt_book p" if "ram_response c p = Some p1" for p p1
    using that by (auto simp: ram_response_def Let_def split: bind_splits prod.splits if_splits option.splits)
  moreover have "tt_book p1 = tt_book p" if "ofi_output p = Some p1" for p p1
    using that by (auto simp: ofi_output_def Let_def split: bind_splits prod.splits if_splits option.splits bool.splits)
  ultimately show "tick_negedge c p = Some p' \<Longrightarrow> tt_book p' = tt_book p"
    by (fastforce simp: tick_negedge_def split: bind_splits if_splits)
qed

lemma book_stage_overflow:
  assumes "book_stage st c p = Some (a, p')"
  shows "ob_overflow (tt_book p') = ob_overflow (tt_book p) \<or> ob_overflow (tt_book p') = ob_overflow (tt_book p) + 1"
  using assms
  by (auto simp: book_stage_def apply_to_book_def Let_def dest!: event_overflow split: bind_splits prod.splits if_splits)

lemma cycle_overflow:
  assumes "tick_cycle st c p = Some p'"
  shows "ob_overflow (tt_book p') = ob_overflow (tt_book p) \<or> ob_overflow (tt_book p') = ob_overflow (tt_book p) + 1"
  using assms
  by (auto simp: tick_cycle_def tick_posedge_def ram_posedge_def
      dest!: negedge_book front_book parse_book mac_book pcs_book book_stage_overflow split: bind_splits prod.splits if_splits)

text \<open>
  In every reachable state the book that decides on dropped adds is that after some number of messages,
  at least those whose decisions are posted; a failing cycle may leave it in a later state.
\<close>

definition counted_to :: "itch_stream \<Rightarrow> tick_pipeline \<Rightarrow> nat \<Rightarrow> bool" where
  "counted_to st p n \<longleftrightarrow> book_after st n \<noteq> None \<and> n \<le> is_count st \<and> tt_completed p \<le> n
     \<and> (ob_overflow (tt_book p) = 0 \<longrightarrow> dropped st n = 0)"

lemma passed_bounds: "passed st d t \<le> is_count st" "d' + a \<le> d + b \<Longrightarrow> passed st d (a + t) \<le> passed st d' (b + t)"
proof -
  have "card {k. k < is_count st \<and> received st k + d < t} \<le> card {..<is_count st}" by (intro card_mono) auto
  then show "passed st d t \<le> is_count st" by (simp add: passed_def)
  show "d' + a \<le> d + b \<Longrightarrow> passed st d (a + t) \<le> passed st d' (b + t)"
    unfolding passed_def by (intro card_mono) auto
qed

lemma reach_counted:
  assumes sz: "sized_stream st" and small: "is_count st < 2 ^ 63"
  shows "tick_reach st t p \<Longrightarrow> \<exists>n. counted_to st p n"
proof (induction rule: tick_reach.induct)
  case start
  show ?case by (intro exI [of _ 0]) (simp add: counted_to_def tick_new_def dropped_def)
next
  case (cycle t p p')
  note reach = tick_reach.cycle [OF cycle.hyps]
  note run = tick_reach_state [OF cycle.hyps(1) sz] and run' = tick_reach_state [OF reach sz]
  show ?case
  proof (cases "tt_error p")
    case True
    then obtain ram dsp where "p' = p\<lparr>tt_bram := ram, tt_ofi := dsp\<rparr>"
      using tick_cycle_error [of p st "of_nat t"] cycle.hyps(3) by auto
    then show ?thesis using cycle.IH by (simp add: counted_to_def)
  next
    case False
    then have inv: "tick_inv st t p" using run by (auto simp: run_state_def halted_def split: option.splits if_splits)
    define n where "n = passed st 3 t"
    have book: "book_after st n = Some (tt_orders p, tt_book p)" using inv by (simp add: tick_inv_def book_part_def n_def)
    then have after: "book_after st n \<noteq> None" and same: "dropped st n = ob_overflow (tt_book p)"
      by (simp_all add: dropped_def)
    have n: "n \<le> is_count st" by (simp add: n_def passed_bounds)
    have "active_cycles st (Suc t) \<le> Suc t" by (simp add: active_cycles_def split: option.split)
    then have "passed st 9 (active_cycles st (Suc t)) \<le> passed st 9 (Suc t)" unfolding passed_def by (intro card_mono) auto
    also have "\<dots> \<le> n" using passed_bounds(2) [of 3 1 9 0 st t] by (simp add: n_def)
    finally have "tt_completed p' \<le> n" using run_state_reports(2) [OF sz run'] by simp
    moreover have "ob_overflow (tt_book p) = 0" if zero: "ob_overflow (tt_book p') = 0"
    proof -
      have "ob_overflow (tt_book p) + 1 \<noteq> 0"
      proof
        assume "ob_overflow (tt_book p) + 1 = 0"
        then have "ob_overflow (tt_book p) = - 1" by (simp add: eq_neg_iff_add_eq_0)
        then have "unat (ob_overflow (tt_book p)) = 2 ^ 64 - 1"
          by (simp add: unsigned_minus_1_eq_mask mask_eq_exp_minus_1)
        then show False using dropped_le [OF after] n small by (simp add: same)
      qed
      with cycle_overflow [OF cycle.hyps(3)] zero show ?thesis by auto
    qed
    ultimately show ?thesis using after n same by (intro exI [of _ n]) (simp add: counted_to_def)
  qed
qed

text \<open>The end of the replay of a file of one message.\<close>

lemma sample_finished_state:
  "\<exists>p2 t p. pass2_run default_options 0 [sample_add] pass2_new = Some p2 \<and> tick_reach (p2_stream p2) t p
    \<and> ob_overflow (tt_book p) = 0 \<and> tt_completed p = 1"
proof -
  obtain n where w: "walk (frame sample_add) walker_new = ([sample_add], \<lparr>wk_offset = n, wk_stop = Stop_End\<rparr>)"
    using sample_walk(1) by blast
  obtain p2 orders book where p2: "pass2_run default_options 0 [sample_add] pass2_new = Some p2"
    and book: "book_after (p2_stream p2) (Suc 0) = Some (orders, book)" "ob_overflow book = 0"
    using sample_pass2 by (auto simp del: book_after.simps)
  from p2 sample_replay have fine: "is_count (p2_stream p2) = 1" "first_fault (p2_stream p2) = None"
    "finish (p2_stream p2) \<le> message_arrival (p2_stream p2) 0 + 100000" by auto
  let ?st = "p2_stream p2"
  have cap: "op_messages default_options \<le> model_capacity" by (simp add: default_options_def)
  have inv: "stream_inv default_options [sample_add] p2"
    using replay_pass2_inv [OF w sample_walk(2) cap, of 0] p2 by (simp add: sample_add_facts)
  have "\<forall>m \<in> set [sample_add]. wf_message m" using sample_orders_decoded(1) by (simp add: sample_add_def)
  note sz = replay_stream_sized(1) [OF inv this]
  have "message_arrival ?st 0 < 2 ^ 33" using stream_inv_arrival(1) [OF inv cap, of 0] fine(1) by simp
  then have t: "finish ?st \<le> 2 ^ 64" using fine(3) by simp
  have "\<forall>t < finish ?st. clear_at ?st t" using clear_before_stop [OF sz _ , of "finish ?st"] fine(2) by blast
  then obtain p where p: "tick_cycles ?st (finish ?st) = Some p" "tick_inv ?st (finish ?st) p"
    using tick_cycles_inv [OF sz t] by blast
  have "received ?st 0 + 9 < finish ?st" using fine(1) by (simp add: finish_def)
  then have all: "{k. k < is_count ?st \<and> received ?st k + d < finish ?st} = {0}" if "d \<le> 9" for d using fine(1) that by auto
  then have "passed ?st d (finish ?st) = 1" if "d \<le> 9" for d using that by (simp add: passed_def)
  then have one: "passed ?st 9 (finish ?st) = 1" "passed ?st 3 (finish ?st) = Suc 0" by simp_all
  have "tt_completed p = 1" using tick_inv_reports(2) [OF sz p(2)] one(1) by simp
  moreover have "book_after ?st (Suc 0) = Some (tt_orders p, tt_book p)"
    using p(2) one(2) by (simp only: tick_inv_def book_part_def)
  then have "tt_book p = book" using book(1) by (simp only: option.inject prod.inject)
  then have "ob_overflow (tt_book p) = 0" using book(2) by simp
  moreover have "tick_reach ?st (finish ?st) p" using tick_reach_cycles [OF t] p(1) by blast
  ultimately show ?thesis using p2 by blast
qed

lemma sint_below: "unat w < 2 ^ 31 \<Longrightarrow> 0 \<le> sint (w :: i32)"
proof -
  assume "unat w < 2 ^ 31"
  then have "uint w < 2 ^ 31" by (metis of_nat_less_iff of_nat_numeral of_nat_power uint_nat)
  then have "sint w = uint w" unfolding sint_uint
    by (intro signed_take_bit_int_eq_self order_trans [OF _ uint_ge_0]) simp_all
  then show ?thesis by simp
qed

text \<open>
  C7. The quotes of a replay. Let the share counts and prices of the messages of the followed stock be
  below \<open>2 ^ 31\<close>, and take any state the pipeline reaches on the stream the tool builds of them, after
  a failure too, in which it has dropped no add. For each decision posted so far, the quote the pipeline
  holds for it, as it came back from the quote RAM (bid and ask price and quantity, with the conventions for an
  empty side), is the best level of each side of the full-depth book the tool rebuilds up to that message, which
  has met no unknown reference so far.
\<close>

theorem replay_quotes_agree:
  assumes "walk data walker_new = (ms, w)" "length data \<le> 2 ^ 33" "op_messages opts \<le> model_capacity"
    and "pass2_run opts locate ms pass2_new = Some p2"
    and "\<forall>m \<in> set (filter (followed locate) ms).
      unat (ev_shares (decoded m)) < 2 ^ 31 \<and> unat (price_ticks (decoded m)) < 2 ^ 31"
    and "tick_reach (p2_stream p2) t p" "ob_overflow (tt_book p) = 0" "k < tt_completed p"
  shows "let q = ms_quote (tt_state p ! k); R = book_at (filter (followed locate) ms) k in
    fb_unknown R = 0
    \<and> (bq_bid_price q, bq_bid_qty q)
       = (case highest (fb_bids R) of None \<Rightarrow> (0, 0) | Some (p, m) \<Rightarrow> (word_of_int p, word_of_int m))
    \<and> (bq_ask_price q, bq_ask_qty q)
       = (case lowest (fb_asks R) of None \<Rightarrow> (max_i32, 0) | Some (p, m) \<Rightarrow> (word_of_int p, word_of_int m))"
proof -
  let ?sel = "filter (followed locate) ms" and ?st = "p2_stream p2"
  have inv: "stream_inv opts ?sel p2" using replay_pass2_inv [OF assms(1-3), of locate] assms(4) by auto
  have wf: "\<forall>m \<in> set ?sel. wf_message m" using walk_messages(1) [OF assms(1,2)] followed_wf(1) by auto
  note sz = replay_stream_sized(1) [OF inv wf]
  have "is_count ?st \<le> model_capacity" using stream_messages(2) [OF inv le0] assms(3) by simp
  then have small: "is_count ?st < 2 ^ 63" by (simp add: model_capacity_def)
  obtain n where n: "counted_to ?st p n" using reach_counted [OF sz small assms(6)] by blast
  then have after: "book_after ?st n \<noteq> None" "n < 2 ^ 63" "dropped ?st n = 0" and k: "Suc k \<le> n" "Suc k \<le> is_count ?st"
    using assms(7,8) small by (auto simp: counted_to_def)
  have "book_after ?st (Suc k) \<noteq> None" by (rule book_after_prefix [OF k(1) after(1)])
  then obtain orders book where book: "book_after ?st (Suc k) = Some (orders, book)" by (cases "book_after ?st (Suc k)") auto
  have zero: "ob_overflow book = 0" using none_dropped [OF after k(1)] by (simp add: dropped_def book del: book_after.simps)
  have mild: "\<forall>m \<in> set ?sel. 0 \<le> sint (ev_shares (decoded m)) \<and> 0 \<le> sint (price_ticks (decoded m))"
    using assms(5) sint_below by blast
  have "tt_completed p = passed ?st 9 (active_cycles ?st t)" and
    held: "ms_quote (tt_state p ! k) = expected_quote ?st k"
    using run_state_reports(2,5) [OF sz tick_reach_state [OF assms(6) sz]] assms(8) by simp_all
  have "k < is_count ?st" using k(2) by simp
  from expected_quotes_agree [OF assms(1-4) mild book zero this] show ?thesis by (simp only: held)
qed

theorem replay_quotes_agree_witness:
  "\<exists>p2 t p. pass2_run default_options 0 [sample_add] pass2_new = Some p2 \<and> tick_reach (p2_stream p2) t p
    \<and> tt_completed p = 1 \<and> fb_unknown (book_at [sample_add] 0) = 0
    \<and> (bq_bid_price (ms_quote (tt_state p ! 0)), bq_bid_qty (ms_quote (tt_state p ! 0)))
       = (case highest (fb_bids (book_at [sample_add] 0)) of
            None \<Rightarrow> (0, 0) | Some (p, m) \<Rightarrow> (word_of_int p, word_of_int m))"
proof -
  obtain n where w: "walk (frame sample_add) walker_new = ([sample_add], \<lparr>wk_offset = n, wk_stop = Stop_End\<rparr>)"
    using sample_walk(1) by blast
  obtain p2 t p where p2: "pass2_run default_options 0 [sample_add] pass2_new = Some p2"
    and reach: "tick_reach (p2_stream p2) t p" "ob_overflow (tt_book p) = 0" "tt_completed p = 1"
    using sample_finished_state by blast
  have sel: "filter (followed 0) [sample_add] = [sample_add]" by (simp add: sample_add_facts)
  have cap: "op_messages default_options \<le> model_capacity" by (simp add: default_options_def)
  have mild: "\<forall>m \<in> set (filter (followed 0) [sample_add]).
      unat (ev_shares (decoded m)) < 2 ^ 31 \<and> unat (price_ticks (decoded m)) < 2 ^ 31"
    by (simp add: sel sample_add_facts sample_bid_def event_empty_def)
  have "0 < tt_completed p" using reach(3) by simp
  from replay_quotes_agree [OF w sample_walk(2) cap p2 mild reach(1,2) this] p2 reach show ?thesis
    unfolding sel Let_def by blast
qed

end
