(* ===== verification/Replay_Print.thy ===== *)
theory Replay_Print
  imports Replay_End Demo_Print
begin

text \<open>
  What the replay tool prints: the lines of its report, as far as a run comes, the accuracy of the
  percentages and times in it, and a reader that gives the values of the report back.
\<close>

subsection \<open>The lines\<close>

text \<open>A string with \<open>%s\<close>: up to the first null character.\<close>

definition c_string :: "string \<Rightarrow> string" where
  "c_string s = takeWhile (\<lambda>c. c \<noteq> CHR 0x00) s"

definition stop_name :: "walk_stop \<Rightarrow> string" where
  "stop_name s = (case s of Stop_End \<Rightarrow> ''clean end''
     | Truncated_Tail \<Rightarrow> ''truncated final message (slice boundary)'' | Bad_Framing \<Rightarrow> ''BAD FRAMING'')"

definition input_lines :: "nat \<Rightarrow> pass1 \<Rightarrow> walk_stop \<Rightarrow> string list" where
  "input_lines bytes p1 stop =
     [''fpga-sim-itch-replay: REAL NASDAQ TotalView-ITCH 5.0 messages (not synthetic)'',
      ''input: '' @ decimal bytes @ '' bytes of decompressed ITCH; '' @ decimal (unat (p1_total p1))
        @ '' messages parsed; framing stop: '' @ stop_name stop]"

text \<open>A time in nanoseconds, printed in seconds; a percentage.\<close>

definition seconds_of :: "u64 \<Rightarrow> double" where
  "seconds_of t = double_over (double_of (unat t)) (double_of 1000000000)"

definition seconds :: "u64 \<Rightarrow> string" where
  "seconds t = fixed 3 (seconds_of t)"

definition percent_of :: "u64 \<Rightarrow> u64 \<Rightarrow> double" where
  "percent_of n whole = double_over (double_times (double_of 100) (double_of (unat n))) (double_of (unat whole))"

definition percent :: "u64 \<Rightarrow> u64 \<Rightarrow> string" where
  "percent n whole = fixed 2 (percent_of n whole)"

definition time_line :: "pass1 \<Rightarrow> string" where
  "time_line p1 = ''message timestamps in slice: '' @ seconds (p1_last p1 - p1_first p1)
     @ '' s of exchange time since midnight (first '' @ seconds (p1_first p1) @ '' s, last ''
     @ seconds (p1_last p1) @ '' s)''"

definition mix_row :: "u64 \<Rightarrow> u8 \<times> u64 \<Rightarrow> string" where
  "mix_row whole = (\<lambda>(t, n).
     ''  '' @ [char_of (unat t)] @ ''  '' @ pad_right 28 (type_name t) @ '' '' @ pad_left 12 (decimal (unat n))
     @ ''  '' @ pad_left 6 (percent n whole) @ ''%'')"

definition peak_line :: "u64 \<Rightarrow> string" where
  "peak_line n = ''busiest 1 ms of exchange time: '' @ decimal (unat n) @ '' messages across all symbols''"

text \<open>The rows of the mix in the order \<open>std::sort\<close> leaves them in, which \<open>arrange\<close> stands for.\<close>

definition mix_lines :: "((u8 \<times> u64) list \<Rightarrow> (u8 \<times> u64) list) \<Rightarrow> pass1 \<Rightarrow> string list" where
  "mix_lines arrange p1 =
     [time_line p1, '''', ''message mix (all symbols):''] @ map (mix_row (p1_total p1)) (arrange (p1_mix p1))
     @ [peak_line (peak_ms p1)]"

definition stock_lines :: "u16 \<Rightarrow> pass1 \<Rightarrow> string list" where
  "stock_lines locate p1 =
     ['''', ''stock followed by the single-symbol book and model: '' @ c_string (symbol_of locate p1)
        @ '' (stock locate '' @ decimal (unat locate) @ ''; ''
        @ decimal (unat (case map_of (p1_adds p1) locate of None \<Rightarrow> 0 | Some n \<Rightarrow> n)) @ '' add orders in the slice)'']"

text \<open>\<open>print_series\<close>.\<close>

definition series_line :: "string \<Rightarrow> u64 \<times> u64 \<times> u64 \<times> u64 \<Rightarrow> string" where
  "series_line label = (\<lambda>(a, b, c, d).
     ''  '' @ pad_right 22 label @ '' min '' @ decimal (unat a) @ ''  median '' @ decimal (unat b)
     @ ''  p99 '' @ decimal (unat c) @ ''  max '' @ decimal (unat d))"

definition book_lines :: "string \<Rightarrow> (u64 \<times> u64 \<times> u64 \<times> u64) list \<Rightarrow> pass2 \<Rightarrow> string list" where
  "book_lines symbol ser p2 =
     ['''', ''real order book for '' @ symbol @ '' over the slice ('' @ decimal (unat (p2_msgs p2))
        @ '' book-changing messages, full depth, rebuilt from the messages):'']
     @ map2 series_line [''bid price levels'', ''ask price levels'', ''resting orders''] ser
     @ [''  after '' @ percent (p2_over5 p2) (p2_msgs p2) @ ''% of messages either side held more than the model''
          @ [CHR 0x27] @ ''s '' @ decimal levels @ '' levels'',
        ''  messages referencing an order not seen in the slice: '' @ decimal (unat (fb_unknown (p2_book p2)))]"

definition model_lines :: "string \<Rightarrow> replay_options \<Rightarrow> nat \<Rightarrow> string list" where
  "model_lines symbol opts n =
     ['''', ''cycle model on the first '' @ decimal n @ '' messages of '' @ symbol
        @ '' (arrival times from the real timestamps; idle gaps capped at '' @ decimal (unat (op_gap_cap opts)) @ '' cycles):'']"

definition stopped_line :: "nat \<Rightarrow> nat \<Rightarrow> string" where
  "stopped_line completed n =
     ''  model stopped after '' @ decimal completed @ '' of '' @ decimal n
     @ '' messages (a stage reported an error, e.g. a reference it could not resolve)''"

definition row_text :: "nat \<times> nat \<times> u32 \<Rightarrow> string" where
  "row_text = (\<lambda>(lo, hi, n).
     ''  '' @ pad_left 3 (decimal lo) @ ''-'' @ pad_left 3 (decimal hi) @ '' cycles '' @ pad_left 6 (decimal (unat n)))"

text \<open>The messages replayed, by type.\<close>

definition item_text :: "u8 \<times> nat \<Rightarrow> string" where
  "item_text = (\<lambda>(t, n). '' '' @ [char_of (unat t)] @ ''='' @ decimal n)"

definition result_lines :: "replay_report \<Rightarrow> string list" where
  "result_lines rep =
     [''  messages replayed:''
        @ concat (map item_text (rr_model_mix rep)),
      ''  simulated cycles run: '' @ decimal (unat (rr_cycles rep)),
      ''tick-to-trade latency, SIMULATED CYCLES on real messages (not a hardware measurement):'']
     @ map2 cycles_text [''min'', ''median'', ''p99'', ''max''] (rr_lines rep)
     @ [''histogram (2-cycle bins, last bin includes overflow):'']
     @ map row_text (rr_rows rep)
     @ [''model order book ('' @ decimal levels @ '' levels) adds dropped because a side was full: ''
          @ decimal (unat (rr_dropped rep))]"

definition end_lines :: "replay_end \<Rightarrow> string list" where
  "end_lines r = (case r of Model_Stopped completed n \<Rightarrow> [stopped_line completed n]
     | Replayed rep \<Rightarrow> result_lines rep | _ \<Rightarrow> [])"

text \<open>The exit status and the lines printed to the standard output: each early return ends the report
  where it is.\<close>

definition replay_print ::
  "((u8 \<times> u64) list \<Rightarrow> (u8 \<times> u64) list) \<Rightarrow> string list \<Rightarrow> u8 list \<Rightarrow> (nat \<times> string list) option" where
  "replay_print arrange args data =
     (case parse_options args default_options of
        None \<Rightarrow> Some (2, [])
      | Some opts \<Rightarrow>
          let (ms, w) = walk data walker_new;
              p1 = foldl pass1_step pass1_new ms;
              out1 = input_lines (length data) p1 (wk_stop w)
          in if wk_stop w = Bad_Framing then Some (1, out1)
          else
            let out2 = out1 @ mix_lines arrange p1 in
            (case choose_stock (op_symbol opts) p1 of
               None \<Rightarrow> Some (1, out2)
             | Some locate \<Rightarrow> do {
                 let out3 = out2 @ stock_lines locate p1;
                 let symbol = c_string (symbol_of locate p1);
                 p2 \<leftarrow> pass2_run opts locate ms pass2_new;
                 if p2_msgs p2 = 0 then Some (1, out3)
                 else do {
                   bids \<leftarrow> series (p2_bid_levels p2);
                   asks \<leftarrow> series (p2_ask_levels p2);
                   orders \<leftarrow> series (p2_orders p2);
                   let out4 = out3 @ book_lines symbol [bids, asks, orders] p2;
                   r \<leftarrow> replay_model p1 locate [bids, asks, orders] p2;
                   Some (exit_status r, out4 @ model_lines symbol opts (is_count (p2_stream p2)) @ end_lines r) } }))"

text \<open>It ends as \<open>replay_main\<close> says.\<close>

lemma replay_print_status:
  "map_option fst (replay_print arrange args data) = map_option exit_status (replay_main args data)"
  unfolding replay_print_def replay_main_def Let_def
  by (auto split: option.splits prod.splits bind_splits if_splits)

subsection \<open>A reader\<close>

text \<open>Everything the report says but the numbers with decimals, which are read in units of their last decimal:
  hundredths of a percent and milliseconds.\<close>

record replay_summary =
  rs_bytes :: nat
  rs_total :: u64
  rs_stop :: walk_stop
  rs_mix :: "(u8 \<times> u64) list"
  rs_peak :: u64
  rs_symbol :: string
  rs_locate :: u16
  rs_adds :: u64
  rs_msgs :: u64
  rs_series :: "(u64 \<times> u64 \<times> u64 \<times> u64) list"
  rs_unknown :: u64
  rs_count :: nat
  rs_gap_cap :: u64
  rs_model_mix :: "(u8 \<times> nat) list"
  rs_cycles :: u64
  rs_times :: "(u32 \<times> u64 \<times> u64) list"
  rs_rows :: "(nat \<times> nat \<times> u32) list"
  rs_dropped :: u64

record replay_fractions =
  fr_span :: nat
  fr_first :: nat
  fr_last :: nat
  fr_percents :: "nat list"
  fr_over5 :: nat

text \<open>What follows the last opening parenthesis of a line; before it there may be a stock symbol.\<close>

definition after_paren :: "string \<Rightarrow> string" where
  "after_paren l = rev (takeWhile (\<lambda>c. c \<noteq> CHR ''('') (rev l))"

definition stock_heading :: string where
  "stock_heading = ''stock followed by the single-symbol book and model: ''"

definition read_symbol :: "string \<Rightarrow> string" where
  "read_symbol l = drop (length stock_heading) (take (length l - (length (after_paren l) + 2)) l)"

definition read_stop :: "string \<Rightarrow> walk_stop" where
  "read_stop l = (if drop (length l - 9) l = ''clean end'' then Stop_End else Truncated_Tail)"

definition read_span :: "string \<Rightarrow> (nat \<times> nat \<times> nat) option" where
  "read_span l = (case integers l of
     [a, b, c, d, e, f] \<Rightarrow> Some (joined 3 a b, joined 3 c d, joined 3 e f) | _ \<Rightarrow> None)"

definition read_mix :: "string \<Rightarrow> ((u8 \<times> u64) \<times> nat) option" where
  "read_mix l = (case integers (drop 34 l) of
     [n, w, f] \<Rightarrow> Some ((of_char (l ! 2), of_int n), joined 2 w f) | _ \<Rightarrow> None)"

definition read_series :: "string \<Rightarrow> (u64 \<times> u64 \<times> u64 \<times> u64) option" where
  "read_series l = (case integers (drop 24 l) of
     [a, b, _, c, d] \<Rightarrow> Some (of_int a, of_int b, of_int c, of_int d) | _ \<Rightarrow> None)"

function read_items :: "string \<Rightarrow> (u8 \<times> nat) list" where
  "read_items (a # t # b # s) = (of_char t, undecimal (takeWhile is_digit s)) # read_items (dropWhile is_digit s)"
| "read_items [] = []"
| "read_items [a] = []"
| "read_items [a, b] = []"
  by pat_completeness auto

termination
proof (relation "measure length")
  show "(dropWhile is_digit s, a # t # b # s) \<in> measure length" for a t b s
    using length_dropWhile_le [of is_digit s] by simp
qed simp

definition read_row :: "string \<Rightarrow> (nat \<times> nat \<times> u32) option" where
  "read_row l = (case integers (map (\<lambda>c. if c = CHR ''-'' then CHR '' '' else c) l) of
     [lo, hi, n] \<Rightarrow> Some (nat lo, nat hi, of_int n) | _ \<Rightarrow> None)"

definition read_replay :: "string list \<Rightarrow> (replay_summary \<times> replay_fractions) option" where
  "read_replay ls =
     (let mix = takeWhile (\<lambda>l. take 7 l \<noteq> ''busiest'') (drop 5 ls); rest = drop (5 + length mix) ls in
      if length rest < 21 then None
      else do {
        mix' \<leftarrow> those (map read_mix mix);
        (span, first, last_ts) \<leftarrow> read_span (ls ! 2);
        ser \<leftarrow> those (map read_series (take 3 (drop 5 rest)));
        times \<leftarrow> those (map read_cycles (take 4 (drop 15 rest)));
        rows \<leftarrow> those (map read_row (butlast (drop 20 rest)));
        case (integers (ls ! 1), integers (rest ! 0), integers (after_paren (rest ! 2)), integers (after_paren (rest ! 4)),
              integers (rest ! 8), integers (rest ! 9), integers (rest ! 11), integers (after_paren (rest ! 11)),
              integers (rest ! 13), integers (last rest)) of
          ([bytes, total'], [_, peak], [locate, adds], [msgs], [w, f, _], [unknown], n # _, [cap], [cycles], [_, dropped]) \<Rightarrow>
            Some (\<lparr>rs_bytes = nat bytes, rs_total = of_int total', rs_stop = read_stop (ls ! 1), rs_mix = map fst mix',
              rs_peak = of_int peak, rs_symbol = read_symbol (rest ! 2), rs_locate = of_int locate, rs_adds = of_int adds,
              rs_msgs = of_int msgs, rs_series = ser, rs_unknown = of_int unknown, rs_count = nat n,
              rs_gap_cap = of_int cap, rs_model_mix = read_items (drop 20 (rest ! 12)), rs_cycles = of_int cycles,
              rs_times = times, rs_rows = rows, rs_dropped = of_int dropped\<rparr>,
            \<lparr>fr_span = span, fr_first = first, fr_last = last_ts, fr_percents = map snd mix', fr_over5 = joined 2 w f\<rparr>)
        | _ \<Rightarrow> None })"

text \<open>What the report of a finished run contains.\<close>

definition summary_of ::
  "((u8 \<times> u64) list \<Rightarrow> (u8 \<times> u64) list) \<Rightarrow> nat \<Rightarrow> walk_stop \<Rightarrow> u64 \<Rightarrow> replay_report \<Rightarrow> replay_summary" where
  "summary_of arrange bytes stop cap rep =
     (let p1 = rr_pass1 rep; p2 = rr_pass2 rep in
      \<lparr>rs_bytes = bytes, rs_total = p1_total p1, rs_stop = stop, rs_mix = arrange (p1_mix p1), rs_peak = rr_peak_ms rep,
       rs_symbol = c_string (rr_symbol rep), rs_locate = rr_locate rep,
       rs_adds = (case map_of (p1_adds p1) (rr_locate rep) of None \<Rightarrow> 0 | Some n \<Rightarrow> n),
       rs_msgs = p2_msgs p2, rs_series = rr_series rep, rs_unknown = fb_unknown (p2_book p2),
       rs_count = is_count (p2_stream p2), rs_gap_cap = cap, rs_model_mix = rr_model_mix rep, rs_cycles = rr_cycles rep,
       rs_times = rr_lines rep, rs_rows = rr_rows rep, rs_dropped = rr_dropped rep\<rparr>)"

definition fractions_of :: "((u8 \<times> u64) list \<Rightarrow> (u8 \<times> u64) list) \<Rightarrow> replay_report \<Rightarrow> replay_fractions" where
  "fractions_of arrange rep =
     (let p1 = rr_pass1 rep; p2 = rr_pass2 rep in
      \<lparr>fr_span = units 3 (seconds_of (p1_last p1 - p1_first p1)), fr_first = units 3 (seconds_of (p1_first p1)),
       fr_last = units 3 (seconds_of (p1_last p1)),
       fr_percents = map (\<lambda>(t, n). units 2 (percent_of n (p1_total p1))) (arrange (p1_mix p1)),
       fr_over5 = units 2 (percent_of (p2_over5 p2) (p2_msgs p2))\<rparr>)"

subsection \<open>Reading the lines\<close>

lemma type_name_length: "length (type_name t) \<le> 28"
  by (simp add: type_name_def)

lemma after_paren_append: "CHR ''('' \<notin> set s \<Longrightarrow> after_paren (l @ CHR ''('' # s) = s"
  by (simp add: after_paren_def) (subst takeWhile_append2, auto)

lemma read_symbol_append: "CHR ''('' \<notin> set s \<Longrightarrow> read_symbol ((stock_heading @ y @ '' '') @ CHR ''('' # s) = y"
  unfolding read_symbol_def by (subst after_paren_append) simp_all

lemma decimal_paren: "CHR ''('' \<notin> set (decimal n)"
  by (rule decimal_other) (simp add: is_digit_def)

lemma of_char_of_byte: "ascii (char_of (unat t)) = t"
proof -
  have "unat t < 2 ^ LENGTH(8)" by (rule unsigned_less)
  then have "unat t mod 256 = unat t" by simp
  then have "of_nat (of_char (char_of (unat t))) = t" by simp
  then show ?thesis by (simp only: of_nat_of_char)
qed

lemma scan_percent [simp]:
  "scan False None (pad_left w (fixed k x) @ s) = int (units k x div 10 ^ k) # scan False (Some (units k x mod 10 ^ k)) s"
  by (simp add: pad_left_def scan_blanks)

lemma read_mix_row: "read_mix (mix_row whole (t, n)) = Some ((t, n), units 2 (percent_of n whole))"
proof -
  let ?a = "''  '' @ [char_of (unat t)] @ ''  '' @ pad_right 28 (type_name t) @ '' ''"
  let ?b = "pad_left 12 (decimal (unat n)) @ ''  '' @ pad_left 6 (percent n whole) @ ''%''"
  let ?u = "units 2 (percent_of n whole)"
  have row: "mix_row whole (t, n) = ?a @ ?b" by (simp add: mix_row_def)
  have "length ?a = 34" using type_name_length [of t] by (simp add: pad_right_def)
  then have "drop 34 (?a @ ?b) = ?b" by (metis append_eq_conv_conj)
  then have "integers (drop 34 (mix_row whole (t, n))) = [int (unat n), int (?u div 10 ^ 2), int (?u mod 10 ^ 2)]"
    unfolding row percent_def by (simp add: integers_def is_digit_def)
  moreover have "(of_char (mix_row whole (t, n) ! 2) :: u8) = t"
    using of_char_of_byte [of t] by (simp add: row eval_nat_numeral)
  ultimately show ?thesis by (simp only: read_mix_def list.case joined_units) simp
qed

lemma read_span_line:
  "read_span (time_line p1) = Some (units 3 (seconds_of (p1_last p1 - p1_first p1)), units 3 (seconds_of (p1_first p1)),
     units 3 (seconds_of (p1_last p1)))"
proof -
  let ?w = "\<lambda>t. int (units 3 (seconds_of t) div 10 ^ 3)" and ?f = "\<lambda>t. int (units 3 (seconds_of t) mod 10 ^ 3)"
  let ?d = "p1_last p1 - p1_first p1"
  have "integers (time_line p1) = [?w ?d, ?f ?d, ?w (p1_first p1), ?f (p1_first p1), ?w (p1_last p1), ?f (p1_last p1)]"
    unfolding time_line_def seconds_def integers_def by (simp add: is_digit_def)
  then show ?thesis by (simp only: read_span_def list.case joined_units)
qed

lemma read_items_end: "read_items (concat (map item_text xs)) = xs"
proof (induction xs)
  case (Cons x xs)
  obtain t n where x: "x = (t, n)" by (cases x)
  have stop: "takeWhile is_digit (concat (map item_text xs)) = []"
  proof (cases xs)
    case (Cons y ys)
    then show ?thesis by (cases y) (simp add: item_text_def is_digit_def)
  qed simp
  have ds: "\<And>c. c \<in> set (decimal n) \<Longrightarrow> is_digit c" by (rule decimal_digits)
  have "dropWhile is_digit (concat (map item_text xs)) = concat (map item_text xs)"
    using stop takeWhile_dropWhile_id [of is_digit "concat (map item_text xs)"] by simp
  then have "takeWhile is_digit (decimal n @ concat (map item_text xs)) = decimal n"
    "dropWhile is_digit (decimal n @ concat (map item_text xs)) = concat (map item_text xs)"
    using ds stop by (simp_all add: takeWhile_append2 dropWhile_append2)
  then show ?case using Cons.IH of_char_of_byte [of t] by (simp add: x item_text_def undecimal_decimal)
qed simp

lemma read_series_line: "length label \<le> 22 \<Longrightarrow> read_series (series_line label x) = Some x"
proof -
  assume label: "length label \<le> 22"
  obtain a b c d where x: "x = (a, b, c, d)" by (cases x)
  let ?a = "''  '' @ pad_right 22 label"
  let ?b = "'' min '' @ decimal (unat a) @ ''  median '' @ decimal (unat b) @ ''  p99 '' @ decimal (unat c) @ ''  max '' @ decimal (unat d)"
  have "length ?a = 24" using label by (simp add: pad_right_def)
  then have "drop 24 (?a @ ?b) = ?b" by (metis append_eq_conv_conj)
  moreover have "series_line label x = ?a @ ?b" by (simp add: series_line_def x)
  ultimately have "integers (drop 24 (series_line label x)) = [int (unat a), int (unat b), 99, int (unat c), int (unat d)]"
    by (simp add: integers_def is_digit_def)
  then show ?thesis by (simp add: read_series_def x)
qed

lemma read_row_text: "read_row (row_text x) = Some x"
proof -
  obtain lo hi n where x: "x = (lo, hi, n)" by (cases x)
  have "map (\<lambda>c. if c = CHR ''-'' then CHR '' '' else c) (pad_left w (decimal m)) = pad_left w (decimal m)" for w m
    using decimal_other [of "CHR ''-''" m] by (intro map_idI) (auto simp: pad_left_def is_digit_def)
  then have "integers (map (\<lambda>c. if c = CHR ''-'' then CHR '' '' else c) (row_text x)) = [int lo, int hi, int (unat n)]"
    by (simp add: x row_text_def integers_def is_digit_def)
  then show ?thesis by (simp add: read_row_def x)
qed

lemma read_input_line:
  "stop \<noteq> Bad_Framing \<Longrightarrow> integers (input_lines bytes p1 stop ! 1) = [int bytes, int (unat (p1_total p1))]"
  by (cases stop) (simp_all add: input_lines_def stop_name_def integers_def is_digit_def)

lemma drop_suffix: "length b = n \<Longrightarrow> drop (length (a @ b) - n) (a @ b) = b"
  by simp

lemma read_stop_line:
  assumes "stop \<noteq> Bad_Framing"
  shows "read_stop (input_lines bytes p1 stop ! 1) = stop"
proof -
  let ?a = "''input: '' @ decimal bytes @ '' bytes of decompressed ITCH; '' @ decimal (unat (p1_total p1))
        @ '' messages parsed; framing stop: ''"
  have "drop (length (?a @ stop_name stop) - 9) (?a @ stop_name stop)
      = (if stop = Stop_End then ''clean end'' else ''boundary)'')"
  proof (cases stop)
    case Stop_End
    then show ?thesis using drop_suffix [of "''clean end''" 9 ?a] by (simp add: stop_name_def)
  next
    case Truncated_Tail
    then show ?thesis using drop_suffix [of "''boundary)''" 9 "?a @ ''truncated final message (slice ''"] by (simp add: stop_name_def)
  qed (use assms in simp)
  moreover have "input_lines bytes p1 stop ! 1 = ?a @ stop_name stop" by (simp add: input_lines_def)
  ultimately show ?thesis using assms by (cases stop) (simp_all add: read_stop_def)
qed

lemma read_stock_line:
  "integers (after_paren (stock_lines locate p1 ! 1))
     = [int (unat locate), int (unat (case map_of (p1_adds p1) locate of None \<Rightarrow> 0 | Some n \<Rightarrow> n))]"
  "read_symbol (stock_lines locate p1 ! 1) = c_string (symbol_of locate p1)"
proof -
  let ?n = "case map_of (p1_adds p1) locate of None \<Rightarrow> 0 | Some n \<Rightarrow> n"
  let ?s = "''stock locate '' @ decimal (unat locate) @ ''; '' @ decimal (unat ?n) @ '' add orders in the slice)''"
  have line: "stock_lines locate p1 ! 1 = (stock_heading @ c_string (symbol_of locate p1) @ '' '') @ CHR ''('' # ?s"
    by (simp add: stock_lines_def stock_heading_def)
  have paren: "CHR ''('' \<notin> set ?s" using decimal_paren by auto
  show "integers (after_paren (stock_lines locate p1 ! 1)) = [int (unat locate), int (unat ?n)]"
    unfolding line after_paren_append [OF paren] by (simp add: integers_def is_digit_def)
  show "read_symbol (stock_lines locate p1 ! 1) = c_string (symbol_of locate p1)"
    unfolding line by (rule read_symbol_append [OF paren])
qed

lemma read_book_line:
  "integers (after_paren (book_lines symbol ser p2 ! 1)) = [int (unat (p2_msgs p2))]"
proof -
  let ?s = "decimal (unat (p2_msgs p2)) @ '' book-changing messages, full depth, rebuilt from the messages):''"
  have "after_paren ((''real order book for '' @ symbol @ '' over the slice '') @ CHR ''('' # ?s) = ?s"
    using decimal_paren by (intro after_paren_append) auto
  then show ?thesis by (simp add: book_lines_def integers_def is_digit_def)
qed

lemma read_model_line:
  "integers (after_paren (model_lines symbol opts n ! 1)) = [int (unat (op_gap_cap opts))]"
  "\<exists>xs. integers (model_lines symbol opts n ! 1) = int n # xs"
proof -
  let ?s = "''arrival times from the real timestamps; idle gaps capped at '' @ decimal (unat (op_gap_cap opts)) @ '' cycles):''"
  have "after_paren ((''cycle model on the first '' @ decimal n @ '' messages of '' @ symbol @ '' '') @ CHR ''('' # ?s) = ?s"
    using decimal_paren by (intro after_paren_append) auto
  then show "integers (after_paren (model_lines symbol opts n ! 1)) = [int (unat (op_gap_cap opts))]"
    by (simp add: model_lines_def integers_def is_digit_def)
  show "\<exists>xs. integers (model_lines symbol opts n ! 1) = int n # xs"
    by (simp add: model_lines_def integers_def is_digit_def)
qed

lemma read_plain_lines:
  "integers (peak_line n) = [1, int (unat n)]"
  "integers (book_lines symbol [a, b, c] p2 ! 6) = [int (unat (fb_unknown (p2_book p2)))]"
  "integers (book_lines symbol [a, b, c] p2 ! 5) = [int (units 2 (percent_of (p2_over5 p2) (p2_msgs p2)) div 10 ^ 2),
     int (units 2 (percent_of (p2_over5 p2) (p2_msgs p2)) mod 10 ^ 2), int levels]"
  "read_items (drop 20 (result_lines rep ! 0)) = rr_model_mix rep"
  "integers (result_lines rep ! 1) = [int (unat (rr_cycles rep))]"
  "integers (last (result_lines rep)) = [int levels, int (unat (rr_dropped rep))]"
  by (simp_all add: peak_line_def book_lines_def result_lines_def integers_def is_digit_def percent_def read_items_end)

text \<open>The report from the line of the peak on.\<close>

definition tail_lines :: "pass1 \<Rightarrow> u16 \<Rightarrow> string \<Rightarrow> (u64 \<times> u64 \<times> u64 \<times> u64) list \<Rightarrow> pass2 \<Rightarrow> replay_options \<Rightarrow> replay_report \<Rightarrow> string list" where
  "tail_lines p1 locate symbol ser p2 opts rep = peak_line (peak_ms p1) # stock_lines locate p1 @ book_lines symbol ser p2
     @ model_lines symbol opts (is_count (p2_stream p2)) @ result_lines rep"

lemma tail_lines_nth:
  fixes p1 locate symbol a b c p2 opts rep
  defines "ls \<equiv> tail_lines p1 locate symbol [a, b, c] p2 opts rep"
  assumes "length (rr_lines rep) = 4"
  shows "ls ! 0 = peak_line (peak_ms p1)" "ls ! 2 = stock_lines locate p1 ! 1"
    "ls ! 4 = book_lines symbol [a, b, c] p2 ! 1" "ls ! 9 = book_lines symbol [a, b, c] p2 ! 6"
    "ls ! 8 = book_lines symbol [a, b, c] p2 ! 5" "ls ! 12 = result_lines rep ! 0"
    "ls ! 11 = model_lines symbol opts (is_count (p2_stream p2)) ! 1" "ls ! 13 = result_lines rep ! 1"
    "last ls = last (result_lines rep)" "length ls = 21 + length (rr_rows rep)"
    "take 3 (drop 5 ls) = map2 series_line [''bid price levels'', ''ask price levels'', ''resting orders''] [a, b, c]"
    "take 4 (drop 15 ls) = map2 cycles_text [''min'', ''median'', ''p99'', ''max''] (rr_lines rep)"
    "butlast (drop 20 ls) = map row_text (rr_rows rep)"
  using assms(2)
  by (auto simp: ls_def tail_lines_def stock_lines_def book_lines_def model_lines_def result_lines_def
      butlast_append numeral_eq_Suc length_Suc_conv)

lemma read_tables:
  "those (map read_mix (map (mix_row whole) mix)) = Some (map (\<lambda>(t, n). ((t, n), units 2 (percent_of n whole))) mix)"
  "those (map read_row (map row_text rows)) = Some rows"
  "those (map read_series (map2 series_line [''bid price levels'', ''ask price levels'', ''resting orders''] [a, b, c])) = Some [a, b, c]"
proof -
  show "those (map read_mix (map (mix_row whole) mix)) = Some (map (\<lambda>(t, n). ((t, n), units 2 (percent_of n whole))) mix)"
    by (induction mix) (auto simp: read_mix_row)
  show "those (map read_row (map row_text rows)) = Some rows" by (induction rows) (simp_all add: read_row_text)
qed (simp add: read_series_line)

lemma read_times:
  assumes "length ts = 4" "\<forall>(c, whole, part) \<in> set ts. unat part < 10000"
  shows "those (map read_cycles (map2 cycles_text [''min'', ''median'', ''p99'', ''max''] ts)) = Some ts"
proof -
  obtain t1 t2 t3 t4 where ts: "ts = [t1, t2, t3, t4]"
    using assms(1) by (auto simp: numeral_eq_Suc length_Suc_conv)
  have "read_cycles (cycles_text label t) = Some t" if "t \<in> set ts" "label \<in> {''min'', ''median'', ''p99'', ''max''}" for t label
    using that assms(2) by (cases t) (auto intro!: read_cycles_text)
  then show ?thesis by (simp add: ts)
qed

lemma report_reads:
  assumes stop: "stop \<noteq> Bad_Framing" and times: "length (rr_lines rep) = 4" "\<forall>(c, whole, part) \<in> set (rr_lines rep). unat part < 10000"
    and ser: "length ser = 3"
    and rep: "rr_pass1 rep = p1" "rr_peak_ms rep = peak_ms p1" "rr_locate rep = locate" "rr_symbol rep = symbol_of locate p1"
      "rr_series rep = ser" "rr_pass2 rep = p2"
  shows "read_replay (input_lines bytes p1 stop @ mix_lines arrange p1 @ stock_lines locate p1 @ book_lines symbol ser p2
      @ model_lines symbol opts (is_count (p2_stream p2)) @ result_lines rep)
    = Some (summary_of arrange bytes stop (op_gap_cap opts) rep, fractions_of arrange rep)"
proof -
  obtain a b c where abc: "ser = [a, b, c]" using ser by (auto simp: numeral_eq_Suc length_Suc_conv)
  define mix where "mix = map (mix_row (p1_total p1)) (arrange (p1_mix p1))"
  define rest where "rest = tail_lines p1 locate symbol [a, b, c] p2 opts rep"
  define ls where "ls = input_lines bytes p1 stop @ [time_line p1, '''', ''message mix (all symbols):''] @ mix @ rest"
  have all: "input_lines bytes p1 stop @ mix_lines arrange p1 @ stock_lines locate p1 @ book_lines symbol ser p2
      @ model_lines symbol opts (is_count (p2_stream p2)) @ result_lines rep = ls"
    by (simp add: ls_def mix_lines_def mix_def rest_def tail_lines_def abc)
  have head: "rest = peak_line (peak_ms p1) # tl rest" by (simp add: rest_def tail_lines_def)
  have row: "take 7 (mix_row w x) \<noteq> ''busiest''" for w x by (cases x) (simp add: mix_row_def)
  have peak: "take 7 (peak_line n) = ''busiest''" for n by (simp add: peak_line_def)
  have "takeWhile (\<lambda>l. take 7 l \<noteq> ''busiest'') (mix @ rest) = mix"
  proof (subst takeWhile_append2)
    show "take 7 l \<noteq> ''busiest''" if "l \<in> set mix" for l using that row by (auto simp: mix_def)
  qed (subst head, simp only: takeWhile.simps peak simp_thms if_False append_Nil2)
  moreover have five: "drop 5 ls = mix @ rest" "ls ! 1 = input_lines bytes p1 stop ! 1" "ls ! 2 = time_line p1"
    by (simp_all add: ls_def input_lines_def)
  ultimately have parts: "takeWhile (\<lambda>l. take 7 l \<noteq> ''busiest'') (drop 5 ls) = mix" "drop (5 + length mix) ls = rest"
    by (simp, metis append_eq_conv_conj drop_drop add.commute)
  note nth = tail_lines_nth [OF times(1), of p1 locate symbol a b c p2 opts, folded rest_def]
  obtain xs where xs: "integers (model_lines symbol opts (is_count (p2_stream p2)) ! 1) = int (is_count (p2_stream p2)) # xs"
    using read_model_line(2) [of symbol opts "is_count (p2_stream p2)"] by blast
  have tables: "those (map read_mix mix)
      = Some (map (\<lambda>(t, n). ((t, n), units 2 (percent_of n (p1_total p1)))) (arrange (p1_mix p1)))"
    by (simp only: mix_def read_tables)
  have fst_mix: "map fst (map (\<lambda>(t, n). ((t, n), units 2 (percent_of n (p1_total p1)))) xs) = xs" for xs :: "(u8 \<times> u64) list"
    by (induction xs) auto
  have snd_mix: "map snd (map (\<lambda>(t, n). ((t, n), units 2 (percent_of n (p1_total p1)))) xs)
      = map (\<lambda>(t, n). units 2 (percent_of n (p1_total p1))) xs" for xs :: "(u8 \<times> u64) list"
    by (induction xs) auto
  have long: "\<not> length rest < 21" by (simp add: nth)
  show ?thesis
    unfolding all read_replay_def Let_def parts if_not_P [OF long] tables five(2,3) read_span_line nth read_input_line [OF stop]
      read_stop_line [OF stop] read_stock_line read_book_line read_model_line(1) read_plain_lines read_times [OF times]
      read_tables xs
    using joined_units [of 2 "percent_of (p2_over5 p2) (p2_msgs p2)"]
    by (simp add: summary_of_def fractions_of_def rep abc fst_mix snd_mix del: map_map joined_units)
qed

subsection \<open>Accuracy\<close>

text \<open>A number read in units of its \<open>k\<close>-th decimal is the given one, rounded to \<open>k\<close> decimals up to an error before.\<close>

definition near :: "nat \<Rightarrow> nat \<Rightarrow> real \<Rightarrow> real \<Rightarrow> bool" where
  "near k u x e \<longleftrightarrow> \<bar>real u / 10 ^ k - x\<bar> \<le> 1 / (2 * 10 ^ k) + e"

lemma units_near: "0 < snd d \<Longrightarrow> \<bar>double_value d - x\<bar> \<le> e \<Longrightarrow> near k (units k d) x e"
  using units_error [of d k] unfolding near_def by linarith

lemma near_mono: "near k u x e \<Longrightarrow> e \<le> e' \<Longrightarrow> near k u x e'"
  by (simp add: near_def)

lemma over_near:
  assumes x: "double_value x = real a" "0 < snd x" and y: "double_value y = real b" "0 < snd y"
    and b: "0 < b" and small: "real a / real b \<le> 2 ^ 53 * e"
  shows "near k (units k (double_over x y)) (real a / real b) e"
proof (rule units_near)
  have pos: "0 < double_value y" using b by (simp add: y)
  show "0 < snd (double_over x y)" by (rule double_over_error(2) [OF x(2) y(2) pos])
  have "\<bar>double_value (double_over x y) - real a / real b\<bar> \<le> real a / real b / 2 ^ 53"
    using double_over_error(1) [OF x(2) y(2) pos] by (simp only: x y)
  also have "\<dots> \<le> e" using small by (subst mult_imp_div_pos_le) (simp_all add: mult.commute)
  finally show "\<bar>double_value (double_over x y) - real a / real b\<bar> \<le> e" .
qed

lemma percent_near:
  assumes "unat n \<le> unat t" "0 < unat t" "unat t < 2 ^ 46"
  shows "near 2 (units 2 (percent_of n t)) (100 * real (unat n) / real (unat t)) (1 / 10 ^ 12)"
proof -
  have less: "unat n < 2 ^ 53" "unat t < 2 ^ 53" "100 < (2 :: nat) ^ 53" "100 * unat n < 2 ^ 53" using assms by simp_all
  note prod = double_times_value [OF double_of_value(1) [OF less(3)] double_of_value(1) [OF less(1)]
    double_of_value(2,2) less(4)]
  have "real (100 * unat n) \<le> 100 * real (unat t)" using assms(1) by (metis mult_le_mono2 of_nat_le_iff of_nat_mult of_nat_numeral)
  then have "real (100 * unat n) / real (unat t) \<le> 100"
    using assms(2) by (intro mult_imp_div_pos_le) (simp_all only: of_nat_0_less_iff)
  also have "\<dots> \<le> 2 ^ 53 * (1 / 10 ^ 12)" by simp
  finally have "near 2 (units 2 (percent_of n t)) (real (100 * unat n) / real (unat t)) (1 / 10 ^ 12)"
    unfolding percent_of_def by (intro over_near [OF prod double_of_value(1) [OF less(2)] double_of_value(2) assms(2)])
  then show ?thesis by simp
qed

lemma seconds_near:
  assumes "unat t < 2 ^ 48"
  shows "near 3 (units 3 (seconds_of t)) (real (unat t) / 10 ^ 9) (1 / 10 ^ 9)"
proof -
  have less: "unat t < 2 ^ 53" "1000000000 < (2 :: nat) ^ 53" using assms by simp_all
  have "real (unat t) \<le> real (2 ^ 48)" using assms by (simp only: of_nat_le_iff less_imp_le)
  then have "real (unat t) / real 1000000000 \<le> real (2 ^ 48) / real 1000000000" by (intro divide_right_mono) simp_all
  also have "\<dots> \<le> 2 ^ 53 * (1 / 10 ^ 9)" by simp
  finally have "near 3 (units 3 (seconds_of t)) (real (unat t) / real 1000000000) (1 / 10 ^ 9)"
    unfolding seconds_of_def
    by (intro over_near [OF double_of_value(1) [OF less(1)] double_of_value(2) double_of_value(1) [OF less(2)] double_of_value(2)]) simp_all
  then show ?thesis by simp
qed

text \<open>A time of 64 bits may not be a double itself.\<close>

lemma seconds_near_any: "near 3 (units 3 (seconds_of t)) (real (unat t) / 10 ^ 9) (1 / 10 ^ 5)"
proof -
  let ?x = "double_of (unat t)" and ?y = "double_of 1000000000" and ?t = "real (unat t)"
  have t: "?t \<le> 2 ^ 64" using unat_u64_less [of t] by (metis less_imp_le of_nat_le_iff of_nat_numeral of_nat_power)
  have y: "double_value ?y = 10 ^ 9" using double_of_value(1) [of 1000000000] by simp
  have pos: "0 < double_value ?y" by (simp add: y)
  have x: "\<bar>double_value ?x - ?t\<bar> \<le> ?t / 2 ^ 53" using double_div_error(1) [of 1 "unat t"] by (simp add: double_of_def)
  have "?t / 2 ^ 53 \<le> 2 ^ 64 / 2 ^ 53" using t by (intro divide_right_mono) simp_all
  also have "\<dots> = 2 ^ 11" by simp
  finally have off: "\<bar>double_value ?x - ?t\<bar> \<le> 2 ^ 11" using x by linarith
  then have big: "double_value ?x \<le> 2 ^ 65" using t by simp
  have "\<bar>double_value (seconds_of t) - double_value ?x / 10 ^ 9\<bar> \<le> double_value ?x / 10 ^ 9 / 2 ^ 53"
    using double_over_error(1) [OF double_of_value(2) double_of_value(2) pos, of "unat t"] by (simp only: y seconds_of_def)
  also have "\<dots> \<le> 2 ^ 65 / 10 ^ 9 / 2 ^ 53" using big by (intro divide_right_mono) simp_all
  also have "\<dots> = 4096 / 10 ^ 9" by simp
  finally have over: "\<bar>double_value (seconds_of t) - double_value ?x / 10 ^ 9\<bar> \<le> 4096 / 10 ^ 9" .
  have "\<bar>double_value ?x / 10 ^ 9 - ?t / 10 ^ 9\<bar> = \<bar>double_value ?x - ?t\<bar> / 10 ^ 9"
    by (simp only: abs_divide flip: diff_divide_distrib) simp
  also have "\<dots> \<le> 2 ^ 11 / 10 ^ 9" using off by (intro divide_right_mono) simp_all
  finally have "\<bar>double_value (seconds_of t) - ?t / 10 ^ 9\<bar> \<le> 4096 / 10 ^ 9 + 2 ^ 11 / 10 ^ 9" using over by linarith
  also have "\<dots> \<le> 1 / 10 ^ 5" by simp
  finally have "\<bar>double_value (seconds_of t) - ?t / 10 ^ 9\<bar> \<le> 1 / 10 ^ 5" .
  moreover have "0 < snd (seconds_of t)"
    unfolding seconds_of_def by (rule double_over_error(2) [OF double_of_value(2) double_of_value(2) pos])
  ultimately show ?thesis by (rule units_near [rotated])
qed

subsection \<open>The report of a finished run\<close>

lemma replay_finished:
  assumes "replay_main args data = Some (Replayed rep)"
  obtains opts ms w locate p2 a b c where "parse_options args default_options = Some opts" "walk data walker_new = (ms, w)"
    "wk_stop w \<noteq> Bad_Framing" "choose_stock (op_symbol opts) (foldl pass1_step pass1_new ms) = Some locate"
    "pass2_run opts locate ms pass2_new = Some p2" "p2_msgs p2 \<noteq> 0"
    "series (p2_bid_levels p2) = Some a" "series (p2_ask_levels p2) = Some b" "series (p2_orders p2) = Some c"
    "replay_model (foldl pass1_step pass1_new ms) locate [a, b, c] p2 = Some (Replayed rep)"
proof -
  obtain ms w where walk: "walk data walker_new = (ms, w)" by fastforce
  show thesis
    using assms by (auto simp: replay_main_def Let_def walk split: option.splits bind_splits if_splits intro: that [OF _ walk])
qed

lemma replay_model_report:
  assumes "replay_model p1 locate ser p2 = Some (Replayed rep)"
  shows "rr_pass1 rep = p1" "rr_peak_ms rep = peak_ms p1" "rr_locate rep = locate" "rr_symbol rep = symbol_of locate p1"
    "rr_series rep = ser" "rr_pass2 rep = p2" "length (rr_lines rep) = 4" "\<forall>(c, whole, part) \<in> set (rr_lines rep). unat part < 10000"
  using assms by (auto simp: replay_model_def Let_def dest: cycles_line_fraction split: bind_splits prod.splits if_splits)

text \<open>The counts of pass 1 are at most the number of messages, and its times come from messages.\<close>

lemma pass1_mix_le:
  assumes "length ms < 2 ^ 64" "(t, n) \<in> set (p1_mix (foldl pass1_step pass1_new ms))"
  shows "unat n \<le> length ms"
proof -
  let ?mix = "foldl (count_step (\<lambda>m. True) (\<lambda>m. m ! 0)) [] ms"
  have "map_of ?mix t = Some n"
    using assms(2) by (intro map_of_is_SomeI [OF std_ok_distinct [OF counted_ok]]) (simp add: pass1_counts pass1_new_def)
  then have "n = of_nat (tally (\<lambda>m. True) (\<lambda>m. m ! 0) ms t)" by (auto simp: counted Let_def split: if_splits)
  moreover have "tally (\<lambda>m. True) (\<lambda>m. m ! 0) ms t \<le> length ms" by (simp add: tally_def)
  ultimately show ?thesis using assms(1) by (simp add: unat_of_nat)
qed

lemma pass1_times:
  "unat (p1_first p) < 2 ^ 48 \<Longrightarrow> unat (p1_last p) < 2 ^ 48 \<Longrightarrow>
   unat (p1_first (foldl pass1_step p ms)) < 2 ^ 48 \<and> unat (p1_last (foldl pass1_step p ms)) < 2 ^ 48"
proof (induction ms arbitrary: p)
  case (Cons m ms)
  show ?case unfolding foldl_Cons using Cons.prems timestamp_less [of m] by (intro Cons.IH) (simp_all add: pass1_step_def Let_def)
qed simp

lemma pass2_deep:
  assumes "parse_options args default_options = Some opts" "walk data walker_new = (ms, w)" "length data \<le> 2 ^ 33"
    and "pass2_run opts locate ms pass2_new = Some p2"
  shows "unat (p2_over5 p2) \<le> unat (p2_msgs p2)" "unat (p2_msgs p2) < 2 ^ 46"
proof -
  let ?sel = "filter (followed locate) ms"
  have "op_messages opts \<le> model_capacity"
    by (rule parse_options_bound [OF assms(1)]) (simp add: default_options_def)
  then have inv: "pass2_inv opts ?sel p2" using replay_pass2_inv [OF assms(2,3), of opts locate] assms(4) by auto
  have len: "length ?sel \<le> 2 ^ 30" using walk_messages(2) [OF assms(2,3)] length_filter_le [of "followed locate" ms] by linarith
  have deep: "length (filter P [0..<length ?sel]) \<le> length ?sel" for P
    using length_filter_le [of P "[0..<length ?sel]"] by simp
  have "unat (p2_msgs p2) = length ?sel" using inv len by (simp add: pass2_inv_def unat_of_nat)
  moreover have "unat (p2_over5 p2) \<le> length ?sel"
    using inv len deep [of "\<lambda>k. deep (book_at ?sel k)"] by (simp add: pass2_inv_def unat_of_nat)
  ultimately show "unat (p2_over5 p2) \<le> unat (p2_msgs p2)" "unat (p2_msgs p2) < 2 ^ 46" using len by simp_all
qed

text \<open>What \<open>std::sort\<close> does to the rows of the mix, in whatever order it leaves equal counts.\<close>

definition falling :: "(u8 \<times> u64) list \<Rightarrow> (u8 \<times> u64) list \<Rightarrow> bool" where
  "falling xs ys \<longleftrightarrow> mset ys = mset xs \<and> sorted_wrt (\<lambda>a b. snd b \<le> snd a) ys"

text \<open>
  C29. The report of a finished run of the replay tool on a file of at most 8 GB, in whatever order
  \<open>std::sort\<close> leaves equal rows. Reading the printed lines gives back every number of the report
  (and the stock's symbol and how the framing stopped): bytes and
  messages, the message mix, a permutation of the counts of pass 1 in falling order, the busiest millisecond, the
  stock and its add orders, the three series, the messages with unknown references, the messages replayed
  and their types with counts, the gap cap, the cycles, the latencies and their times, the histogram
  and the dropped adds. The numbers computed in doubles are right to the last printed digit, up to the
  rounding of the quotient: each percentage of the mix and that of the messages with deep books to half a
  hundredth, the first and last time and the span between them to half a millisecond (a span that wraps
  around, when the last time is before the first, has a larger rounding error).
\<close>

theorem replay_prints_report:
  assumes "length data \<le> 2 ^ 33" "replay_main args data = Some (Replayed rep)"
    and "falling (p1_mix (rr_pass1 rep)) (arrange (p1_mix (rr_pass1 rep)))"
  shows "\<exists>lines opts S fr. parse_options args default_options = Some opts \<and> replay_print arrange args data = Some (0, lines)
    \<and> read_replay lines = Some (S, fr)
    \<and> S = summary_of arrange (length data) (wk_stop (snd (walk data walker_new))) (op_gap_cap opts) rep
    \<and> falling (p1_mix (rr_pass1 rep)) (rs_mix S) \<and> length (fr_percents fr) = length (rs_mix S)
    \<and> (\<forall>i < length (rs_mix S). near 2 (fr_percents fr ! i)
         (100 * real (unat (snd (rs_mix S ! i))) / real (unat (rs_total S))) (1 / 10 ^ 12))
    \<and> near 2 (fr_over5 fr) (100 * real (unat (p2_over5 (rr_pass2 rep))) / real (unat (rs_msgs S))) (1 / 10 ^ 12)
    \<and> near 3 (fr_first fr) (real (unat (p1_first (rr_pass1 rep))) / 10 ^ 9) (1 / 10 ^ 9)
    \<and> near 3 (fr_last fr) (real (unat (p1_last (rr_pass1 rep))) / 10 ^ 9) (1 / 10 ^ 9)
    \<and> near 3 (fr_span fr) (real (unat (p1_last (rr_pass1 rep) - p1_first (rr_pass1 rep))) / 10 ^ 9)
         (if p1_first (rr_pass1 rep) \<le> p1_last (rr_pass1 rep) then 1 / 10 ^ 9 else 1 / 10 ^ 5)"
proof -
  obtain opts ms w locate p2 a b c where run: "parse_options args default_options = Some opts" "walk data walker_new = (ms, w)"
    "wk_stop w \<noteq> Bad_Framing" "choose_stock (op_symbol opts) (foldl pass1_step pass1_new ms) = Some locate"
    "pass2_run opts locate ms pass2_new = Some p2" "p2_msgs p2 \<noteq> 0"
    and ser: "series (p2_bid_levels p2) = Some a" "series (p2_ask_levels p2) = Some b" "series (p2_orders p2) = Some c"
    and model: "replay_model (foldl pass1_step pass1_new ms) locate [a, b, c] p2 = Some (Replayed rep)"
    using assms(2) by (rule replay_finished)
  let ?p1 = "foldl pass1_step pass1_new ms"
  note rep = replay_model_report [OF model]
  let ?symbol = "c_string (symbol_of locate ?p1)"
  let ?lines = "input_lines (length data) ?p1 (wk_stop w) @ mix_lines arrange ?p1 @ stock_lines locate ?p1
      @ book_lines ?symbol [a, b, c] p2 @ model_lines ?symbol opts (is_count (p2_stream p2)) @ result_lines rep"
  have print: "replay_print arrange args data = Some (0, ?lines)"
    using run ser model by (simp add: replay_print_def Let_def end_lines_def)
  have three: "length [a, b, c] = 3" by simp
  note read = report_reads [OF run(3) rep(7,8) three rep(1-6), of "length data" arrange ?symbol opts]
  have len: "length ms \<le> 2 ^ 30" using walk_messages(2) [OF run(2) assms(1)] .
  then have total: "unat (p1_total ?p1) = length ms" by (simp add: pass1_counts pass1_new_def unat_of_nat)
  have mix: "near 2 (units 2 (percent_of n (p1_total ?p1))) (100 * real (unat n) / real (unat (p1_total ?p1))) (1 / 10 ^ 12)"
    if "(t, n) \<in> set (arrange (p1_mix ?p1))" for t n
  proof (rule percent_near)
    have "set (arrange (p1_mix ?p1)) = set (p1_mix ?p1)"
      using assms(3) by (metis falling_def rep(1) set_mset_mset)
    with that have tn: "(t, n) \<in> set (p1_mix ?p1)" by simp
    show "unat n \<le> unat (p1_total ?p1)" using pass1_mix_le [OF _ tn] len by (simp add: total)
    have "ms \<noteq> []" using tn by (auto simp: pass1_new_def)
    then show "0 < unat (p1_total ?p1)" by (simp add: total)
    show "unat (p1_total ?p1) < 2 ^ 46" using len by (simp add: total)
  qed
  have deep: "near 2 (units 2 (percent_of (p2_over5 p2) (p2_msgs p2)))
      (100 * real (unat (p2_over5 p2)) / real (unat (p2_msgs p2))) (1 / 10 ^ 12)"
    using pass2_deep [OF run(1,2) assms(1) run(5)] run(6) by (intro percent_near) (simp_all add: unat_gt_0)
  have small: "unat (p1_first ?p1) < 2 ^ 48" "unat (p1_last ?p1) < 2 ^ 48"
    using pass1_times [of pass1_new ms] by (simp_all add: pass1_new_def)
  have span: "near 3 (units 3 (seconds_of (p1_last ?p1 - p1_first ?p1))) (real (unat (p1_last ?p1 - p1_first ?p1)) / 10 ^ 9)
      (if p1_first ?p1 \<le> p1_last ?p1 then 1 / 10 ^ 9 else 1 / 10 ^ 5)"
  proof (cases "p1_first ?p1 \<le> p1_last ?p1")
    case True
    then have "unat (p1_last ?p1 - p1_first ?p1) < 2 ^ 48" using small(2) by (simp add: unat_sub)
    then show ?thesis using True by (simp only: if_True seconds_near)
  qed (simp only: if_False seconds_near_any)
  have rows: "\<forall>i < length (arrange (p1_mix ?p1)). near 2 (fr_percents (fractions_of arrange rep) ! i)
      (100 * real (unat (snd (arrange (p1_mix ?p1) ! i))) / real (unat (p1_total ?p1))) (1 / 10 ^ 12)"
  proof (intro allI impI)
    fix i assume i: "i < length (arrange (p1_mix ?p1))"
    obtain t n where tn: "arrange (p1_mix ?p1) ! i = (t, n)" by fastforce
    with i have "(t, n) \<in> set (arrange (p1_mix ?p1))" by (metis nth_mem)
    from mix [OF this] show "near 2 (fr_percents (fractions_of arrange rep) ! i)
        (100 * real (unat (snd (arrange (p1_mix ?p1) ! i))) / real (unat (p1_total ?p1))) (1 / 10 ^ 12)"
      using i by (simp add: fractions_of_def rep(1) Let_def tn)
  qed
  show ?thesis
    using run(1,2) print read assms(3) rows deep span seconds_near [OF small(1)] seconds_near [OF small(2)]
    by (intro exI [of _ ?lines] exI [of _ opts] exI [of _ "summary_of arrange (length data) (wk_stop w) (op_gap_cap opts) rep"]
        exI [of _ "fractions_of arrange rep"] conjI)
      (simp_all add: summary_of_def fractions_of_def rep Let_def)
qed

text \<open>A file with one added order; the rows of the mix sorted by falling count.\<close>

definition by_count :: "(u8 \<times> u64) list \<Rightarrow> (u8 \<times> u64) list" where
  "by_count = sort_key (\<lambda>(t, n). - int (unat n))"

lemma by_count_falling: "falling xs (by_count xs)"
proof -
  have "sorted (map (\<lambda>(t, n). - int (unat n)) (by_count xs))" unfolding by_count_def by (rule sorted_sort_key)
  then have "sorted_wrt (\<lambda>a b. snd b \<le> snd a) (by_count xs)"
    by (simp add: sorted_map case_prod_beta word_le_def)
  then show ?thesis by (simp add: falling_def by_count_def)
qed

lemma sample_finishes: "\<exists>rep. replay_main [] (frame sample_add) = Some (Replayed rep)"
proof -
  obtain n where w: "walk (frame sample_add) walker_new = ([sample_add], \<lparr>wk_offset = n, wk_stop = Stop_End\<rparr>)"
    using sample_walk(1) by blast
  obtain p2 where p2: "pass2_run default_options 0 [sample_add] pass2_new = Some p2"
    "is_count (p2_stream p2) = 1" "first_fault (p2_stream p2) = None"
    "finish (p2_stream p2) \<le> message_arrival (p2_stream p2) 0 + 100000"
    using sample_replay by blast
  have "wk_stop \<lparr>wk_offset = n, wk_stop = Stop_End\<rparr> \<noteq> Bad_Framing"
    "choose_stock (op_symbol default_options) (foldl pass1_step pass1_new [sample_add]) = Some 0"
    "filter (followed 0) [sample_add] \<noteq> []"
    using sample_choose by (simp_all add: sample_options(2) sample_add_facts)
  from replay_main_ends(4) [OF sample_options(1) w this(1) sample_walk(2) this(2) p2(1) this(3)] obtain ser l where
    "replay_main [] (frame sample_add) = replay_model (foldl pass1_step pass1_new [sample_add]) 0 ser p2"
    "sized_stream (p2_stream p2)" "is_count (p2_stream p2) \<le> model_capacity" "replay_limit (p2_stream p2) = Some l"
    "unat l = message_arrival (p2_stream p2) 0 + 100000"
    using p2(2) by (auto simp del: foldl_Cons)
  with replay_model_result [of p2 l "foldl pass1_step pass1_new [sample_add]" 0 ser] p2(2-4) show ?thesis
    by (auto simp: undefined_fault_def simp del: foldl_Cons split: if_splits)
qed

theorem replay_prints_report_witness:
  "\<exists>rep lines fr. replay_main [] (frame sample_add) = Some (Replayed rep)
    \<and> replay_print by_count [] (frame sample_add) = Some (0, lines)
    \<and> read_replay lines = Some (summary_of by_count (length (frame sample_add)) (wk_stop (snd (walk (frame sample_add) walker_new)))
          (op_gap_cap default_options) rep, fr)"
proof -
  obtain rep where "replay_main [] (frame sample_add) = Some (Replayed rep)" using sample_finishes by blast
  with replay_prints_report [where arrange = by_count, OF sample_walk(2) this by_count_falling] sample_options(1)
  show ?thesis by (intro exI [of _ rep]) auto
qed

end
