(* ===== verification/Spec2Isabelle.thy ===== *)
theory Spec2Isabelle
  imports Fpga_Prelude Ring_Buffer Pcie_Dma Discrete_Engine Mac_Framer Bram Crc Phy_Pcs Itch_Parser
    Order_Table Order_Book Ofi_Dsp Message_Stream Tick_To_Trade Schedule Tick_Stages Tick_Run
    Tick_Faults Share_Bounds Latency_Stats Synthetic_Itch Synthetic_Run Vcd_Logger Doubles Printf Demo_Run
    Demo_Print Std_Map Itch_Analysis Real_Book Replay_Tool Replay_Run Replay_End Replay_Quotes Replay_Print
begin

text \<open>
  Verification of \<open>fpga-sim-core\<close>, a cycle-level software model of a tick-to-trade pipeline: a PCS
  receiver with CRC-32, a MAC, an ITCH 5.0 parser, an order table and a five-level book, a dual-port
  RAM with the quotes, a three-stage order-flow imbalance (OFI) unit and a DMA ring, driven by a
  discrete engine, with a synthetic and a replayed message source and two programs around it.

  \<^bold>\<open>How the parts interact.\<close> \<open>DiscreteEngine\<close> calls the registered callbacks on each clock edge. The
  pipeline's \<open>posedge\<close> runs its stages from the last to the first; each takes a message index from
  the ring or slot before it: the wire (\<open>pcs\<close>), the MAC, the parser, the book, the RAM read-back,
  the OFI unit, the DMA post. Its \<open>negedge\<close> collects the answers of the RAM and the OFI unit. The
  messages come from a stream object, which \<open>SyntheticItchStream\<close> generates and \<open>ReplayStream\<close>
  receives from the replay tool. \<open>main.cpp\<close> drives the former and writes a VCD trace,
  \<open>tools/itch_replay.cpp\<close> the latter.

  \<^bold>\<open>Conventions.\<close> A class is a record and each of its functions a definition with the state passed
  explicitly. Integers are words of their width (\<open>std::size_t\<close> values that count elements of an
  array are \<open>nat\<close>, with the wrap-around of a subtraction or product written out where an argument
  can cause it). A signed overflow, an index outside an array, a division by zero and a null
  callback context are \<open>None\<close>; a null pointer where the code tests for it is an \<open>option\<close> argument.
  A \<open>bool\<close> result with an effect is a pair. Loops are recursive functions; the drive loops and the
  file walker terminate by a measure, so no fuel is used anywhere.

  \<^bold>\<open>Theories and sources\<close> (under \<open>include/\<close> unless a directory is named).

  \<^item> \<open>Fpga_Prelude\<close>: word types, checked 32- and 64-bit arithmetic, bounded array reads, the
    collections \<open>array_simps\<close> and \<open>inv_intros\<close>.
  \<^item> \<open>Ring_Buffer\<close> (\<open>core/aligned_slab.hpp\<close>), \<open>Pcie_Dma\<close> (\<open>modules/pcie_dma.hpp\<close>): both refine a
    bounded FIFO queue, stated as a locale that each interprets.
  \<^item> \<open>Discrete_Engine\<close> (\<open>core/discrete_engine.hpp\<close>): registration, step, run, cycles to nanoseconds.
  \<^item> \<open>Mac_Framer\<close> (\<open>bus/axi4_stream.hpp\<close>, \<open>modules/mac_framer.hpp\<close>), \<open>Bram\<close>
    (\<open>modules/bram_memory.hpp\<close>): beats and gap check; RAM ports with the debug assertions.
  \<^item> \<open>Crc\<close>, \<open>Phy_Pcs\<close> (\<open>modules/phy_pcs.hpp\<close>): the CRC as an injective linear map on
    register states, encode and decode of 66-bit blocks.
  \<^item> \<open>Itch_Parser\<close> (\<open>modules/parser_itch50.hpp\<close>): lengths, decoding, the parse loop, and a printer
    of messages for the round trip.
  \<^item> \<open>Order_Table\<close>, \<open>Order_Book\<close> (\<open>modules/order_table.hpp\<close>, \<open>modules/order_book.hpp\<close>): array code
    against maps. The locales \<open>price_ladder\<close> and \<open>quoted_ladder\<close> are the contract of one side of a
    book; bids and asks of the five-level book and both sides of the full-depth book interpret them.
  \<^item> \<open>Ofi_Dsp\<close> (\<open>modules/ofi_dsp.hpp\<close>): micro-price table and OFI unit.
  \<^item> \<open>Message_Stream\<close> (\<open>pipeline/real_itch.hpp\<close>): the stream interface and \<open>ReplayStream\<close>.
  \<^item> \<open>Tick_To_Trade\<close> (\<open>pipeline/tick_to_trade.hpp\<close>): the pipeline, one definition per stage.
    \<open>Schedule\<close>: the promised timing and results of a stream. \<open>Tick_Stages\<close>: what each stage holds
    at each cycle and that its step keeps this. \<open>Tick_Run\<close>: the invariant of a run and the drive loop.
    \<open>Tick_Faults\<close>: streams with a message that fails, reachable states, the outcome of the
    drive loop. \<open>Share_Bounds\<close>: when the share arithmetic of the table and book cannot overflow.
  \<^item> \<open>Latency_Stats\<close> (\<open>LatencyStats\<close> of \<open>pipeline/tick_to_trade.hpp\<close>): percentiles, histogram.
  \<^item> \<open>Synthetic_Itch\<close>, \<open>Synthetic_Run\<close> (\<open>pipeline/synthetic_itch.hpp\<close>): the generator, its invariant
    (a multiset of resting orders that the order table and the book hold) and the stream it makes.
  \<^item> \<open>Vcd_Logger\<close> (\<open>trace/vcd_logger.hpp\<close>): the text written, and a reader of it.
  \<^item> \<open>Demo_Run\<close>, \<open>Demo_Print\<close> (\<open>main.cpp\<close>): rig, loop, report, exit status; the lines printed, and
    a reader of them. \<open>Doubles\<close>, \<open>Printf\<close>: what the reports use of the language and its library, IEEE
    double arithmetic on non-negative numbers and the \<open>printf\<close> conversions, with a reader of numbers.
  \<^item> \<open>Std_Map\<close>: the standard maps as sorted association lists, with the locale \<open>dictionary\<close> they
    interpret. \<open>Itch_Analysis\<close>, \<open>Real_Book\<close> (\<open>tools/itch_analysis.hpp\<close>): the file walker, the
    percentile, the full-depth book.
  \<^item> \<open>Replay_Tool\<close>, \<open>Replay_Run\<close> (\<open>tools/itch_replay.cpp\<close>): options, both passes, the choice of the
    stock, the replay, the exit status; and what the passes compute. \<open>Replay_End\<close>: how the tool
    ends on any arguments and file. \<open>Replay_Quotes\<close>: the quotes of the pipeline against the tool's
    own book. \<open>Replay_Print\<close>: the lines of the report, and a reader of them.

  \<^bold>\<open>What is shown.\<close> Component lemmas give each operation's effect on an abstract value (a queue, a
  map, a multiset of orders, the text read back) and its invariant. \<open>Tick_Stages\<close> shows, stage by stage,
  that the message a stage holds at cycle \<open>t\<close> is the one the schedule puts there (\<open>occupant st d t\<close>,
  the message received \<open>d\<close> cycles ago). From this, for every stream of supported messages that the
  order table and the book accept: no undefined behaviour, no ring overflow and no error at any
  cycle, one decision per message in order, with the promised latency, quote and imbalance; the
  latency is the wait for the wire plus the blocks of the message plus ten.

  On any other stream the first faulty message decides (\<open>first_fault\<close>): the parser fails on what is
  not exactly one supported message, the book stage on what the order table refuses, and a message
  whose share arithmetic overflows is undefined there. \<open>Tick_Faults\<close> gives the cycle of the failure
  (\<open>fault_cycle\<close>), shows that until then the run is the fault-free one and that from then on nothing
  is posted, and describes with this every reachable state (the inductive relation \<open>tick_reach\<close>) and
  the result of the drive loop for any stream and limit. \<open>Share_Bounds\<close> rules the undefined case out
  for share counts that are not negative and sum to less than \<open>2 ^ 31\<close>.

  The stream of \<open>main.cpp\<close> is shown to be free of faults; that of the replay tool can only be faulty
  in the book stage. Their loops, reports and exit statuses follow, for the replay tool on every
  file of at most \<open>2 ^ 33\<close> bytes. The five-level book is compared with the full-depth book of the tools
  on the same messages. Both programs print their reports without ambiguity: a reader gets every
  integer back. The percentages and times of the replay report are computed in doubles, a product or
  quotient rounded to 53 bits, ties to even, and what the reader finds for them is right to half a unit of
  the last printed digit up to the rounding of the quotient.

  \<^bold>\<open>Bounds.\<close> Cycles stay below \<open>2 ^ 64\<close>. The messages of a stream have 4 to 40 bytes: up to 40
  fit the buffers of the pipeline, and shorter ones of a single wire block would meet in the parser,
  which takes two cycles for each. A stream has fewer than \<open>2 ^ 31\<close> messages, as a message index
  is an \<open>int32_t\<close>. Statistics have fewer than \<open>2 ^ 32\<close> samples. A trace has at most
  \<open>2 ^ 64 / 3103030\<close> cycles. A replayed file has at most \<open>2 ^ 33\<close> bytes, thus fewer than \<open>2 ^ 30\<close>
  messages, which keeps the levels of the full-depth book below \<open>2 ^ 63\<close>. The comparison of the
  books needs share counts and prices below \<open>2 ^ 31\<close>, where the signed reading of the 32-bit fields
  by the pipeline and the unsigned one by the tools agree.

  \<^bold>\<open>Not modelled.\<close> The order of equal rows of the message mix of the replay report, which
  \<open>std::sort\<close> leaves open (the arrangement of the rows is an argument of \<open>replay_print\<close>, and what is
  shown holds for any); doubles that are negative, infinite, subnormal or not a number, which neither
  program computes; messages to the standard error stream; opening, mapping and closing files, apart from the flag that the trace
  file is open; alignment and the \<open>static_assert\<close>s on layout; the test programs, the figure script
  and the build files.
\<close>

end
